(* ===== verification/Prelude.thy ===== *)
theory Prelude
  imports Main "HOL-Library.Word" "HOL-Library.Sublist"
begin

text \<open>
  Shared vocabulary of the development: machine integers, the result and poll types of the
  Rust standard library, byte strings and big-endian encodings, decimal printing, and the
  generic list lemmas the component theories use.

  A Rust \<open>&str\<close> is modelled by its UTF-8 bytes, one \<open>char\<close> per byte (type \<open>string\<close>), so that
  \<open>length\<close> is Rust's \<open>len()\<close>; a \<open>Vec<u8>\<close> or \<open>&[u8]\<close> is a list of \<open>8 word\<close>. A \<open>usize\<close> that
  only counts bytes held in memory is a \<open>nat\<close>; \<open>u16\<close> and \<open>u32\<close> values stay words.
\<close>

unbundle bit_operations_syntax

type_synonym u8 = "8 word"
type_synonym u16 = "16 word"
type_synonym u32 = "32 word"
type_synonym u64 = "64 word"
type_synonym bytes = "u8 list"

section \<open>Results of the standard library\<close>

text \<open>
  The kinds of \<open>std::io::ErrorKind\<close> the crate distinguishes, with \<open>OtherKind\<close> for the rest of
  that non-exhaustive enumeration.
\<close>

datatype error_kind =
    WriteZero
  | InvalidData
  | InvalidInput
  | ConnectionRefused
  | ConnectionReset
  | ConnectionAborted
  | NotConnected
  | BrokenPipe
  | WouldBlock
  | TimedOut
  | Interrupted
  | AddrInUse
  | AddrNotAvailable
  | PermissionDenied
  | OutOfMemory
  | OtherKind

text \<open>
  \<open>std::io::Error\<close> is an operating system code, a bare kind, or a kind with a message.
\<close>

datatype io_error = Os int | Simple error_kind | Custom error_kind string

type_synonym 'a io_result = "io_error + 'a"

text \<open>\<open>std::task::Poll\<close>.\<close>

datatype 'a poll = Ready 'a | Pending

abbreviation (input) Ok :: "'a \<Rightarrow> 'e + 'a" where "Ok \<equiv> Inr"
abbreviation (input) Err :: "'e \<Rightarrow> 'e + 'a" where "Err \<equiv> Inl"

definition ready_ok :: "'a io_result poll \<Rightarrow> bool" where
  "ready_ok r = (case r of Ready (Inr _) \<Rightarrow> True | _ \<Rightarrow> False)"

lemma ready_ok_simps [simp]:
  "ready_ok (Ready (Ok x))" "\<not> ready_ok (Ready (Err e))" "\<not> ready_ok Pending"
  by (simp_all add: ready_ok_def)

text \<open>The operator \<open>?\<close>: go on with the value, or return the error, converted by \<open>From\<close>.\<close>

definition and_then :: "'e + 'a \<Rightarrow> ('a \<Rightarrow> 'e + 'b) \<Rightarrow> 'e + 'b" where
  "and_then r f = (case r of Inl e \<Rightarrow> Inl e | Inr x \<Rightarrow> f x)"

definition map_err :: "('e \<Rightarrow> 'f) \<Rightarrow> 'e + 'a \<Rightarrow> 'f + 'a" where
  "map_err g r = (case r of Inl e \<Rightarrow> Inl (g e) | Inr x \<Rightarrow> Inr x)"

lemma and_then_simps [simp]: "and_then (Err e) f = Err e" "and_then (Ok x) f = f x"
  by (simp_all add: and_then_def)

lemma map_err_simps [simp]: "map_err g (Err e) = Err (g e)" "map_err g (Ok x) = Ok x"
  by (simp_all add: map_err_def)

lemma and_then_Inr [simp]: "and_then r Inr = r"
  by (cases r) simp_all

lemma and_then_Ok: "and_then r f = Ok y \<longleftrightarrow> (\<exists>x. r = Ok x \<and> f x = Ok y)"
  by (cases r) simp_all

lemma map_err_Ok: "map_err g r = Ok y \<longleftrightarrow> r = Ok y"
  by (cases r) simp_all

lemma poll_cases [case_names ok err pending]:
  obtains x where "r = Ready (Ok x)" | e where "r = Ready (Err e)" | "r = Pending"
  by (cases r rule: poll.exhaust) (metis sum.exhaust)+

section \<open>Byte strings\<close>

text \<open>\<open>str::as_bytes\<close>.\<close>

definition as_bytes :: "string \<Rightarrow> bytes" where
  "as_bytes s = map of_char s"

lemma length_as_bytes [simp]: "length (as_bytes s) = length s"
  by (simp add: as_bytes_def)

lemma as_bytes_append [simp]: "as_bytes (s @ t) = as_bytes s @ as_bytes t"
  by (simp add: as_bytes_def)

lemma as_bytes_Nil [simp]: "as_bytes [] = []"
  by (simp add: as_bytes_def)

lemma as_bytes_Cons: "as_bytes (c # s) = of_char c # as_bytes s"
  by (simp add: as_bytes_def)

lemma of_char_u8_inject: "(of_char c :: u8) = of_char d \<longleftrightarrow> c = d"
proof
  assume "(of_char c :: u8) = of_char d"
  then have "unat (of_char c :: u8) = unat (of_char d :: u8)" by simp
  moreover have "unat (of_char x :: u8) = of_char x" for x :: char
  proof -
    have "(of_char x :: u8) = of_nat (of_char x :: nat)" by (simp only: of_nat_of_char)
    moreover have "of_char x < (256 :: nat)" by simp
    ultimately show ?thesis by (simp add: unat_of_nat del: of_nat_of_char)
  qed
  ultimately have "(of_char c :: nat) = of_char d" by simp
  then show "c = d" by simp
qed simp

lemma as_bytes_inject: "as_bytes s = as_bytes t \<longleftrightarrow> s = t"
  unfolding as_bytes_def
  by (rule inj_map_eq_map) (auto intro!: injI simp: of_char_u8_inject)

text \<open>
  \<open>rand::rng().fill_bytes(&mut buf)\<close> on an array of \<open>n\<close> bytes: the \<open>i\<close>-th byte drawn is \<open>f i\<close>.
\<close>

definition fill_bytes :: "(nat \<Rightarrow> u8) \<Rightarrow> nat \<Rightarrow> bytes" where
  "fill_bytes f n = map f [0..<n]"

lemma length_fill_bytes [simp]: "length (fill_bytes f n) = n"
  by (simp add: fill_bytes_def)

section \<open>Big-endian integers\<close>

text \<open>\<open>u16::to_be_bytes\<close>, \<open>u16::from_be_bytes\<close> and \<open>u32::to_be_bytes\<close>.\<close>

definition u16_to_be :: "u16 \<Rightarrow> bytes" where
  "u16_to_be x = [ucast (drop_bit 8 x), ucast x]"

definition u16_from_be :: "u8 \<Rightarrow> u8 \<Rightarrow> u16" where
  "u16_from_be a b = push_bit 8 (ucast a) OR ucast b"

definition u32_to_be :: "u32 \<Rightarrow> bytes" where
  "u32_to_be x = [ucast (drop_bit 24 x), ucast (drop_bit 16 x), ucast (drop_bit 8 x), ucast x]"

lemma length_u16_to_be [simp]: "length (u16_to_be x) = 2"
  by (simp add: u16_to_be_def)

lemma length_u32_to_be [simp]: "length (u32_to_be x) = 4"
  by (simp add: u32_to_be_def)

lemma u16_from_to_be [simp]:
  "u16_from_be (ucast (drop_bit 8 x)) (ucast x) = x"
  unfolding u16_from_be_def
  by (rule bit_word_eqI) (auto simp: bit_simps not_less)

lemma u16_from_be_to_be: "u16_from_be (u16_to_be x ! 0) (u16_to_be x ! Suc 0) = x"
  by (simp add: u16_to_be_def)

section \<open>Decimal printing\<close>

text \<open>\<open>format!("{}", n)\<close> of an unsigned integer.\<close>

fun dec :: "nat \<Rightarrow> string" where
  "dec n = (if n < 10 then [char_of (48 + n)] else dec (n div 10) @ [char_of (48 + n mod 10)])"

declare dec.simps [simp del]

lemma dec_not_Nil [simp]: "dec n \<noteq> []"
  by (subst dec.simps) simp

lemma set_dec: "set (dec n) \<subseteq> char_of ` {48..57 :: nat}"
proof (induction n rule: dec.induct)
  case (1 n)
  show ?case
  proof (cases "n < 10")
    case True
    then show ?thesis by (subst dec.simps) auto
  next
    case False
    have "n mod 10 < 10" by simp
    then have "48 + n mod 10 \<in> {48..57 :: nat}" by (simp only: atLeastAtMost_iff) arith
    with False "1.IH" show ?thesis by (subst dec.simps) auto
  qed
qed

section \<open>Lists\<close>

lemma take_drop_min: "take (min (length xs) n) xs = take n xs"
  by (simp add: min_def)

lemma append_take_drop_take: "take a xs @ take b (drop a xs) = take (a + b) xs"
  by (simp add: take_add)

lemma find_append: "find P (xs @ ys) = (case find P xs of Some x \<Rightarrow> Some x | None \<Rightarrow> find P ys)"
  by (induction xs) auto

lemma find_upt_Some: "find P [0..<n] = Some i \<longleftrightarrow> i < n \<and> P i \<and> (\<forall>j<i. \<not> P j)"
  by (auto simp: find_Some_iff)

lemma find_upt_None: "find P [0..<n] = None \<longleftrightarrow> (\<forall>i<n. \<not> P i)"
  by (auto simp: find_None_iff)

lemma suffix_drop_drop: "suffix (drop (a + b) xs) (drop b xs)"
  by (metis drop_drop suffix_drop)

lemma take_length_minus_drop: "take (length xs - length (drop k xs)) xs = take k xs"
  by (cases "k \<le> length xs") simp_all

end
