(* ===== verification/Stream_Io.thy ===== *)
theory Stream_Io
  imports Prelude "HOL-Library.Sublist"
begin

text \<open>
  The transport below the obfuscation wrappers: the type parameter \<open>S: AsyncRead + AsyncWrite\<close>
  of \<open>HttpObfs<S>\<close> and \<open>TlsObfs<S>\<close>. Its four poll operations are an argument of every
  definition that uses them (\<open>stream_ops\<close>), and what tokio documents of them is a contract,
  stated as locales: \<open>byte_reader\<close> and \<open>byte_writer\<close> for the two directions, \<open>async_stream\<close>
  for a transport with both, \<open>retry_writer\<close> for a writer that may buffer a frame and must be
  polled again with the same data. The wrappers are proved to provide the reader contract
  again, over any transport that provides it. \<open>script_ops\<close> is a concrete transport: an
  in-memory peer that plays a finite script of answers, in the manner of \<open>tokio::io::duplex\<close>.

  A read is given the room left in the caller's \<open>ReadBuf\<close> and returns the bytes it appended
  there. \<open>None\<close> as the result of a reader means that the poll does not return.
\<close>

section \<open>The poll operations\<close>

record 's stream_ops =
  op_read :: "'s \<Rightarrow> nat \<Rightarrow> 's \<times> bytes io_result poll"
  op_write :: "'s \<Rightarrow> bytes \<Rightarrow> 's \<times> nat io_result poll"
  op_flush :: "'s \<Rightarrow> 's \<times> unit io_result poll"
  op_shutdown :: "'s \<Rightarrow> 's \<times> unit io_result poll"

abbreviation total_read :: "'s stream_ops \<Rightarrow> 's \<Rightarrow> nat \<Rightarrow> ('s \<times> bytes io_result poll) option" where
  "total_read io s n \<equiv> Some (op_read io s n)"

text \<open>A caller that polls with a sequence of buffer sizes and keeps what it is given.\<close>

definition poll_data :: "bytes io_result poll \<Rightarrow> bytes" where
  "poll_data r = (case r of Ready (Inr bs) \<Rightarrow> bs | _ \<Rightarrow> [])"

fun poll_reads ::
  "('s \<Rightarrow> nat \<Rightarrow> ('s \<times> bytes io_result poll) option) \<Rightarrow> 's \<Rightarrow> nat list \<Rightarrow> ('s \<times> bytes) option" where
  "poll_reads rd s [] = Some (s, [])"
| "poll_reads rd s (n # ns) =
     (case rd s n of
        None \<Rightarrow> None
      | Some (s', r) \<Rightarrow> map_option (\<lambda>(s'', out). (s'', poll_data r @ out)) (poll_reads rd s' ns))"

lemma poll_data_simps [simp]:
  "poll_data (Ready (Ok bs)) = bs" "poll_data (Ready (Err e)) = []" "poll_data Pending = []"
  by (simp_all add: poll_data_def)

text \<open>
  A caller that writes \<open>data\<close> as \<open>write_all\<close> does: it polls with what is left, drops what was
  accepted, polls again with the same data after \<open>Pending\<close>, and stops at an error. Each poll
  has its own \<open>draw\<close> of randomness.
\<close>

fun poll_writes ::
  "('r \<Rightarrow> 's \<Rightarrow> bytes \<Rightarrow> 's \<times> nat io_result poll) \<Rightarrow> 'r list \<Rightarrow> 's \<Rightarrow> bytes \<Rightarrow> 's \<times> bytes" where
  "poll_writes wr [] s data = (s, data)"
| "poll_writes wr (r # rs) s data =
     (if data = [] then (s, data)
      else case wr r s data of
        (s', Ready (Inr n)) \<Rightarrow> poll_writes wr rs s' (drop n data)
      | (s', Ready (Inl e)) \<Rightarrow> (s', data)
      | (s', Pending) \<Rightarrow> poll_writes wr rs s' data)"

section \<open>Contracts\<close>

text \<open>
  \<open>rcvd\<close> is what the reader has handed out since it was created, \<open>eof\<close> that its peer has
  closed: a read into a non-empty buffer that returns no byte means end of stream, and a read
  that is pending or fails has read nothing.
\<close>

locale byte_reader =
  fixes rd :: "'s \<Rightarrow> nat \<Rightarrow> ('s \<times> bytes io_result poll) option"
    and good :: "'s \<Rightarrow> bool"
    and rcvd :: "'s \<Rightarrow> bytes"
    and eof :: "'s \<Rightarrow> bool"
  assumes read_ok: "\<lbrakk>good s; rd s n = Some (s', Ready (Ok bs))\<rbrakk>
      \<Longrightarrow> good s' \<and> rcvd s' = rcvd s @ bs \<and> length bs \<le> n"
    and read_idle: "\<lbrakk>good s; rd s n = Some (s', r); \<not> ready_ok r\<rbrakk> \<Longrightarrow> good s' \<and> rcvd s' = rcvd s"
    and read_eof: "\<lbrakk>good s; 0 < n; rd s n = Some (s', Ready (Ok []))\<rbrakk> \<Longrightarrow> eof s'"
begin

lemma read_step:
  assumes "good s" and "rd s n = Some (s', r)"
  shows "good s' \<and> rcvd s' = rcvd s @ poll_data r"
proof (cases r rule: poll_cases)
  case (ok x)
  then show ?thesis using read_ok[OF assms(1)] assms(2) by simp
next
  case (err e)
  then show ?thesis using read_idle[OF assms] by simp
next
  case pending
  then show ?thesis using read_idle[OF assms] by simp
qed

lemma poll_reads_rcvd:
  assumes "good s" and "poll_reads rd s ns = Some (s', out)"
  shows "good s' \<and> rcvd s' = rcvd s @ out"
  using assms
proof (induction ns arbitrary: s out)
  case Nil
  then show ?case by simp
next
  case (Cons n ns)
  then obtain t r out' where step: "rd s n = Some (t, r)"
    and rest: "poll_reads rd t ns = Some (s', out')" and out: "out = poll_data r @ out'"
    by (auto split: option.splits)
  from read_step[OF Cons.prems(1) step] have "good t" and "rcvd t = rcvd s @ poll_data r" by auto
  with Cons.IH[OF _ rest] out show ?case by simp
qed

end

text \<open>
  A reader whose peer has only finitely many bytes on the way: \<open>avail\<close> bounds what can be read
  before the reader is pending, and every poll returns.
\<close>

locale finite_reader = byte_reader +
  fixes avail :: "'s \<Rightarrow> nat"
  assumes read_avail: "\<lbrakk>good s; rd s n = Some (s', Ready (Ok bs))\<rbrakk> \<Longrightarrow> avail s' + length bs \<le> avail s"
    and read_returns: "good s \<Longrightarrow> \<exists>r. rd s n = Some r"
begin

lemma read_progress: "\<lbrakk>good s; rd s n = Some (s', Ready (Ok bs)); bs \<noteq> []\<rbrakk> \<Longrightarrow> avail s' < avail s"
  using read_avail[of s n s' bs] by (cases bs) auto

end

text \<open>
  A reader whose peer has sent \<open>coming\<close> and then falls silent: reads hand these bytes out, some
  at a time, and are pending once they are exhausted. The reads of a patient caller are then
  determined: they add up to \<open>coming\<close>.
\<close>

locale fed_reader = byte_reader +
  fixes coming :: "'s \<Rightarrow> bytes"
  assumes read_coming: "\<lbrakk>good s; rd s n = Some (s', r)\<rbrakk> \<Longrightarrow> coming s = poll_data r @ coming s'"
    and read_fed: "\<lbrakk>good s; 0 < n; coming s \<noteq> []\<rbrakk>
      \<Longrightarrow> \<exists>s' bs. rd s n = Some (s', Ready (Ok bs)) \<and> bs \<noteq> []"
    and read_dry: "\<lbrakk>good s; 0 < n; coming s = []\<rbrakk> \<Longrightarrow> \<exists>s'. rd s n = Some (s', Pending)"
begin

lemma poll_reads_coming:
  assumes "good s" and "0 < n" and "length (coming s) \<le> k"
  shows "\<exists>s'. poll_reads rd s (replicate k n) = Some (s', coming s) \<and> good s' \<and> coming s' = []"
  using assms
proof (induction k arbitrary: s)
  case 0
  then show ?case by simp
next
  case (Suc k)
  obtain t p where step: "rd s n = Some (t, p)" and less: "length (coming t) \<le> k"
  proof (cases "coming s = []")
    case True
    with read_dry[OF Suc.prems(1,2)] obtain t where "rd s n = Some (t, Pending)" by auto
    with read_coming[OF Suc.prems(1)] True that show ?thesis by fastforce
  next
    case False
    with read_fed[OF Suc.prems(1,2)] obtain t bs where "rd s n = Some (t, Ready (Ok bs))" "bs \<noteq> []"
      by auto
    moreover from read_coming[OF Suc.prems(1) this(1)] have "coming s = bs @ coming t" by simp
    ultimately show ?thesis using that Suc.prems(3) by (cases bs) auto
  qed
  from read_coming[OF Suc.prems(1) step] read_step[OF Suc.prems(1) step] Suc.IH[OF _ Suc.prems(2) less]
  show ?case by (auto simp: step)
qed

end

text \<open>\<open>sent\<close> is what the transport has taken; a write that is pending or fails has taken nothing.\<close>

locale byte_writer =
  fixes wr :: "'s \<Rightarrow> bytes \<Rightarrow> 's \<times> nat io_result poll"
    and winv :: "'s \<Rightarrow> bool"
    and sent :: "'s \<Rightarrow> bytes"
  assumes write_ok: "\<lbrakk>winv s; wr s b = (s', Ready (Ok n))\<rbrakk>
      \<Longrightarrow> winv s' \<and> n \<le> length b \<and> sent s' = sent s @ take n b"
    and write_idle: "\<lbrakk>winv s; wr s b = (s', r); \<not> ready_ok r\<rbrakk> \<Longrightarrow> winv s' \<and> sent s' = sent s"

text \<open>
  A writer that accepts data in frames. \<open>acc s a b\<close> says that \<open>a\<close> has been reported as accepted
  and \<open>b\<close> is taken into the writer's own buffer and not yet reported. While \<open>b\<close> is not empty the
  caller has seen \<open>Pending\<close> (or an error) and polls again with data that starts with \<open>b\<close>. The
  laws are about polls with data; the callers below never poll without.
\<close>

locale retry_writer =
  fixes wr :: "'r \<Rightarrow> 's \<Rightarrow> bytes \<Rightarrow> 's \<times> nat io_result poll"
    and acc :: "'s \<Rightarrow> bytes \<Rightarrow> bytes \<Rightarrow> bool"
  assumes fresh_ok: "\<lbrakk>acc s a []; d \<noteq> []; wr r s d = (s', Ready (Ok n))\<rbrakk>
      \<Longrightarrow> n \<le> length d \<and> acc s' (a @ take n d) []"
    and fresh_idle: "\<lbrakk>acc s a []; d \<noteq> []; wr r s d = (s', p); \<not> ready_ok p\<rbrakk> \<Longrightarrow> \<exists>k. acc s' a (take k d)"
    and held_ok: "\<lbrakk>acc s a b; b \<noteq> []; wr r s d = (s', Ready (Ok n))\<rbrakk>
      \<Longrightarrow> n = length b \<and> acc s' (a @ b) []"
    and held_idle: "\<lbrakk>acc s a b; b \<noteq> []; wr r s d = (s', p); \<not> ready_ok p\<rbrakk> \<Longrightarrow> acc s' a b"
begin

lemma write_step_ok:
  assumes "acc s a b" and "prefix b d" and "wr r s d = (s', Ready (Ok n))" and "d \<noteq> []"
  shows "n \<le> length d \<and> acc s' (a @ take n d) []"
proof (cases "b = []")
  case True
  then show ?thesis using fresh_ok assms by blast
next
  case False
  then have "n = length b" and "acc s' (a @ b) []" using held_ok assms by blast+
  moreover from assms(2) have "length b \<le> length d" and "take (length b) d = b"
    by (auto simp: prefix_def)
  ultimately show ?thesis by simp
qed

lemma write_step_idle:
  assumes "acc s a b" and "prefix b d" and "wr r s d = (s', p)" and "d \<noteq> []" and "\<not> ready_ok p"
  shows "\<exists>b'. acc s' a b' \<and> prefix b' d"
proof (cases "b = []")
  case True
  then show ?thesis using fresh_idle assms take_is_prefix by blast
next
  case False
  then show ?thesis using held_idle assms by blast
qed

text \<open>
  After any number of polls with what is left, the accepted data and the rest are the data, and
  what the writer holds back is the beginning of the rest.
\<close>

lemma poll_writes_accepts:
  assumes "acc s a b" and "prefix b d" and "poll_writes wr rs s d = (s', rest)"
  shows "\<exists>a' b'. acc s' (a @ a') b' \<and> d = a' @ rest \<and> prefix b' rest"
  using assms
proof (induction rs arbitrary: s a b d)
  case Nil
  then show ?case by auto
next
  case (Cons r rs)
  show ?case
  proof (cases "d = []")
    case True
    with Cons.prems show ?thesis by auto
  next
    case False
    obtain t p where step: "wr r s d = (t, p)" by (cases "wr r s d")
    show ?thesis
    proof (cases p rule: poll_cases)
      case (ok n)
      with step False Cons.prems(3) have rest: "poll_writes wr rs t (drop n d) = (s', rest)" by simp
      have "acc t (a @ take n d) []" using write_step_ok Cons.prems(1,2) step ok False by blast
      from Cons.IH[OF this _ rest] obtain a' b'
        where "acc s' ((a @ take n d) @ a') b'" "drop n d = a' @ rest" "prefix b' rest" by auto
      moreover from this(2) have "d = (take n d @ a') @ rest"
        by (metis append_assoc append_take_drop_id)
      ultimately show ?thesis by (metis append_assoc)
    next
      case (err e)
      with step False Cons.prems(3) have "s' = t" "rest = d" by auto
      moreover obtain b' where "acc t a b'" "prefix b' d"
        using write_step_idle[OF Cons.prems(1,2) step False] err by auto
      ultimately show ?thesis by (metis append_Nil append_Nil2)
    next
      case pending
      with step False Cons.prems(3) have rest: "poll_writes wr rs t d = (s', rest)" by simp
      obtain b' where "acc t a b'" "prefix b' d"
        using write_step_idle[OF Cons.prems(1,2) step False] pending by auto
      from Cons.IH[OF this rest] show ?thesis .
    qed
  qed
qed

end

text \<open>A plain byte writer holds nothing back.\<close>

sublocale byte_writer \<subseteq> unbuffered: retry_writer "\<lambda>_. wr" "\<lambda>s a b. winv s \<and> sent s = a \<and> b = []"
proof unfold_locales
  fix r :: 'b and s a d s' n
  assume "winv s \<and> sent s = a \<and> [] = []" and "d \<noteq> []" and "wr s d = (s', Ready (Ok n))"
  with write_ok[of s d s' n]
  show "n \<le> length d \<and> winv s' \<and> sent s' = a @ take n d \<and> [] = []" by auto
next
  fix r :: 'b and s a d s' p
  assume "winv s \<and> sent s = a \<and> [] = []" and "d \<noteq> []" and "wr s d = (s', p)" and "\<not> ready_ok p"
  with write_idle[of s d s' p]
  show "\<exists>k. winv s' \<and> sent s' = a \<and> take k d = []" by (auto intro: exI[of _ 0])
qed auto

text \<open>
  The two halves of a transport, and a transport with both directions: reading leaves \<open>sent\<close> alone, writing leaves \<open>rcvd\<close> alone,
  flushing and shutting down move no data.
\<close>

locale stream_reader = reader: byte_reader "total_read io" good rcvd eof
  for io :: "'s stream_ops" and good rcvd eof

locale finite_stream = finite: finite_reader "total_read io" good rcvd eof avail
  for io :: "'s stream_ops" and good rcvd eof avail

sublocale finite_stream \<subseteq> stream_reader io good rcvd eof
  by unfold_locales

locale fed_stream = fed: fed_reader "total_read io" good rcvd eof coming
  for io :: "'s stream_ops" and good rcvd eof coming

sublocale fed_stream \<subseteq> finite_stream io good rcvd eof "\<lambda>s. length (coming s)"
  by unfold_locales (use fed.read_coming in force, simp)

text \<open>What a poll of a fed transport does: the three laws of \<open>fed_reader\<close> in one.\<close>

definition fed_answer :: "nat \<Rightarrow> bytes \<Rightarrow> bytes io_result poll \<Rightarrow> bytes \<Rightarrow> bool" where
  "fed_answer n before r after \<longleftrightarrow>
     before = poll_data r @ after \<and>
     (0 < n \<longrightarrow> (if before = [] then r = Pending else \<exists>bs. r = Ready (Ok bs) \<and> bs \<noteq> []))"

lemma fed_answer_idle:
  "\<lbrakk>fed_answer n before r after; 0 < n; \<not> ready_ok r\<rbrakk> \<Longrightarrow> before = [] \<and> after = [] \<and> r = Pending"
  by (cases "before = []") (auto simp: fed_answer_def)

context fed_stream
begin

lemma fed_read:
  assumes "op_read io s n = (s', r)" and "good s"
  shows "fed_answer n (coming s) r (coming s')"
proof -
  have "coming s = poll_data r @ coming s'" using fed.read_coming[OF assms(2)] assms(1) by simp
  moreover have "r = Pending" if "0 < n" "coming s = []"
    using fed.read_dry[OF assms(2) that] assms(1) by auto
  moreover have "\<exists>bs. r = Ready (Ok bs) \<and> bs \<noteq> []" if "0 < n" "coming s \<noteq> []"
    using fed.read_fed[OF assms(2) that] assms(1) by auto
  ultimately show ?thesis unfolding fed_answer_def by simp
qed

end

locale stream_writer = writer: byte_writer "op_write io" good sent
  for io :: "'s stream_ops" and good sent

locale async_stream = stream_reader io good rcvd eof + stream_writer io good sent
  for io :: "'s stream_ops" and good rcvd eof sent +
  assumes read_sent: "op_read io s n = (s', r) \<Longrightarrow> sent s' = sent s"
    and write_rcvd: "op_write io s b = (s', w) \<Longrightarrow> rcvd s' = rcvd s"
    and flush_frame: "op_flush io s = (s', u) \<Longrightarrow>
      (good s \<longrightarrow> good s') \<and> sent s' = sent s \<and> rcvd s' = rcvd s"
    and shutdown_frame: "op_shutdown io s = (s', u) \<Longrightarrow>
      (good s \<longrightarrow> good s') \<and> sent s' = sent s \<and> rcvd s' = rcvd s"

text \<open>
  A wrapper with both directions, and what its operations leave alone: reading moves nothing of
  the writing side, and writing, flushing and shutting down nothing of the reading side. \<open>fl\<close> is
  flush (\<open>False\<close>) or shutdown (\<open>True\<close>).
\<close>

datatype 'r io_event = Poll_Read nat | Poll_Write 'r | Poll_Flush | Poll_Shutdown

text \<open>
  A caller that reads, writes what is left of its data, flushes and shuts down in any order, as
  \<open>tokio::io::copy_bidirectional\<close> does: it does not flush or shut down while a write is
  outstanding (\<open>held\<close>), that is, from a write that was pending or failed to the next one that
  succeeds. The result is the state, the data read, the data not yet accepted, and \<open>held\<close>.
\<close>

fun poll_session ::
  "('s \<Rightarrow> nat \<Rightarrow> ('s \<times> bytes io_result poll) option) \<Rightarrow>
   ('r \<Rightarrow> 's \<Rightarrow> bytes \<Rightarrow> 's \<times> nat io_result poll) \<Rightarrow>
   (bool \<Rightarrow> 's \<Rightarrow> 's \<times> unit io_result poll) \<Rightarrow>
   'r io_event list \<Rightarrow> 's \<Rightarrow> bytes \<Rightarrow> bool \<Rightarrow> ('s \<times> bytes \<times> bytes \<times> bool) option" where
  "poll_session rd wr fl [] s data held = Some (s, [], data, held)"
| "poll_session rd wr fl (Poll_Read n # es) s data held =
     (case rd s n of
        None \<Rightarrow> None
      | Some (s', r) \<Rightarrow>
          map_option (\<lambda>(s'', out, z). (s'', poll_data r @ out, z)) (poll_session rd wr fl es s' data held))"
| "poll_session rd wr fl (Poll_Write r # es) s data held =
     (if data = [] then poll_session rd wr fl es s data held
      else case wr r s data of
        (s', Ready (Inr n)) \<Rightarrow> poll_session rd wr fl es s' (drop n data) False
      | (s', _) \<Rightarrow> poll_session rd wr fl es s' data True)"
| "poll_session rd wr fl (Poll_Flush # es) s data held =
     (if held then poll_session rd wr fl es s data held
      else poll_session rd wr fl es (fst (fl False s)) data held)"
| "poll_session rd wr fl (Poll_Shutdown # es) s data held =
     (if held then poll_session rd wr fl es s data held
      else poll_session rd wr fl es (fst (fl True s)) data held)"

locale duplex = byte_reader rd good rcvd eof + retry_writer wr acc
  for rd :: "'s \<Rightarrow> nat \<Rightarrow> ('s \<times> bytes io_result poll) option" and good rcvd eof
    and wr :: "'r \<Rightarrow> 's \<Rightarrow> bytes \<Rightarrow> 's \<times> nat io_result poll" and acc +
  fixes fl :: "bool \<Rightarrow> 's \<Rightarrow> 's \<times> unit io_result poll"
  assumes read_acc: "\<lbrakk>good s; acc s a b; rd s n = Some (s', p)\<rbrakk> \<Longrightarrow> acc s' a b"
    and write_rcvd: "\<lbrakk>good s; wr r s d = (s', w)\<rbrakk> \<Longrightarrow> good s' \<and> rcvd s' = rcvd s"
    and flush_rcvd: "\<lbrakk>good s; fl k s = (s', u)\<rbrakk> \<Longrightarrow> good s' \<and> rcvd s' = rcvd s"
    and flush_acc: "\<lbrakk>acc s a []; fl k s = (s', u)\<rbrakk> \<Longrightarrow> acc s' a []"
begin

lemma poll_session_duplex:
  assumes "good s" and "acc s a b" and "prefix b d" and "\<not> held \<longrightarrow> b = []"
    and "poll_session rd wr fl es s d held = Some (s', out, rest, held')"
  shows "rcvd s' = rcvd s @ out \<and> good s' \<and>
    (\<exists>a' b'. acc s' (a @ a') b' \<and> d = a' @ rest \<and> prefix b' rest \<and> (\<not> held' \<longrightarrow> b' = []))"
  using assms
proof (induction es arbitrary: s a b d held out)
  case Nil
  then have "acc s' (a @ []) b \<and> d = [] @ rest \<and> prefix b rest \<and> (\<not> held' \<longrightarrow> b = [])" by simp
  with Nil show ?case by (metis append_Nil2 option.inject poll_session.simps(1) prod.inject)
next
  case (Cons e es)
  have same: ?case if "poll_session rd wr fl es s d held = Some (s', out, rest, held')"
    using Cons.IH[OF Cons.prems(1-4) that] .
  have flushed: ?case if "\<not> held" and "poll_session rd wr fl es (fst (fl k s)) d held = Some (s', out, rest, held')"
    for k
  proof -
    obtain t u where step: "fl k s = (t, u)" by (cases "fl k s")
    then show ?thesis
      using Cons.IH[of t a "[]" d held out] that Cons.prems(1,2,4) flush_rcvd[OF _ step]
        flush_acc[OF _ step] by simp
  qed
  show ?case
  proof (cases e)
    case (Poll_Read n)
    with Cons.prems(5) obtain t r out' where step: "rd s n = Some (t, r)"
      and run: "poll_session rd wr fl es t d held = Some (s', out', rest, held')"
      and out: "out = poll_data r @ out'" by (auto split: option.splits)
    from read_step[OF Cons.prems(1) step] read_acc[OF Cons.prems(1,2) step]
    show ?thesis using Cons.IH[OF _ _ Cons.prems(3,4) run, of a] out by simp
  next
    case (Poll_Write r)
    show ?thesis
    proof (cases "d = []")
      case True
      with Cons.prems(5) Poll_Write show ?thesis by (intro same) simp
    next
      case False
      obtain t p where step: "wr r s d = (t, p)" by (cases "wr r s d")
      note frame = write_rcvd[OF Cons.prems(1) step]
      show ?thesis
      proof (cases "ready_ok p")
        case True
        then obtain n where p: "p = Ready (Ok n)" by (cases p rule: poll_cases) auto
        with step False Cons.prems(5) Poll_Write
        have run: "poll_session rd wr fl es t (drop n d) False = Some (s', out, rest, held')" by simp
        have "acc t (a @ take n d) []" using write_step_ok Cons.prems(2,3) step p False by blast
        from Cons.IH[OF _ this _ _ run] frame obtain a' b'
          where fin: "rcvd s' = rcvd s @ out" "good s'" "acc s' ((a @ take n d) @ a') b'"
            "drop n d = a' @ rest" "prefix b' rest" "\<not> held' \<longrightarrow> b' = []" by auto
        from fin(4) have "d = (take n d @ a') @ rest" by (metis append_assoc append_take_drop_id)
        with fin show ?thesis by (metis append_assoc)
      next
        case idle: False
        then have run: "poll_session rd wr fl es t d True = Some (s', out, rest, held')"
          using step False Cons.prems(5) Poll_Write by (cases p rule: poll_cases) auto
        obtain b' where "acc t a b'" "prefix b' d"
          using write_step_idle[OF Cons.prems(2,3) step False idle] by auto
        from Cons.IH[OF _ this _ run] frame show ?thesis by simp
      qed
    qed
  next
    case Poll_Flush
    with flushed[of False] same Cons.prems(5) show ?thesis by (cases held) simp_all
  next
    case Poll_Shutdown
    with flushed[of True] same Cons.prems(5) show ?thesis by (cases held) simp_all
  qed
qed

end

section \<open>A scripted peer\<close>

text \<open>
  The answers the transport will give, in order. \<open>Data bs\<close> can be read in pieces; an exhausted
  read script is pending for ever, an exhausted write script takes everything.
\<close>

datatype read_event = Data bytes | Read_Pending | Read_Error io_error | Eof
datatype write_event = Accept nat | Write_Pending | Write_Error io_error

record script =
  rx :: "read_event list"
  tx :: "write_event list"
  taken :: bytes
  wire :: bytes
  ended :: bool

definition script_of :: "read_event list \<Rightarrow> write_event list \<Rightarrow> script" where
  "script_of rs ws = \<lparr>rx = rs, tx = ws, taken = [], wire = [], ended = False\<rparr>"

definition script_read :: "script \<Rightarrow> nat \<Rightarrow> script \<times> bytes io_result poll" where
  "script_read s n =
     (if n = 0 then (s, Ready (Ok []))
      else case rx s of
        [] \<Rightarrow> (s, Pending)
      | Eof # _ \<Rightarrow> (s\<lparr>ended := True\<rparr>, Ready (Ok []))
      | Data bs # r \<Rightarrow>
          (s\<lparr>rx := (if length bs \<le> n then r else Data (drop n bs) # r),
             taken := taken s @ take n bs, ended := ended s \<or> bs = []\<rparr>,
           Ready (Ok (take n bs)))
      | Read_Pending # r \<Rightarrow> (s\<lparr>rx := r\<rparr>, Pending)
      | Read_Error e # r \<Rightarrow> (s\<lparr>rx := r\<rparr>, Ready (Err e)))"

definition script_write :: "script \<Rightarrow> bytes \<Rightarrow> script \<times> nat io_result poll" where
  "script_write s b =
     (case tx s of
        [] \<Rightarrow> (s\<lparr>wire := wire s @ b\<rparr>, Ready (Ok (length b)))
      | Accept k # w \<Rightarrow>
          (s\<lparr>tx := w, wire := wire s @ take k b\<rparr>, Ready (Ok (min k (length b))))
      | Write_Pending # w \<Rightarrow> (s\<lparr>tx := w\<rparr>, Pending)
      | Write_Error e # w \<Rightarrow> (s\<lparr>tx := w\<rparr>, Ready (Err e)))"

definition script_ops :: "script stream_ops" where
  "script_ops = \<lparr>op_read = script_read, op_write = script_write,
     op_flush = (\<lambda>s. (s, Ready (Ok ()))), op_shutdown = (\<lambda>s. (s, Ready (Ok ())))\<rparr>"

fun script_avail :: "read_event list \<Rightarrow> nat" where
  "script_avail [] = 0"
| "script_avail (Data bs # r) = length bs + script_avail r"
| "script_avail (_ # r) = script_avail r"

fun only_data :: "read_event list \<Rightarrow> bool" where
  "only_data [] = True"
| "only_data (Data bs # r) = (bs \<noteq> [] \<and> only_data r)"
| "only_data (_ # r) = False"

fun script_coming :: "read_event list \<Rightarrow> bytes" where
  "script_coming (Data bs # r) = bs @ script_coming r"
| "script_coming _ = []"

lemma only_data_map [simp]: "only_data (map Data cs) \<longleftrightarrow> [] \<notin> set cs"
  by (induction cs) auto

lemma script_coming_map [simp]: "script_coming (map Data cs) = concat cs"
  by (induction cs) auto

lemma script_ops_simps [simp]:
  "op_read script_ops = script_read" "op_write script_ops = script_write"
  "op_flush script_ops s = (s, Ready (Ok ()))" "op_shutdown script_ops s = (s, Ready (Ok ()))"
  by (simp_all add: script_ops_def)

interpretation script_finite: finite_stream script_ops "\<lambda>_. True" taken ended
  "\<lambda>s. script_avail (rx s)"
  by unfold_locales
    (auto simp: script_read_def split: if_splits list.splits read_event.splits)

interpretation script_stream: async_stream script_ops "\<lambda>_. True" taken ended wire
  by unfold_locales
    (auto simp: script_read_def script_write_def min_def
      split: if_splits list.splits read_event.splits write_event.splits)

interpretation script_fed: fed_stream script_ops "\<lambda>s. only_data (rx s)" taken ended
  "\<lambda>s. script_coming (rx s)"
proof unfold_locales
  fix s :: script and n s' r
  assume "only_data (rx s)" and "total_read script_ops s n = Some (s', r)"
  then show "script_coming (rx s) = poll_data r @ script_coming (rx s')"
    by (cases "rx s" rule: only_data.cases) (auto simp: script_read_def split: if_splits)
next
  fix s :: script and n s' bs
  assume "only_data (rx s)" and "total_read script_ops s n = Some (s', Ready (Ok bs))"
  then show "only_data (rx s') \<and> taken s' = taken s @ bs \<and> length bs \<le> n"
    by (cases "rx s" rule: only_data.cases) (auto simp: script_read_def split: if_splits)
next
  fix s :: script and n s' r
  assume "only_data (rx s)" and "total_read script_ops s n = Some (s', r)" and "\<not> ready_ok r"
  then show "only_data (rx s') \<and> taken s' = taken s"
    by (cases "rx s" rule: only_data.cases) (auto simp: script_read_def split: if_splits)
next
  fix s :: script and n :: nat
  assume "only_data (rx s)" and "0 < n" and "script_coming (rx s) = []"
  then show "\<exists>s'. total_read script_ops s n = Some (s', Pending)"
    by (cases "rx s" rule: only_data.cases) (auto simp: script_read_def)
next
  fix s :: script and n :: nat
  assume "only_data (rx s)" and "0 < n" and "script_coming (rx s) \<noteq> []"
  then show "\<exists>s' bs. total_read script_ops s n = Some (s', Ready (Ok bs)) \<and> bs \<noteq> []"
    by (cases "rx s" rule: only_data.cases) (auto simp: script_read_def)
qed (auto simp: script_read_def split: if_splits list.splits read_event.splits)

end
