(* ===== verification/Obfs_Drain.thy ===== *)
theory Obfs_Drain
  imports Stream_Io
begin

text \<open>
  The loop both wrappers of \<open>src/native/sslocal-ffi/src/obfs.rs\<close> use to push a framed buffer
  into the transport, \<open>poll_drain_write_buf\<close>: it is the same code in \<open>HttpObfs\<close> and in
  \<open>TlsObfs\<close>, over the fields \<open>write_buf\<close> and \<open>write_buf_off\<close>, which are arguments and results
  here. The lemmas say that the loop moves bytes from the buffer to the transport without
  losing, repeating or reordering any of them, whatever the transport answers.
\<close>

definition write_zero_error :: io_error where
  "write_zero_error = Custom WriteZero ''obfs: write zero''"

function poll_drain ::
  "('s \<Rightarrow> bytes \<Rightarrow> 's \<times> nat io_result poll) \<Rightarrow> 's \<Rightarrow> bytes \<Rightarrow> nat \<Rightarrow>
   's \<times> bytes \<times> nat \<times> unit io_result poll" where
  "poll_drain wr s buf off =
     (if off < length buf then
        (case wr s (drop off buf) of
           (s', Pending) \<Rightarrow> (s', buf, off, Pending)
         | (s', Ready (Inl e)) \<Rightarrow> (s', buf, off, Ready (Err e))
         | (s', Ready (Inr n)) \<Rightarrow>
             if n = 0 then (s', buf, off, Ready (Err write_zero_error))
             else poll_drain wr s' buf (off + n))
      else (s, [], 0, Ready (Ok ())))"
  by pat_completeness auto
termination
  by (relation "measure (\<lambda>(wr, s, buf, off). length buf - off)") auto

declare poll_drain.simps [simp del]

lemma poll_drain_done [simp]: "length buf \<le> off \<Longrightarrow> poll_drain wr s buf off = (s, [], 0, Ready (Ok ()))"
  by (simp add: poll_drain.simps)

text \<open>One turn of the loop: how a call came to its result.\<close>

lemma poll_drainE:
  assumes "poll_drain wr s buf off = (s', buf', off', r)"
  obtains (drained) "length buf \<le> off" "s' = s" "buf' = []" "off' = 0" "r = Ready (Ok ())"
  | (stopped) w where "off < length buf" "wr s (drop off buf) = (s', w)"
      "\<not> ready_ok w \<or> w = Ready (Ok 0)" "buf' = buf" "off' = off" "\<not> ready_ok r"
      "w = Pending \<longleftrightarrow> r = Pending"
  | (more) t n where "off < length buf" "wr s (drop off buf) = (t, Ready (Ok n))" "0 < n"
      "poll_drain wr t buf (off + n) = (s', buf', off', r)"
proof (cases "off < length buf")
  case False
  with assms show ?thesis by (intro drained) simp_all
next
  case True
  note eq = poll_drain.simps[of wr s buf off]
  obtain t p where step: "wr s (drop off buf) = (t, p)" by (cases "wr s (drop off buf)")
  show ?thesis
  proof (cases p rule: poll_cases)
    case (ok n)
    show ?thesis
    proof (cases "n = 0")
      case True
      with \<open>off < length buf\<close> step ok assms eq show ?thesis by (intro stopped[of p]) auto
    next
      case False
      with \<open>off < length buf\<close> step ok assms eq show ?thesis by (intro more[of t n]) auto
    qed
  next
    case (err e)
    with True step assms eq show ?thesis by (intro stopped[of p]) auto
  next
    case pending
    with True step assms eq show ?thesis by (intro stopped[of p]) auto
  qed
qed

lemma poll_drain_induct [consumes 1, case_names drained stopped more]:
  assumes "poll_drain wr s buf off = (s', buf', off', r)"
    and "\<And>s off. length buf \<le> off \<Longrightarrow> P s off s [] 0 (Ready (Ok ()))"
    and "\<And>s off s' w r. \<lbrakk>off < length buf; wr s (drop off buf) = (s', w);
        \<not> ready_ok w \<or> w = Ready (Ok 0); \<not> ready_ok r; w = Pending \<longleftrightarrow> r = Pending\<rbrakk>
        \<Longrightarrow> P s off s' buf off r"
    and "\<And>s off t n s' buf' off' r. \<lbrakk>off < length buf; wr s (drop off buf) = (t, Ready (Ok n)); 0 < n;
        P t (off + n) s' buf' off' r\<rbrakk> \<Longrightarrow> P s off s' buf' off' r"
  shows "P s off s' buf' off' r"
  using assms(1)
proof (induction "length buf - off" arbitrary: s off rule: less_induct)
  case less
  from less.prems show ?case
  proof (cases rule: poll_drainE)
    case drained
    then show ?thesis using assms(2) by simp
  next
    case stopped
    then show ?thesis using assms(3) by metis
  next
    case (more t n)
    then show ?thesis using less.hyps[of "off + n" t] assms(4)[of off s t n s' buf' off' r]
      by (metis diff_less_mono2 less_add_same_cancel1)
  qed
qed

text \<open>
  The result is one of two shapes, for any transport: all drained and the fields reset, or
  stopped with the buffer kept and the offset inside it.
\<close>

lemma poll_drain_shape:
  assumes "poll_drain wr s buf off = (s', buf', off', r)"
  shows "(r = Ready (Ok ()) \<and> buf' = [] \<and> off' = 0) \<or>
         (\<not> ready_ok r \<and> buf' = buf \<and> off \<le> off' \<and> off' < length buf)"
  using assms by (induction rule: poll_drain_induct) auto

lemma poll_drain_not_ok:
  assumes "poll_drain wr s buf off = (s', buf', off', r)" and "\<not> ready_ok r"
  shows "buf' = buf \<and> off \<le> off' \<and> off' < length buf"
  using poll_drain_shape[OF assms(1)] assms(2) by auto

lemma poll_drain_ok:
  assumes "poll_drain wr s buf off = (s', buf', off', Ready (Ok u))"
  shows "buf' = [] \<and> off' = 0"
  using poll_drain_shape[OF assms] by auto

text \<open>What a single write leaves alone the loop leaves alone.\<close>

lemma poll_drain_frame:
  assumes "poll_drain wr s buf off = (s', buf', off', r)"
    and "\<And>s b s' w. wr s b = (s', w) \<Longrightarrow> f s' = f s"
  shows "f s' = f s"
  using assms(1) by (induction rule: poll_drain_induct) (use assms(2) in \<open>blast | metis\<close>)+

text \<open>
  The loop drains everything when every write takes at least one byte: it never gives up on
  its own.
\<close>

lemma poll_drain_completes:
  assumes "\<And>s b. b \<noteq> [] \<Longrightarrow> \<exists>s' n. wr s b = (s', Ready (Ok n)) \<and> 0 < n"
    and "poll_drain wr s buf off = (s', buf', off', r)"
  shows "r = Ready (Ok ())"
  using assms(2)
proof (induction rule: poll_drain_induct)
  case (stopped s off s' w r)
  then have "drop off buf \<noteq> []" by simp
  with assms(1)[of "drop off buf" s] stopped show ?case by auto
qed simp_all

context byte_writer
begin

text \<open>Conservation: sent bytes followed by what is left in the buffer do not change.\<close>

lemma poll_drain_conserves:
  assumes "poll_drain wr s buf off = (s', buf', off', r)" and "winv s"
  shows "winv s' \<and> sent s' @ drop off' buf' = sent s @ drop off buf"
  using assms
proof (induction rule: poll_drain_induct)
  case (drained s off)
  then show ?case by simp
next
  case (stopped s off s' w r)
  then show ?case using write_idle[of s _ s' w] write_ok[of s _ s' 0] by auto
next
  case (more s off t n s' buf' off' r)
  from write_ok[OF more.prems more.hyps(2)]
  have "winv t" and "sent t = sent s @ take n (drop off buf)" by auto
  with more.IH show ?case
    by (simp add: add.commute[of off n] drop_drop[symmetric] del: drop_drop)
qed

end

text \<open>The loop over the scripted peer: held up by one pending answer, and with the way clear.\<close>

lemma poll_drain_held:
  "b \<noteq> [] \<Longrightarrow> tx s = [Write_Pending] \<Longrightarrow> poll_drain script_write s b 0 = (s\<lparr>tx := []\<rparr>, b, 0, Pending)"
  by (subst poll_drain.simps) (simp add: script_write_def)

lemma poll_drain_open:
  "b \<noteq> [] \<Longrightarrow> tx s = [] \<Longrightarrow>
     poll_drain script_write s b 0 = (s\<lparr>wire := wire s @ b\<rparr>, [], 0, Ready (Ok ()))"
  by (subst poll_drain.simps) (simp add: script_write_def)

section \<open>Properties\<close>

text \<open>
  Draining loses, repeats and reorders nothing. Over any writer that keeps its contract, and
  whatever it answers, the bytes sent followed by the bytes left in the buffer stay the same;
  either everything is sent and the buffer is reset, or the call has not succeeded and the
  offset still points into the unchanged buffer.
\<close>

theorem drain_conserves:
  assumes "byte_writer wr winv sent" and "winv s" and "poll_drain wr s buf off = (s', buf', off', r)"
  shows "sent s' @ drop off' buf' = sent s @ drop off buf \<and>
    (if r = Ready (Ok ()) then buf' = [] \<and> off' = 0
     else \<not> ready_ok r \<and> buf' = buf \<and> off \<le> off' \<and> off' < length buf)"
  using byte_writer.poll_drain_conserves[OF assms(1,3,2)] poll_drain_shape[OF assms(3)] by auto

theorem drain_conserves_witness:
  "\<exists>s' buf' off' r. poll_drain script_write (script_of [] [Accept 1, Write_Pending]) [7, 8, 9] 0
      = (s', buf', off', r) \<and> wire s' @ drop off' buf' = [7, 8, 9]"
proof -
  obtain s' buf' off' r where run:
    "poll_drain script_write (script_of [] [Accept 1, Write_Pending]) [7, 8, 9] 0 = (s', buf', off', r)"
    using prod_cases4 by blast
  have "byte_writer script_write (\<lambda>_. True) wire"
    using script_stream.writer.byte_writer_axioms by simp
  from drain_conserves[OF this _ run] run show ?thesis by (auto simp: script_of_def)
qed

text \<open>
  Draining does not give up on its own: over a writer that takes at least one byte of every
  write, one call sends the whole buffer. (A write of zero bytes, which would be a busy loop, is
  the error \<open>WriteZero\<close>.)
\<close>

theorem drain_completes:
  assumes "\<And>s b. b \<noteq> [] \<Longrightarrow> \<exists>s' n. wr s b = (s', Ready (Ok n)) \<and> 0 < n"
  shows "\<exists>s'. poll_drain wr s buf off = (s', [], 0, Ready (Ok ()))"
proof -
  obtain s' buf' off' r where run: "poll_drain wr s buf off = (s', buf', off', r)"
    using prod_cases4 by blast
  with poll_drain_completes[OF assms run] poll_drain_ok show ?thesis by metis
qed

theorem drain_completes_witness:
  "\<exists>s'. poll_drain (\<lambda>w b. (w @ take 2 b, Ready (Ok (min 2 (length b))))) [] [1 :: u8, 2, 3, 4, 5] 0
     = (s', [], 0, Ready (Ok ()))"
  by (rule drain_completes) auto

end
