(* ===== verification/Obfs_Http.thy ===== *)
theory Obfs_Http
  imports Obfs_Drain
begin

text \<open>
  \<open>HttpObfs<S>\<close> of \<open>src/native/sslocal-ffi/src/obfs.rs\<close>: the state of the wrapper, the fake
  request, the search for the end of the response header, and the four poll operations, over
  any transport \<open>io\<close>.

  The base64 encoder (crate \<open>base64\<close>) is the parameter \<open>b64\<close>; the random numbers one call may
  draw are its argument \<open>d\<close>.
\<close>

section \<open>State\<close>

record 's http_obfs =
  h_inner :: 's
  h_host :: string
  h_port :: u16
  h_first_request :: bool
  h_write_buf :: bytes
  h_write_buf_off :: nat
  h_pending_input :: nat
  h_first_response :: bool
  h_response_scratch :: bytes
  h_leftover :: bytes
  h_leftover_off :: nat

definition http_new :: "'s \<Rightarrow> string \<Rightarrow> u16 \<Rightarrow> 's http_obfs" where
  "http_new inner host port =
     \<lparr>h_inner = inner, h_host = host, h_port = port,
      h_first_request = True, h_write_buf = [], h_write_buf_off = 0, h_pending_input = 0,
      h_first_response = True, h_response_scratch = [], h_leftover = [], h_leftover_off = 0\<rparr>"

section \<open>The request\<close>

record http_draw =
  key_byte :: "nat \<Rightarrow> u8"
  ua_major :: u32
  ua_minor :: u32

definition crlf :: string where
  "crlf = [CHR 0x0D, CHR 0x0A]"

definition host_header :: "string \<Rightarrow> u16 \<Rightarrow> string" where
  "host_header host port = (if port = 80 then host else host @ '':'' @ dec (unat port))"

definition http_request_head :: "(bytes \<Rightarrow> string) \<Rightarrow> http_draw \<Rightarrow> string \<Rightarrow> u16 \<Rightarrow> nat \<Rightarrow> string" where
  "http_request_head b64 d host port body_len =
     ''GET / HTTP/1.1'' @ crlf @
     ''Host: '' @ host_header host port @ crlf @
     ''User-Agent: curl/7.'' @ dec (unat (ua_major d mod 54)) @ ''.'' @ dec (unat (ua_minor d mod 2)) @ crlf @
     ''Upgrade: websocket'' @ crlf @
     ''Connection: Upgrade'' @ crlf @
     ''Sec-WebSocket-Key: '' @ b64 (fill_bytes (key_byte d) 16) @ crlf @
     ''Content-Length: '' @ dec body_len @ crlf @
     crlf"

definition build_http_request ::
  "(bytes \<Rightarrow> string) \<Rightarrow> http_draw \<Rightarrow> string \<Rightarrow> u16 \<Rightarrow> bytes \<Rightarrow> bytes" where
  "build_http_request b64 d host port body =
     as_bytes (http_request_head b64 d host port (length body)) @ body"

section \<open>The end of the header\<close>

definition double_crlf :: bytes where
  "double_crlf = [13, 10, 13, 10]"

definition find_double_crlf :: "bytes \<Rightarrow> nat option" where
  "find_double_crlf data =
     (if length data < 4 then None
      else find (\<lambda>i. take 4 (drop i data) = double_crlf) [0..<length data - 4 + 1])"

section \<open>The poll operations\<close>

definition http_poll_drain_write_buf ::
  "'s stream_ops \<Rightarrow> 's http_obfs \<Rightarrow> 's http_obfs \<times> unit io_result poll" where
  "http_poll_drain_write_buf io h =
     (case poll_drain (op_write io) (h_inner h) (h_write_buf h) (h_write_buf_off h) of
        (s, buf, off, r) \<Rightarrow> (h\<lparr>h_inner := s, h_write_buf := buf, h_write_buf_off := off\<rparr>, r))"

definition MAX_HEADER :: nat where
  "MAX_HEADER = 16 * 1024"

definition header_limit_error :: io_error where
  "header_limit_error = Custom InvalidData ''obfs http: response header exceeds limit''"

text \<open>The loop of \<open>poll_read\<close> while the first response is awaited; \<open>room\<close> is \<open>buf.remaining()\<close>.\<close>

function http_read_header ::
  "'s stream_ops \<Rightarrow> 's http_obfs \<Rightarrow> nat \<Rightarrow> 's http_obfs \<times> bytes io_result poll" where
  "http_read_header io h room =
     (case op_read io (h_inner h) 1024 of
        (s, Pending) \<Rightarrow> (h\<lparr>h_inner := s\<rparr>, Pending)
      | (s, Ready (Inl e)) \<Rightarrow> (h\<lparr>h_inner := s\<rparr>, Ready (Err e))
      | (s, Ready (Inr bs)) \<Rightarrow>
          if bs = [] then (h\<lparr>h_inner := s\<rparr>, Ready (Ok []))
          else
            let scratch = h_response_scratch h @ bs in
            (case find_double_crlf scratch of
               Some idx \<Rightarrow>
                 let body = drop (idx + 4) scratch;
                     n = min (length body) room;
                     h' = h\<lparr>h_inner := s, h_first_response := False, h_response_scratch := [],
                            h_leftover := (if n < length body then h_leftover h @ drop n body
                                           else h_leftover h),
                            h_leftover_off := (if n < length body then 0 else h_leftover_off h)\<rparr>
                 in if 0 < n then (h', Ready (Ok (take n body)))
                    else (case op_read io s room of (s', r) \<Rightarrow> (h'\<lparr>h_inner := s'\<rparr>, r))
             | None \<Rightarrow>
                 if MAX_HEADER < length scratch
                 then (h\<lparr>h_inner := s, h_response_scratch := scratch\<rparr>, Ready (Err header_limit_error))
                 else http_read_header io (h\<lparr>h_inner := s, h_response_scratch := scratch\<rparr>) room))"
  by pat_completeness auto
termination
  by (relation "measure (\<lambda>(io, h, room). Suc MAX_HEADER - length (h_response_scratch h))")
    (auto simp: length_greater_0_conv[symmetric] simp del: length_greater_0_conv)

declare http_read_header.simps [simp del]

definition http_poll_read ::
  "'s stream_ops \<Rightarrow> 's http_obfs \<Rightarrow> nat \<Rightarrow> 's http_obfs \<times> bytes io_result poll" where
  "http_poll_read io h room =
     (if h_leftover_off h < length (h_leftover h) then
        let avail = drop (h_leftover_off h) (h_leftover h);
            n = min (length avail) room;
            off = h_leftover_off h + n
        in ((if length (h_leftover h) \<le> off then h\<lparr>h_leftover := [], h_leftover_off := 0\<rparr>
             else h\<lparr>h_leftover_off := off\<rparr>),
            Ready (Ok (take n avail)))
      else if h_first_response h then http_read_header io h room
      else (case op_read io (h_inner h) room of (s, r) \<Rightarrow> (h\<lparr>h_inner := s\<rparr>, r)))"

definition http_poll_write ::
  "(bytes \<Rightarrow> string) \<Rightarrow> 's stream_ops \<Rightarrow> http_draw \<Rightarrow> 's http_obfs \<Rightarrow> bytes \<Rightarrow>
   's http_obfs \<times> nat io_result poll" where
  "http_poll_write b64 io d h buf =
     (if h_write_buf h \<noteq> [] then
        (case http_poll_drain_write_buf io h of
           (h', Pending) \<Rightarrow> (h', Pending)
         | (h', Ready (Inl e)) \<Rightarrow> (h', Ready (Err e))
         | (h', Ready (Inr _)) \<Rightarrow> (h'\<lparr>h_pending_input := 0\<rparr>, Ready (Ok (h_pending_input h'))))
      else if h_first_request h then
        (case http_poll_drain_write_buf io
                (h\<lparr>h_first_request := False,
                   h_write_buf := build_http_request b64 d (h_host h) (h_port h) buf,
                   h_write_buf_off := 0, h_pending_input := length buf\<rparr>) of
           (h', Ready (Inr _)) \<Rightarrow> (h'\<lparr>h_pending_input := 0\<rparr>, Ready (Ok (h_pending_input h')))
         | (h', Ready (Inl e)) \<Rightarrow> (h', Ready (Err e))
         | (h', Pending) \<Rightarrow> (h', Pending))
      else (case op_write io (h_inner h) buf of (s, r) \<Rightarrow> (h\<lparr>h_inner := s\<rparr>, r)))"

definition http_poll_flush ::
  "'s stream_ops \<Rightarrow> 's http_obfs \<Rightarrow> 's http_obfs \<times> unit io_result poll" where
  "http_poll_flush io h =
     (case (if h_write_buf h \<noteq> [] then http_poll_drain_write_buf io h else (h, Ready (Ok ()))) of
        (h', Ready (Inr _)) \<Rightarrow>
          (case op_flush io (h_inner h') of (s, r) \<Rightarrow> (h'\<lparr>h_inner := s\<rparr>, r))
      | (h', Ready (Inl e)) \<Rightarrow> (h', Ready (Err e))
      | (h', Pending) \<Rightarrow> (h', Pending))"

definition http_poll_shutdown ::
  "'s stream_ops \<Rightarrow> 's http_obfs \<Rightarrow> 's http_obfs \<times> unit io_result poll" where
  "http_poll_shutdown io h =
     (case (if h_write_buf h \<noteq> [] then http_poll_drain_write_buf io h else (h, Ready (Ok ()))) of
        (h', Ready (Inr _)) \<Rightarrow>
          (case op_shutdown io (h_inner h') of (s, r) \<Rightarrow> (h'\<lparr>h_inner := s\<rparr>, r))
      | (h', Ready (Inl e)) \<Rightarrow> (h', Ready (Err e))
      | (h', Pending) \<Rightarrow> (h', Pending))"

section \<open>The search finds the first terminator\<close>

lemma double_crlf_short: "length data < j + 4 \<Longrightarrow> take 4 (drop j data) \<noteq> double_crlf"
  by (auto dest: arg_cong[of _ _ length] simp: double_crlf_def)

lemma find_double_crlf_range:
  "find_double_crlf data = find (\<lambda>i. take 4 (drop i data) = double_crlf) [0..<length data - 3]"
proof (cases "length data < 4")
  case True
  then show ?thesis by (simp add: find_double_crlf_def)
next
  case False
  then have "length data - 4 + 1 = length data - 3" by simp
  with False show ?thesis by (simp add: find_double_crlf_def del: upt_Suc)
qed

lemma find_double_crlf_Some:
  "find_double_crlf data = Some i \<longleftrightarrow>
     take 4 (drop i data) = double_crlf \<and> (\<forall>j<i. take 4 (drop j data) \<noteq> double_crlf)"
proof -
  have "i < length data - 3" if "take 4 (drop i data) = double_crlf"
    using double_crlf_short[of data i] that by force
  then show ?thesis by (auto simp: find_double_crlf_range find_upt_Some)
qed

lemma find_double_crlf_None:
  "find_double_crlf data = None \<longleftrightarrow> (\<forall>i. take 4 (drop i data) \<noteq> double_crlf)"
proof -
  have "i < length data - 3" if "take 4 (drop i data) = double_crlf" for i
    using double_crlf_short[of data i] that by force
  then show ?thesis by (auto simp: find_double_crlf_range find_upt_None)
qed

lemma find_double_crlf_bound:
  assumes "find_double_crlf data = Some i"
  shows "i + 4 \<le> length data"
proof -
  have "length (take 4 (drop i data)) = 4"
    using assms by (simp add: find_double_crlf_Some double_crlf_def)
  then show ?thesis by simp
qed

text \<open>More input does not move the terminator.\<close>

lemma find_double_crlf_append:
  assumes "find_double_crlf data = Some i"
  shows "find_double_crlf (data @ ext) = Some i"
proof -
  have same: "take 4 (drop j (data @ ext)) = take 4 (drop j data)" if "j \<le> i" for j
    using find_double_crlf_bound[OF assms] that by simp
  show ?thesis
    using assms same by (simp add: find_double_crlf_Some del: take_append drop_append)
qed

text \<open>What follows the header in a response.\<close>

definition http_body :: "bytes \<Rightarrow> bytes" where
  "http_body w = (case find_double_crlf w of None \<Rightarrow> [] | Some i \<Rightarrow> drop (i + 4) w)"

lemma http_body_append:
  "find_double_crlf w \<noteq> None \<Longrightarrow> http_body (w @ ext) = http_body w @ ext"
  using find_double_crlf_bound[of w] find_double_crlf_append[of w]
  by (auto simp: http_body_def)

section \<open>Reading\<close>

text \<open>
  The invariant between polls, relative to the transport's own invariant \<open>good\<close> and history
  \<open>rcvd\<close>: before the terminator was seen, everything received is in the scratch buffer; after
  it, what is kept back in \<open>leftover\<close> is the end of the body received so far.
\<close>

definition http_pending :: "'s http_obfs \<Rightarrow> bytes" where
  "http_pending h = drop (h_leftover_off h) (h_leftover h)"

definition http_read_inv :: "('s \<Rightarrow> bool) \<Rightarrow> ('s \<Rightarrow> bytes) \<Rightarrow> 's http_obfs \<Rightarrow> bool" where
  "http_read_inv good rcvd h \<longleftrightarrow>
     good (h_inner h) \<and>
     (if h_first_response h
      then h_response_scratch h = rcvd (h_inner h) \<and> find_double_crlf (rcvd (h_inner h)) = None
           \<and> h_leftover h = [] \<and> h_leftover_off h = 0
      else find_double_crlf (rcvd (h_inner h)) \<noteq> None \<and> h_leftover_off h \<le> length (h_leftover h)
           \<and> suffix (http_pending h) (http_body (rcvd (h_inner h)))
           \<and> (http_pending h = [] \<longrightarrow> h_leftover h = []))"

definition http_delivered :: "('s \<Rightarrow> bytes) \<Rightarrow> 's http_obfs \<Rightarrow> bytes" where
  "http_delivered rcvd h =
     (let body = http_body (rcvd (h_inner h)) in take (length body - length (http_pending h)) body)"

lemma http_new_read_inv: "\<lbrakk>good s; rcvd s = []\<rbrakk> \<Longrightarrow> http_read_inv good rcvd (http_new s host port)"
  by (simp add: http_read_inv_def http_new_def find_double_crlf_def)

lemma http_new_delivered: "rcvd s = [] \<Longrightarrow> http_delivered rcvd (http_new s host port) = []"
  by (simp add: http_delivered_def http_new_def http_body_def find_double_crlf_def)

lemma http_body_undelivered: "find_double_crlf w = None \<Longrightarrow> http_body w = []"
  by (simp add: http_body_def)

lemma http_delivered_pending:
  "http_read_inv good rcvd h \<Longrightarrow>
     http_delivered rcvd h @ http_pending h = http_body (rcvd (h_inner h))"
  by (cases "h_first_response h")
    (auto simp: http_read_inv_def http_delivered_def http_pending_def http_body_undelivered
      suffix_def)

lemma http_delivered_waiting:
  "\<lbrakk>http_read_inv good rcvd h; h_first_response h\<rbrakk> \<Longrightarrow> http_delivered rcvd h = []"
  by (simp add: http_read_inv_def http_delivered_def http_body_undelivered)

text \<open>One turn of the header loop: how a call came to its result.\<close>

lemma http_read_headerE:
  assumes "http_read_header io h room = (h', r)"
  obtains
    (idle) s where "op_read io (h_inner h) 1024 = (s, r)" "\<not> ready_ok r" "h' = h\<lparr>h_inner := s\<rparr>"
  | (eof) s where "op_read io (h_inner h) 1024 = (s, Ready (Ok []))" "r = Ready (Ok [])"
      "h' = h\<lparr>h_inner := s\<rparr>"
  | (limit) s bs where "op_read io (h_inner h) 1024 = (s, Ready (Ok bs))" "bs \<noteq> []"
      "find_double_crlf (h_response_scratch h @ bs) = None" "r = Ready (Err header_limit_error)"
      "h' = h\<lparr>h_inner := s, h_response_scratch := h_response_scratch h @ bs\<rparr>"
      "MAX_HEADER < length (h_response_scratch h @ bs)"
  | (again) s bs where "op_read io (h_inner h) 1024 = (s, Ready (Ok bs))" "bs \<noteq> []"
      "find_double_crlf (h_response_scratch h @ bs) = None"
      "http_read_header io (h\<lparr>h_inner := s, h_response_scratch := h_response_scratch h @ bs\<rparr>) room
         = (h', r)"
      "length (h_response_scratch h @ bs) \<le> MAX_HEADER"
  | (body) s bs i b n where "op_read io (h_inner h) 1024 = (s, Ready (Ok bs))" "bs \<noteq> []"
      "find_double_crlf (h_response_scratch h @ bs) = Some i"
      "b = drop (i + 4) (h_response_scratch h @ bs)" "n = min (length b) room" "0 < n"
      "r = Ready (Ok (take n b))"
      "h' = h\<lparr>h_inner := s, h_first_response := False, h_response_scratch := [],
              h_leftover := (if n < length b then h_leftover h @ drop n b else h_leftover h),
              h_leftover_off := (if n < length b then 0 else h_leftover_off h)\<rparr>"
  | (fallthrough) s bs i b s' where "op_read io (h_inner h) 1024 = (s, Ready (Ok bs))" "bs \<noteq> []"
      "find_double_crlf (h_response_scratch h @ bs) = Some i"
      "b = drop (i + 4) (h_response_scratch h @ bs)" "b = [] \<or> room = 0"
      "op_read io s room = (s', r)"
      "h' = h\<lparr>h_inner := s', h_first_response := False, h_response_scratch := [],
              h_leftover := h_leftover h @ b,
              h_leftover_off := (if b = [] then h_leftover_off h else 0)\<rparr>"
proof -
  note res = http_read_header.simps[of io h room, unfolded assms]
  obtain s p where step: "op_read io (h_inner h) 1024 = (s, p)"
    by (cases "op_read io (h_inner h) 1024")
  show ?thesis
  proof (cases p rule: poll_cases)
    case (ok bs)
    note step = step[unfolded ok]
    let ?scratch = "h_response_scratch h @ bs"
    show ?thesis
    proof (cases "bs = []")
      case True
      from res have "h' = h\<lparr>h_inner := s\<rparr>" "r = Ready (Ok [])" by (simp_all add: step True)
      with step True show ?thesis by (intro eof) auto
    next
      case some: False
      show ?thesis
      proof (cases "find_double_crlf ?scratch")
        case None
        show ?thesis
        proof (cases "MAX_HEADER < length ?scratch")
          case True
          from res have "r = Ready (Err header_limit_error)"
            "h' = h\<lparr>h_inner := s, h_response_scratch := ?scratch\<rparr>"
            using True by (simp_all add: step some None Let_def)
          then show ?thesis by (intro limit[OF step some None _ _ True])
        next
          case False
          from res have "http_read_header io (h\<lparr>h_inner := s, h_response_scratch := ?scratch\<rparr>) room = (h', r)"
            using False by (simp add: step some None Let_def)
          then show ?thesis by (rule again[OF step some None]) (use False in simp)
        qed
      next
        case (Some i)
        define b where "b = drop (i + 4) ?scratch"
        note res = res[unfolded step prod.case poll.case sum.case Let_def Some option.case,
            folded b_def]
        show ?thesis
        proof (cases "0 < min (length b) room")
          case True
          with res some show ?thesis
            by (intro body[OF step some Some b_def refl True]) simp_all
        next
          case False
          obtain s' q where after: "op_read io s room = (s', q)" by (cases "op_read io s room")
          from False have "b = [] \<or> room = 0" by auto
          with res some False after show ?thesis
            by (intro fallthrough[OF step some Some b_def, of s']) auto
        qed
      qed
    qed
  next
    case (err e)
    from res have "r = Ready (Err e)" "h' = h\<lparr>h_inner := s\<rparr>" by (simp_all add: step err)
    with step err show ?thesis by (intro idle[of s]) simp_all
  next
    case pending
    from res have "r = Pending" "h' = h\<lparr>h_inner := s\<rparr>" by (simp_all add: step pending)
    with step pending show ?thesis by (intro idle[of s]) simp_all
  qed
qed

context stream_reader
begin

text \<open>The state right after the terminator arrived, with \<open>k\<close> bytes of the body handed out.\<close>

lemma http_header_done:
  assumes "good (h_inner h)" and "find_double_crlf (rcvd (h_inner h)) = Some i"
    and "\<not> h_first_response h" and "h_leftover_off h = 0"
    and "h_leftover h = drop k (drop (i + 4) (rcvd (h_inner h)))"
  shows "http_read_inv good rcvd h \<and> http_delivered rcvd h = take k (drop (i + 4) (rcvd (h_inner h)))"
proof -
  let ?body = "drop (i + 4) (rcvd (h_inner h))"
  have "http_pending h = drop k ?body" and "http_body (rcvd (h_inner h)) = ?body"
    using assms by (simp_all add: http_pending_def http_body_def)
  then show ?thesis
    using assms by (simp add: http_read_inv_def http_delivered_def suffix_drop take_length_minus_drop
        del: drop_drop length_drop)
qed

text \<open>The state while the terminator has not arrived.\<close>

lemma http_header_waiting:
  assumes "good (h_inner h)" and "find_double_crlf (rcvd (h_inner h)) = None" and "h_first_response h"
    and "h_response_scratch h = rcvd (h_inner h)" and "h_leftover h = []" and "h_leftover_off h = 0"
  shows "http_read_inv good rcvd h \<and> http_delivered rcvd h = []"
  using assms by (simp add: http_read_inv_def http_delivered_def http_body_undelivered)

lemma http_read_header_contract:
  assumes "http_read_header io h room = (h', r)"
    and "http_read_inv good rcvd h" and "h_first_response h"
  shows "http_read_inv good rcvd h' \<and> http_delivered rcvd h' = poll_data r \<and>
    length (poll_data r) \<le> room \<and> (r = Ready (Ok []) \<longrightarrow> 0 < room \<longrightarrow> eof (h_inner h'))"
  using assms
proof (induction "Suc MAX_HEADER - length (h_response_scratch h)" arbitrary: h rule: less_induct)
  case less
  from less.prems have good: "good (h_inner h)" and scratch: "h_response_scratch h = rcvd (h_inner h)"
    and fresh: "find_double_crlf (rcvd (h_inner h)) = None" "h_leftover h = []" "h_leftover_off h = 0"
    by (auto simp: http_read_inv_def)
  from less.prems(1) show ?case
  proof (cases rule: http_read_headerE)
    case (idle s)
    have s: "good s" "rcvd s = rcvd (h_inner h)"
      using reader.read_idle[OF good, of 1024 s r] idle by auto
    with idle less.prems fresh scratch http_header_waiting[of h'] show ?thesis
      by (cases r rule: poll_cases) simp_all
  next
    case (eof s)
    have s: "good s" "rcvd s = rcvd (h_inner h)" "eof s"
      using reader.read_ok[OF good, of 1024 s "[]"] reader.read_eof[OF good, of 1024 s] eof by auto
    with eof less.prems fresh scratch http_header_waiting[of h'] show ?thesis by simp
  next
    case (limit s bs)
    have s: "good s" "rcvd s = h_response_scratch h @ bs"
      using reader.read_ok[OF good, of 1024 s bs] limit scratch by auto
    with limit less.prems fresh http_header_waiting[of h'] show ?thesis by simp
  next
    case (again s bs)
    let ?h = "h\<lparr>h_inner := s, h_response_scratch := h_response_scratch h @ bs\<rparr>"
    have s: "good s" "rcvd s = h_response_scratch h @ bs"
      using reader.read_ok[OF good, of 1024 s bs] again scratch by auto
    have "http_read_inv good rcvd ?h"
      using http_header_waiting[of ?h] s again less.prems fresh by simp
    moreover have "Suc MAX_HEADER - length (h_response_scratch ?h)
        < Suc MAX_HEADER - length (h_response_scratch h)"
      using again(2,5) by (cases bs) auto
    moreover have "h_first_response ?h" using less.prems(3) by simp
    ultimately show ?thesis using less.hyps again(4) by blast
  next
    case (body s bs i b n)
    have s: "good s" "rcvd s = h_response_scratch h @ bs"
      using reader.read_ok[OF good, of 1024 s bs] body scratch by auto
    have h': "h_leftover h' = drop n b" "h_leftover_off h' = 0" "\<not> h_first_response h'" "h_inner h' = s"
      using fresh(2,3) by (simp_all add: body(8))
    have "http_read_inv good rcvd h' \<and> http_delivered rcvd h' = take n b"
      using http_header_done[of h' i n] s h' body(3,4) by simp
    moreover have "take n b \<noteq> []" "length (take n b) \<le> room" using body(5,6) by auto
    ultimately show ?thesis using body(7) by simp
  next
    case (fallthrough s bs i b s')
    have s: "good s" "rcvd s = h_response_scratch h @ bs"
      using reader.read_ok[OF good, of 1024 s bs] fallthrough scratch by auto
    have step: "good s'" "rcvd s' = rcvd s @ poll_data r"
      using reader.read_step[of s room s' r] s(1) fallthrough(6) by auto
    have len: "length (poll_data r) \<le> room"
      using reader.read_ok[of s room s'] s(1) fallthrough(6) by (cases r rule: poll_cases) auto
    have eof: "r = Ready (Ok []) \<longrightarrow> 0 < room \<longrightarrow> eof s'"
      using reader.read_eof[of s room s'] s(1) fallthrough(6) by auto
    have i: "find_double_crlf (rcvd s') = Some i"
      using find_double_crlf_append fallthrough(3) s(2) step(2) by metis
    have "i + 4 \<le> length (rcvd s)"
      using find_double_crlf_bound[OF fallthrough(3)] s(2) by simp
    then have rest: "drop (i + 4) (rcvd s') = b @ poll_data r"
      using step(2) s(2) fallthrough(4) by simp
    have h': "h_leftover h' = b" "h_leftover_off h' = 0" "\<not> h_first_response h'" "h_inner h' = s'"
      using fresh(2,3) by (simp_all add: fallthrough(7))
    have "h_leftover h' = drop (length (poll_data r)) (b @ poll_data r)"
      using fallthrough(5) len h'(1) by auto
    moreover have "take (length (poll_data r)) (b @ poll_data r) = poll_data r"
      using fallthrough(5) len by auto
    ultimately show ?thesis
      using http_header_done[of h' i "length (poll_data r)"] h' step(1) i rest len eof by simp
  qed
qed

text \<open>Bytes kept back from the first response are handed out first, without touching the transport.\<close>

lemma http_poll_read_leftover:
  assumes "http_poll_read io h room = (h', r)" and "http_read_inv good rcvd h"
    and "h_leftover_off h < length (h_leftover h)"
  shows "http_read_inv good rcvd h' \<and> r = Ready (Ok (take room (http_pending h))) \<and>
    http_delivered rcvd h' = http_delivered rcvd h @ take room (http_pending h) \<and> h_inner h' = h_inner h"
proof -
  let ?body = "http_body (rcvd (h_inner h))"
  define n where "n = min (length (http_pending h)) room"
  have ready: "\<not> h_first_response h" "find_double_crlf (rcvd (h_inner h)) \<noteq> None" "good (h_inner h)"
    using assms(2,3) by (auto simp: http_read_inv_def split: if_splits)
  have "(if length (h_leftover h) \<le> h_leftover_off h + n
      then h\<lparr>h_leftover := [], h_leftover_off := 0\<rparr>
      else h\<lparr>h_leftover_off := h_leftover_off h + n\<rparr>) = h'
      \<and> Ready (Ok (take n (http_pending h))) = r"
    using assms(1)
    unfolding http_poll_read_def if_P[OF assms(3)] Let_def http_pending_def[symmetric]
      n_def[symmetric] prod.inject .
  then have eq: "h' = (if length (h_leftover h) \<le> h_leftover_off h + n
      then h\<lparr>h_leftover := [], h_leftover_off := 0\<rparr>
      else h\<lparr>h_leftover_off := h_leftover_off h + n\<rparr>)" and r: "r = Ready (Ok (take n (http_pending h)))"
    by blast+
  have h': "h_inner h' = h_inner h" "h_first_response h' = h_first_response h" by (simp_all add: eq)
  have rest: "http_pending h' = drop n (http_pending h)"
      "h_leftover_off h' \<le> length (h_leftover h')" "http_pending h' = [] \<longrightarrow> h_leftover h' = []"
    by (simp_all add: eq http_pending_def add.commute)
  have whole: "http_delivered rcvd h @ http_pending h = ?body"
    using http_delivered_pending[OF assms(2)] .
  then have body: "?body = (http_delivered rcvd h @ take n (http_pending h)) @ http_pending h'"
    by (simp add: rest(1))
  then have "suffix (http_pending h') ?body" by (auto simp: suffix_def)
  then have "http_read_inv good rcvd h'"
    using ready h' rest(2,3) by (simp add: http_read_inv_def)
  moreover have "http_delivered rcvd h' = http_delivered rcvd h @ take n (http_pending h)"
    unfolding http_delivered_def[of rcvd h'] h'(1) Let_def by (subst body, subst body) (simp add: take_drop_min)
  moreover have "take n (http_pending h) = take room (http_pending h)"
    by (simp add: n_def min_def)
  ultimately show ?thesis using h' r by simp
qed

lemma http_poll_read_contract:
  assumes "http_poll_read io h room = (h', r)" and "http_read_inv good rcvd h"
  shows "http_read_inv good rcvd h' \<and> http_delivered rcvd h' = http_delivered rcvd h @ poll_data r \<and>
    length (poll_data r) \<le> room \<and> (r = Ready (Ok []) \<longrightarrow> 0 < room \<longrightarrow> eof (h_inner h'))"
proof (cases "h_leftover_off h < length (h_leftover h)")
  case True
  then have "http_pending h \<noteq> []" by (simp add: http_pending_def)
  with http_poll_read_leftover[OF assms True] show ?thesis by auto
next
  case no_leftover: False
  show ?thesis
  proof (cases "h_first_response h")
    case True
    with no_leftover assms(1) have "http_read_header io h room = (h', r)"
      by (simp add: http_poll_read_def)
    from http_read_header_contract[OF this assms(2) True] http_delivered_waiting[OF assms(2) True]
    show ?thesis by simp
  next
    case False
    obtain s where step: "op_read io (h_inner h) room = (s, r)" and h': "h' = h\<lparr>h_inner := s\<rparr>"
      using no_leftover False assms(1)
      by (cases "op_read io (h_inner h) room") (auto simp: http_poll_read_def)
    have good: "good (h_inner h)" and found: "find_double_crlf (rcvd (h_inner h)) \<noteq> None"
      and empty: "http_pending h = []" "h_leftover h = []" "h_leftover_off h = 0"
      using assms(2) False no_leftover by (auto simp: http_read_inv_def http_pending_def)
    have s: "good s" "rcvd s = rcvd (h_inner h) @ poll_data r"
      using reader.read_step[OF good] step by auto
    obtain i where i: "find_double_crlf (rcvd (h_inner h)) = Some i" using found by blast
    have still: "find_double_crlf (rcvd s) = Some i" using find_double_crlf_append[OF i] s(2) by simp
    have body: "http_body (rcvd s) = http_body (rcvd (h_inner h)) @ poll_data r"
      using http_body_append[OF found] s(2) by simp
    have "http_pending h' = []" by (simp add: h' http_pending_def empty)
    then have "http_read_inv good rcvd h'"
      by (simp add: http_read_inv_def False still s(1) empty h')
    moreover have "http_delivered rcvd h' = http_delivered rcvd h @ poll_data r"
      by (simp add: http_delivered_def http_pending_def h' body empty)
    moreover have "length (poll_data r) \<le> room"
      using reader.read_ok[OF good, of room s] step by (cases r rule: poll_cases) auto
    moreover have "r = Ready (Ok []) \<longrightarrow> 0 < room \<longrightarrow> eof s"
      using reader.read_eof[OF good, of room s] step by auto
    ultimately show ?thesis by (simp add: h')
  qed
qed

end

text \<open>
  The wrapper is a reader again: it hands out exactly the body of what the transport received,
  in order, and reports an empty read only at the transport's end of stream.
\<close>

sublocale stream_reader \<subseteq> http: byte_reader "\<lambda>h n. Some (http_poll_read io h n)"
    "http_read_inv good rcvd" "http_delivered rcvd" "\<lambda>h. eof (h_inner h)"
proof unfold_locales
  fix h n h' bs
  assume "http_read_inv good rcvd h" and "Some (http_poll_read io h n) = Some (h', Ready (Ok bs))"
  then show "http_read_inv good rcvd h' \<and> http_delivered rcvd h' = http_delivered rcvd h @ bs
      \<and> length bs \<le> n"
    using http_poll_read_contract[of h n h'] by force
next
  fix h n h' r
  assume "http_read_inv good rcvd h" and "Some (http_poll_read io h n) = Some (h', r)"
    and "\<not> ready_ok r"
  then show "http_read_inv good rcvd h' \<and> http_delivered rcvd h' = http_delivered rcvd h"
    using http_poll_read_contract[of h n h' r] by (cases r rule: poll_cases) force+
next
  fix h n h'
  assume "http_read_inv good rcvd h" and "0 < n"
    and "Some (http_poll_read io h n) = Some (h', Ready (Ok []))"
  then show "eof (h_inner h')"
    using http_poll_read_contract[of h n h'] by force
qed

interpretation http_script: byte_reader "\<lambda>h n. Some (http_poll_read script_ops h n)"
    "http_read_inv (\<lambda>_. True) taken" "http_delivered taken" "\<lambda>h. ended (h_inner h)"
  by (rule script_finite.http.byte_reader_axioms)

end
