(* ===== verification/Obfs_Http_Write.thy ===== *)
theory Obfs_Http_Write
  imports Obfs_Http
begin

text \<open>
  The writing half of \<open>HttpObfs\<close>: the fake request ends where a peer looks for its end, and a
  caller that follows the \<open>write_all\<close> protocol puts exactly its data on the wire, once and in
  order, whatever the transport answers. The last section shows what flushing in the middle of
  a pending write does.
\<close>

section \<open>The end of the request header\<close>

lemma find_double_crlf_Cons:
  "find_double_crlf (x # w) =
     (if take 4 (x # w) = double_crlf then Some 0 else map_option Suc (find_double_crlf w))"
proof (cases "take 4 (x # w) = double_crlf")
  case True
  then show ?thesis by (simp add: find_double_crlf_Some)
next
  case no: False
  show ?thesis
  proof (cases "find_double_crlf w")
    case None
    have "take 4 (drop i (x # w)) \<noteq> double_crlf" for i
      using None no by (cases i) (simp_all add: find_double_crlf_None)
    then have "find_double_crlf (x # w) = None" unfolding find_double_crlf_None by blast
    with None no show ?thesis by simp
  next
    case (Some i)
    have "take 4 (drop j (x # w)) \<noteq> double_crlf" if "j < Suc i" for j
      using Some no that by (cases j) (simp_all add: find_double_crlf_Some)
    moreover have "take 4 (drop (Suc i) (x # w)) = double_crlf"
      using Some by (simp add: find_double_crlf_Some)
    ultimately have "find_double_crlf (x # w) = Some (Suc i)"
      by (simp only: find_double_crlf_Some) blast
    with Some no show ?thesis by simp
  qed
qed

lemma find_double_crlf_line:
  "13 \<notin> set l \<Longrightarrow> find_double_crlf (l @ w) = map_option ((+) (length l)) (find_double_crlf w)"
proof (induction l)
  case Nil
  then show ?case by (simp add: option.map_ident)
next
  case (Cons x l)
  then have "take 4 (x # l @ w) \<noteq> double_crlf" by (auto simp: double_crlf_def)
  with Cons show ?case by (simp add: find_double_crlf_Cons option.map_comp comp_def)
qed

definition no_cr :: "string \<Rightarrow> bool" where
  "no_cr s \<longleftrightarrow> CHR 0x0D \<notin> set s"

lemma no_cr_append [simp]: "no_cr (s @ t) \<longleftrightarrow> no_cr s \<and> no_cr t"
  by (auto simp: no_cr_def)

lemma no_cr_Cons [simp]: "no_cr (c # s) \<longleftrightarrow> c \<noteq> CHR 0x0D \<and> no_cr s"
  by (auto simp: no_cr_def)

lemma no_cr_Nil [simp]: "no_cr []"
  by (simp add: no_cr_def)

lemma no_cr_dec [simp]: "no_cr (dec n)"
proof -
  have "CHR 0x0D \<noteq> char_of k" if "k \<in> {48..57}" for k :: nat
  proof
    assume "CHR 0x0D = char_of k"
    then have "of_char (CHR 0x0D) = (of_char (char_of k :: char) :: nat)" by (rule arg_cong)
    with that show False by simp
  qed
  then show ?thesis using set_dec[of n] unfolding no_cr_def by blast
qed

lemma of_char_cr: "(of_char c :: u8) = 13 \<longleftrightarrow> c = CHR 0x0D"
  using of_char_u8_inject[of c "CHR 0x0D"] by simp

lemma no_cr_bytes: "no_cr s \<Longrightarrow> 13 \<notin> set (as_bytes s)"
  using of_char_cr by (fastforce simp: as_bytes_def no_cr_def dest: sym)

lemma length_crlf [simp]: "length crlf = 2"
  by (simp add: crlf_def)

definition head_lines :: "string list \<Rightarrow> string" where
  "head_lines ls = concat (map (\<lambda>l. l @ crlf) ls) @ crlf"

lemma as_bytes_crlf [simp]: "as_bytes crlf = [13, 10]"
  by (simp add: as_bytes_def crlf_def)

lemma find_double_crlf_head_lines:
  assumes "ls \<noteq> []" and "\<forall>l\<in>set ls. l \<noteq> [] \<and> no_cr l"
  shows "find_double_crlf (as_bytes (head_lines ls) @ body) = Some (length (head_lines ls) - 4)"
  using assms
proof (induction ls rule: list_nonempty_induct)
  case (single l)
  then show ?case
    by (simp add: head_lines_def find_double_crlf_line no_cr_bytes find_double_crlf_Cons
        double_crlf_def)
next
  case (cons l ls)
  from cons.hyps cons.prems obtain c s rest where head: "head_lines ls = c # rest" "c \<noteq> CHR 0x0D"
    by (cases ls) (auto simp: head_lines_def no_cr_def neq_Nil_conv)
  have "(of_char c :: u8) \<noteq> 13" using head(2) by (simp add: of_char_cr)
  then have "find_double_crlf (13 # 10 # as_bytes (head_lines ls) @ body) =
      map_option (Suc \<circ> Suc) (find_double_crlf (as_bytes (head_lines ls) @ body))"
    by (simp add: find_double_crlf_Cons[of 13] find_double_crlf_Cons[of 10] double_crlf_def
        head(1) as_bytes_Cons option.map_comp)
  moreover have "head_lines (l # ls) = l @ crlf @ head_lines ls" by (simp add: head_lines_def)
  moreover have "4 \<le> length (head_lines ls)"
    using cons.hyps by (cases ls) (simp_all add: head_lines_def)
  ultimately show ?case
    using cons by (simp add: find_double_crlf_line no_cr_bytes)
qed

lemma http_request_head_lines:
  "http_request_head b64 d host port n = head_lines
     [''GET / HTTP/1.1'', ''Host: '' @ host_header host port,
      ''User-Agent: curl/7.'' @ dec (unat (ua_major d mod 54)) @ ''.'' @ dec (unat (ua_minor d mod 2)),
      ''Upgrade: websocket'', ''Connection: Upgrade'',
      ''Sec-WebSocket-Key: '' @ b64 (fill_bytes (key_byte d) 16), ''Content-Length: '' @ dec n]"
  by (simp add: http_request_head_def head_lines_def)

lemma no_cr_host_header: "no_cr host \<Longrightarrow> no_cr (host_header host port)"
  by (simp add: host_header_def)

lemma find_double_crlf_request:
  assumes "no_cr host" and "no_cr (b64 (fill_bytes (key_byte d) 16))"
  shows "find_double_crlf (build_http_request b64 d host port body @ ext) =
    Some (length (http_request_head b64 d host port (length body)) - 4)"
  unfolding build_http_request_def http_request_head_lines append_assoc
  by (rule find_double_crlf_head_lines)
    (use assms no_cr_host_header[OF assms(1), of port] in \<open>simp_all\<close>)

lemma http_body_request:
  assumes "no_cr host" and "no_cr (b64 (fill_bytes (key_byte d) 16))"
  shows "http_body (build_http_request b64 d host port body @ ext) = body @ ext"
proof -
  let ?head = "http_request_head b64 d host port (length body)"
  have "4 \<le> length ?head" by (simp add: http_request_head_def)
  then show ?thesis
    using find_double_crlf_request[of host b64 d port body ext, OF assms]
    by (simp add: http_body_def build_http_request_def)
qed

lemma build_http_request_not_Nil [simp]: "build_http_request b64 d host port body \<noteq> []"
proof
  assume "build_http_request b64 d host port body = []"
  then have "as_bytes (http_request_head b64 d host port (length body)) = []"
    unfolding build_http_request_def by (rule append_is_Nil_conv[THEN iffD1, THEN conjunct1])
  then have "length (http_request_head b64 d host port (length body)) = 0"
    by (metis length_as_bytes list.size(3))
  then show False by (simp add: http_request_head_def)
qed

section \<open>Accepted data\<close>

text \<open>What is bound for the wire: sent already, or framed and waiting.\<close>

definition http_bound :: "('s \<Rightarrow> bytes) \<Rightarrow> 's http_obfs \<Rightarrow> bytes" where
  "http_bound sent h = sent (h_inner h) @ drop (h_write_buf_off h) (h_write_buf h)"

text \<open>
  \<open>a\<close> was reported as accepted and \<open>b\<close> is framed but not reported: the wire is going to hold one
  request with the first body, then the rest of the data as it is.
\<close>

definition http_framed :: "(bytes \<Rightarrow> string) \<Rightarrow> string \<Rightarrow> u16 \<Rightarrow> bytes \<Rightarrow> bytes \<Rightarrow> bool" where
  "http_framed b64 host port w c \<longleftrightarrow>
     (\<exists>d body rest. c = body @ rest \<and> w = build_http_request b64 d host port body @ rest)"

definition http_accepted ::
  "('s \<Rightarrow> bool) \<Rightarrow> ('s \<Rightarrow> bytes) \<Rightarrow> (bytes \<Rightarrow> string) \<Rightarrow> string \<Rightarrow> u16 \<Rightarrow>
   's http_obfs \<Rightarrow> bytes \<Rightarrow> bytes \<Rightarrow> bool" where
  "http_accepted good sent b64 host port h a b \<longleftrightarrow>
     good (h_inner h) \<and> h_host h = host \<and> h_port h = port \<and>
     (if h_first_request h then http_bound sent h = [] \<and> h_write_buf h = [] \<and> a = []
      else http_framed b64 host port (http_bound sent h) (a @ b)) \<and>
     (if h_write_buf h = [] then b = [] else h_pending_input h = length b \<and> b \<noteq> [] \<and> a = [])"

lemma http_framed_request: "http_framed b64 host port (build_http_request b64 d host port body) body"
  unfolding http_framed_def
  by (intro exI[of _ d] exI[of _ body] exI[of _ "[]"]) simp

lemma http_framed_append: "http_framed b64 host port w c \<Longrightarrow> http_framed b64 host port (w @ x) (c @ x)"
  unfolding http_framed_def by (metis append_assoc)

lemma http_new_accepted:
  "\<lbrakk>good s; sent s = []\<rbrakk> \<Longrightarrow> http_accepted good sent b64 host port (http_new s host port) [] []"
  by (simp add: http_accepted_def http_new_def http_bound_def)

context stream_writer
begin

lemma http_drain_step:
  assumes "http_poll_drain_write_buf io h = (h', r)" and "good (h_inner h)"
  shows "good (h_inner h') \<and> http_bound sent h' = http_bound sent h \<and>
    h_host h' = h_host h \<and> h_port h' = h_port h \<and> h_first_request h' = h_first_request h \<and>
    h_pending_input h' = h_pending_input h \<and>
    h_write_buf h' = (if r = Ready (Ok ()) then [] else h_write_buf h)"
proof -
  obtain s buf off where step:
      "poll_drain (op_write io) (h_inner h) (h_write_buf h) (h_write_buf_off h) = (s, buf, off, r)"
    and h': "h' = h\<lparr>h_inner := s, h_write_buf := buf, h_write_buf_off := off\<rparr>"
    using assms(1) unfolding http_poll_drain_write_buf_def
    by (cases "poll_drain (op_write io) (h_inner h) (h_write_buf h) (h_write_buf_off h)") auto
  from writer.poll_drain_conserves[OF step assms(2)]
  have "good s" "sent s @ drop off buf = http_bound sent h" by (auto simp: http_bound_def)
  moreover from poll_drain_shape[OF step] have "buf = (if r = Ready (Ok ()) then [] else h_write_buf h)"
    by (auto simp: ready_ok_def)
  ultimately show ?thesis by (simp add: h' http_bound_def)
qed

text \<open>A poll while a frame is waiting pushes the frame and reports its length.\<close>

lemma http_write_held:
  assumes "http_poll_write b64 io d h buf = (h', r)"
    and "http_accepted good sent b64 host port h a b" and "h_write_buf h \<noteq> []"
  shows "case r of Ready (Inr n) \<Rightarrow> n = length b \<and> http_accepted good sent b64 host port h' (a @ b) []
    | _ \<Rightarrow> http_accepted good sent b64 host port h' a b"
proof -
  obtain h1 r1 where step: "http_poll_drain_write_buf io h = (h1, r1)"
    by (cases "http_poll_drain_write_buf io h")
  have good: "good (h_inner h)" using assms(2) by (simp add: http_accepted_def)
  note keep = http_drain_step[OF step good]
  show ?thesis
  proof (cases r1 rule: poll_cases)
    case (ok u)
    then have "r = Ready (Ok (h_pending_input h1))" "h' = h1\<lparr>h_pending_input := 0\<rparr>"
      using assms(1,3) step by (auto simp: http_poll_write_def)
    then show ?thesis
      using keep assms(2,3) ok by (auto simp: http_accepted_def http_bound_def)
  next
    case (err e)
    then have "r = Ready (Err e)" "h' = h1" using assms(1,3) step by (auto simp: http_poll_write_def)
    then show ?thesis using keep assms(2,3) err by (auto simp: http_accepted_def split: if_splits)
  next
    case pending
    then have "r = Pending" "h' = h1" using assms(1,3) step by (auto simp: http_poll_write_def)
    then show ?thesis using keep assms(2,3) pending by (auto simp: http_accepted_def split: if_splits)
  qed
qed

text \<open>The first poll frames all of its data.\<close>

lemma http_write_first:
  assumes "http_poll_write b64 io d h buf = (h', r)"
    and "http_accepted good sent b64 host port h a b" and "h_write_buf h = []" and "h_first_request h"
    and "buf \<noteq> []"
  shows "case r of Ready (Inr n) \<Rightarrow> n = length buf \<and> http_accepted good sent b64 host port h' (a @ buf) []
    | _ \<Rightarrow> http_accepted good sent b64 host port h' a buf"
proof -
  let ?req = "build_http_request b64 d (h_host h) (h_port h) buf"
  let ?h = "h\<lparr>h_first_request := False, h_write_buf := ?req, h_write_buf_off := 0,
    h_pending_input := length buf\<rparr>"
  obtain h1 r1 where step: "http_poll_drain_write_buf io ?h = (h1, r1)"
    by (cases "http_poll_drain_write_buf io ?h")
  have start: "good (h_inner h)" "h_host h = host" "h_port h = port" "sent (h_inner h) = []" "a = []"
    using assms(2,3,4) by (auto simp: http_accepted_def http_bound_def)
  have "http_bound sent ?h = build_http_request b64 d host port buf"
    using start by (simp add: http_bound_def)
  then have keep: "good (h_inner h1)" "http_bound sent h1 = build_http_request b64 d host port buf"
    "h_host h1 = host" "h_port h1 = port" "\<not> h_first_request h1" "h_pending_input h1 = length buf"
    "h_write_buf h1 = (if r1 = Ready (Ok ()) then [] else build_http_request b64 d host port buf)"
    using http_drain_step[OF step] start by simp_all
  have wire: "http_framed b64 host port (http_bound sent h1) buf"
    using keep(2) http_framed_request by simp
  show ?thesis
  proof (cases r1 rule: poll_cases)
    case (ok u)
    then have "r = Ready (Ok (h_pending_input h1))" "h' = h1\<lparr>h_pending_input := 0\<rparr>"
      using assms(1,3,4) step by (auto simp: http_poll_write_def)
    then show ?thesis
      using keep wire start ok by (simp add: http_accepted_def http_bound_def)
  next
    case (err e)
    then have "r = Ready (Err e)" "h' = h1"
      using assms(1,3,4) step by (auto simp: http_poll_write_def)
    then show ?thesis using keep wire start err assms(5) by (simp add: http_accepted_def)
  next
    case pending
    then have "r = Pending" "h' = h1" using assms(1,3,4) step by (auto simp: http_poll_write_def)
    then show ?thesis using keep wire start pending assms(5) by (simp add: http_accepted_def)
  qed
qed

text \<open>Later polls pass their data through.\<close>

lemma http_write_through:
  assumes "http_poll_write b64 io d h buf = (h', r)"
    and "http_accepted good sent b64 host port h a []" and "h_write_buf h = []" and "\<not> h_first_request h"
  shows "case r of Ready (Inr n) \<Rightarrow> n \<le> length buf \<and>
      http_accepted good sent b64 host port h' (a @ take n buf) []
    | _ \<Rightarrow> http_accepted good sent b64 host port h' a []"
proof -
  obtain s where step: "op_write io (h_inner h) buf = (s, r)" and h': "h' = h\<lparr>h_inner := s\<rparr>"
    using assms(1,3,4) by (cases "op_write io (h_inner h) buf") (auto simp: http_poll_write_def)
  have good: "good (h_inner h)" using assms(2) by (simp add: http_accepted_def)
  show ?thesis
  proof (cases r rule: poll_cases)
    case (ok n)
    from writer.write_ok[OF good step[unfolded ok]]
    have s: "good s" "n \<le> length buf" "sent s = sent (h_inner h) @ take n buf" by auto
    have "http_framed b64 host port (sent (h_inner h)) a"
      using assms(2-4) by (simp add: http_accepted_def http_bound_def)
    from http_framed_append[OF this, of "take n buf"]
    have "http_accepted good sent b64 host port h' (a @ take n buf) []"
      using s assms(2-4) by (simp add: http_accepted_def http_bound_def h')
    with s ok show ?thesis by simp
  next
    case (err e)
    with writer.write_idle[OF good step] assms(2-4) show ?thesis
      by (simp add: h' http_accepted_def http_bound_def)
  next
    case pending
    with writer.write_idle[OF good step] assms(2-4) show ?thesis
      by (simp add: h' http_accepted_def http_bound_def)
  qed
qed

end

text \<open>The wrapper is a writer that accepts data in frames and must be polled again.\<close>

sublocale stream_writer \<subseteq> http_w: retry_writer "http_poll_write b64 io"
    "http_accepted good sent b64 host port" for b64 host port
proof unfold_locales
  fix h a d buf h' n
  assume acc: "http_accepted good sent b64 host port h a []" and data: "buf \<noteq> []"
    and step: "http_poll_write b64 io d h buf = (h', Ready (Ok n))"
  show "n \<le> length buf \<and> http_accepted good sent b64 host port h' (a @ take n buf) []"
    using http_write_held[OF step acc] http_write_first[OF step acc _ _ data] http_write_through[OF step acc]
    by (cases "h_write_buf h = []"; cases "h_first_request h") auto
next
  fix h a d buf h' p
  assume acc: "http_accepted good sent b64 host port h a []" and data: "buf \<noteq> []"
    and step: "http_poll_write b64 io d h buf = (h', p)" and idle: "\<not> ready_ok p"
  show "\<exists>k. http_accepted good sent b64 host port h' a (take k buf)"
  proof (cases "h_write_buf h = [] \<and> h_first_request h")
    case True
    with http_write_first[OF step acc _ _ data] idle have "http_accepted good sent b64 host port h' a buf"
      by (cases p rule: poll_cases) simp_all
    then show ?thesis by (intro exI[of _ "length buf"]) simp
  next
    case False
    with http_write_held[OF step acc] http_write_through[OF step acc] idle
    have "http_accepted good sent b64 host port h' a []"
      by (cases "h_write_buf h = []"; cases p rule: poll_cases) simp_all
    then show ?thesis by (intro exI[of _ 0]) simp
  qed
next
  fix h a b d buf h' n
  assume acc: "http_accepted good sent b64 host port h a b" and b: "b \<noteq> []"
    and step: "http_poll_write b64 io d h buf = (h', Ready (Ok n))"
  have "h_write_buf h \<noteq> []" using acc b by (auto simp: http_accepted_def)
  with http_write_held[OF step acc]
  show "n = length b \<and> http_accepted good sent b64 host port h' (a @ b) []" by simp
next
  fix h a b d buf h' p
  assume acc: "http_accepted good sent b64 host port h a b" and b: "b \<noteq> []"
    and step: "http_poll_write b64 io d h buf = (h', p)" and "\<not> ready_ok p"
  moreover have "h_write_buf h \<noteq> []" using acc b by (auto simp: http_accepted_def)
  ultimately show "http_accepted good sent b64 host port h' a b"
    using http_write_held[OF step acc] by (cases p rule: poll_cases) simp_all
qed

end
