(* ===== verification/Obfs_Http_Fed.thy ===== *)
theory Obfs_Http_Fed
  imports Obfs_Http
begin

text \<open>
  Reading from a peer that has sent a complete response and more: \<open>HttpObfs\<close> hands out the
  whole body, in as many polls as it takes, and is pending only when there is nothing left. The
  response header has to fit the limit.
\<close>

definition http_fits :: "bytes \<Rightarrow> bool" where
  "http_fits w = (case find_double_crlf w of Some i \<Rightarrow> i + 4 \<le> MAX_HEADER | None \<Rightarrow> length w \<le> MAX_HEADER)"

definition http_coming :: "('s \<Rightarrow> bytes) \<Rightarrow> 's http_obfs \<Rightarrow> bytes" where
  "http_coming coming h =
     (if h_first_response h then http_body (h_response_scratch h @ coming (h_inner h))
      else http_pending h @ coming (h_inner h))"

definition http_fed_inv ::
  "('s \<Rightarrow> bool) \<Rightarrow> ('s \<Rightarrow> bytes) \<Rightarrow> ('s \<Rightarrow> bytes) \<Rightarrow> 's http_obfs \<Rightarrow> bool" where
  "http_fed_inv good rcvd coming h \<longleftrightarrow>
     http_read_inv good rcvd h \<and>
     (h_first_response h \<longrightarrow> http_fits (h_response_scratch h @ coming (h_inner h)))"

lemma http_fits_limit:
  assumes "http_fits (w @ ext)" and "find_double_crlf w = None"
  shows "length w \<le> MAX_HEADER"
proof (cases "find_double_crlf (w @ ext)")
  case None
  with assms(1) show ?thesis by (simp add: http_fits_def)
next
  case (Some i)
  show ?thesis
  proof (rule ccontr)
    assume "\<not> length w \<le> MAX_HEADER"
    with Some assms(1) have "i + 4 \<le> length w" by (simp add: http_fits_def)
    moreover have "take 4 (drop i (w @ ext)) = double_crlf"
      using Some by (simp add: find_double_crlf_Some del: drop_append)
    ultimately have "take 4 (drop i w) = double_crlf" by simp
    with assms(2) show False by (simp add: find_double_crlf_None)
  qed
qed

lemma http_fed_inv_passing:
  "\<lbrakk>http_read_inv good rcvd h; \<not> h_first_response h\<rbrakk> \<Longrightarrow> http_fed_inv good rcvd coming h"
  by (simp add: http_fed_inv_def)

context fed_stream
begin

lemma http_read_header_fed:
  assumes "http_read_header io h room = (h', r)"
    and "http_fed_inv good rcvd coming h" and "h_first_response h"
  shows "http_fed_inv good rcvd coming h' \<and>
    fed_answer room (http_coming coming h) r (http_coming coming h')"
  using assms
proof (induction "Suc MAX_HEADER - length (h_response_scratch h)" arbitrary: h rule: less_induct)
  case less
  from less.prems have read_inv: "http_read_inv good rcvd h"
    and fits: "http_fits (h_response_scratch h @ coming (h_inner h))" by (auto simp: http_fed_inv_def)
  from read_inv less.prems(3) have good: "good (h_inner h)" and fresh: "find_double_crlf (h_response_scratch h) = None"
    "h_leftover h = []" "h_leftover_off h = 0" and scratch: "h_response_scratch h = rcvd (h_inner h)"
    by (auto simp: http_read_inv_def)
  have inv': "http_read_inv good rcvd h'"
    using http_read_header_contract[OF less.prems(1) read_inv less.prems(3)] by simp
  have old: "http_coming coming h = http_body (h_response_scratch h @ coming (h_inner h))"
    using less.prems(3) by (simp add: http_coming_def)
  from less.prems(1) show ?case
  proof (cases rule: http_read_headerE)
    case (idle s)
    have empty: "coming (h_inner h) = []" "coming s = []" "r = Pending"
      using fed_answer_idle[OF fed_read[OF idle(1) good] _ idle(2)] by simp_all
    have "h_first_response h'" "h_response_scratch h' = h_response_scratch h" "h_inner h' = s"
      by (simp_all add: idle(3) less.prems(3))
    then show ?thesis
      using empty inv' fits fresh(1) old
      by (simp add: http_fed_inv_def http_coming_def http_body_def fed_answer_def)
  next
    case (eof s)
    from fed_read[OF eof(1) good] have False by (auto simp: fed_answer_def split: if_splits)
    then show ?thesis ..
  next
    case (limit s bs)
    from fed_read[OF limit(1) good] have "coming (h_inner h) = bs @ coming s" by (simp add: fed_answer_def)
    with fits http_fits_limit[OF _ limit(3), of "coming s"] limit(6) show ?thesis by simp
  next
    case (again s bs)
    let ?h = "h\<lparr>h_inner := s, h_response_scratch := h_response_scratch h @ bs\<rparr>"
    from fed_read[OF again(1) good] have fed: "coming (h_inner h) = bs @ coming s"
      by (simp add: fed_answer_def)
    have s: "good s" "rcvd s = h_response_scratch h @ bs"
      using fed.read_ok[OF good, of 1024 s bs] again(1) scratch by auto
    have "http_read_inv good rcvd ?h"
      using http_header_waiting[of ?h] s again(3) less.prems(3) fresh by simp
    then have "http_fed_inv good rcvd coming ?h" using fits fed by (simp add: http_fed_inv_def)
    moreover have "http_coming coming ?h = http_coming coming h"
      using old less.prems(3) fed by (simp add: http_coming_def)
    moreover have "Suc MAX_HEADER - length (h_response_scratch ?h)
        < Suc MAX_HEADER - length (h_response_scratch h)"
      using again(2,5) by (cases bs) auto
    moreover have "h_first_response ?h" using less.prems(3) by simp
    ultimately show ?thesis using less.hyps[of ?h] again(4) by metis
  next
    case (body s bs i b n)
    from fed_read[OF body(1) good] have "coming (h_inner h) = bs @ coming s" by (simp add: fed_answer_def)
    with http_body_append[of "h_response_scratch h @ bs" "coming s"] body(3,4) old
    have all: "http_coming coming h = b @ coming s" by (simp add: http_body_def)
    have h': "\<not> h_first_response h'" "http_pending h' = drop n b" "h_inner h' = s"
      using fresh(2,3) by (simp_all add: body(8) http_pending_def)
    have "take n b \<noteq> []" using body(5,6) by auto
    with all h' body(7) http_fed_inv_passing[OF inv' h'(1)] show ?thesis
      by (auto simp: http_coming_def fed_answer_def)
  next
    case (fallthrough s bs i b s')
    from fed_read[OF fallthrough(1) good] have "coming (h_inner h) = bs @ coming s"
      by (simp add: fed_answer_def)
    with http_body_append[of "h_response_scratch h @ bs" "coming s"] fallthrough(3,4) old
    have all: "http_coming coming h = b @ coming s" by (simp add: http_body_def)
    have s: "good s" using fed.read_ok[OF good, of 1024 s bs] fallthrough(1) by auto
    have len: "length (poll_data r) \<le> room"
      using fed.read_ok[of s room s'] s fallthrough(6) by (cases r rule: poll_cases) auto
    have h': "\<not> h_first_response h'" "http_pending h' = b" "h_inner h' = s'"
      using fresh(2,3) by (simp_all add: fallthrough(7) http_pending_def)
    have all': "http_coming coming h' = b @ coming s'" using h' by (simp add: http_coming_def)
    note answer = fed_read[OF fallthrough(6) s]
    have "fed_answer room (b @ coming s) r (b @ coming s')"
    proof (cases "b = []")
      case True
      with answer show ?thesis by simp
    next
      case False
      with fallthrough(5) len have "room = 0" "poll_data r = []" by simp_all
      with answer show ?thesis by (simp add: fed_answer_def)
    qed
    with all all' http_fed_inv_passing[OF inv' h'(1)] show ?thesis by simp
  qed
qed

lemma http_poll_read_fed:
  assumes "http_poll_read io h room = (h', r)" and "http_fed_inv good rcvd coming h"
  shows "http_fed_inv good rcvd coming h' \<and>
    fed_answer room (http_coming coming h) r (http_coming coming h')"
proof (cases "h_first_response h")
  case True
  then have "h_leftover h = []" using assms(2) by (auto simp: http_fed_inv_def http_read_inv_def)
  with assms(1) True have "http_read_header io h room = (h', r)" by (simp add: http_poll_read_def)
  from http_read_header_fed[OF this assms(2) True] show ?thesis .
next
  case passing: False
  have inv: "http_read_inv good rcvd h" using assms(2) by (simp add: http_fed_inv_def)
  have inv': "http_read_inv good rcvd h'" using http_poll_read_contract[OF assms(1) inv] by simp
  show ?thesis
  proof (cases "h_leftover_off h < length (h_leftover h)")
    case True
    from http_poll_read_leftover[OF assms(1) inv True]
    have r: "r = Ready (Ok (take room (http_pending h)))" and inner: "h_inner h' = h_inner h" by auto
    have n: "h_leftover_off h + min (length (http_pending h)) room \<ge> length (h_leftover h) \<longleftrightarrow>
        length (http_pending h) \<le> room" using True by (auto simp: http_pending_def)
    have "h' = (if length (http_pending h) \<le> room then h\<lparr>h_leftover := [], h_leftover_off := 0\<rparr>
        else h\<lparr>h_leftover_off := h_leftover_off h + room\<rparr>)"
      using assms(1) True n unfolding http_poll_read_def http_pending_def[symmetric] Let_def by auto
    then have h': "http_pending h' = drop room (http_pending h)" "\<not> h_first_response h'"
      using passing by (auto simp: http_pending_def add.commute)
    have "http_pending h \<noteq> []" using True by (simp add: http_pending_def)
    with r inner h' passing http_fed_inv_passing[OF inv' h'(2)] show ?thesis
      by (simp add: http_coming_def fed_answer_def)
  next
    case False
    obtain s where step: "op_read io (h_inner h) room = (s, r)" and h': "h' = h\<lparr>h_inner := s\<rparr>"
      using False passing assms(1)
      by (cases "op_read io (h_inner h) room") (auto simp: http_poll_read_def)
    have "good (h_inner h)" "http_pending h = []"
      using inv passing False by (auto simp: http_read_inv_def http_pending_def)
    with fed_read[OF step] http_fed_inv_passing[OF inv'] passing show ?thesis
      by (simp add: h' http_coming_def http_pending_def)
  qed
qed

end

sublocale fed_stream \<subseteq> http_fed: fed_reader "\<lambda>h n. Some (http_poll_read io h n)"
    "http_fed_inv good rcvd coming" "http_delivered rcvd" "\<lambda>h. eof (h_inner h)" "http_coming coming"
proof unfold_locales
  fix h n h' bs
  assume "http_fed_inv good rcvd coming h" and "Some (http_poll_read io h n) = Some (h', Ready (Ok bs))"
  then show "http_fed_inv good rcvd coming h' \<and> http_delivered rcvd h' = http_delivered rcvd h @ bs
      \<and> length bs \<le> n"
    using http_poll_read_fed[of h n h'] http_poll_read_contract[of h n h']
    by (force simp: http_fed_inv_def)
next
  fix h n h' r
  assume "http_fed_inv good rcvd coming h" and "Some (http_poll_read io h n) = Some (h', r)"
    and "\<not> ready_ok r"
  then show "http_fed_inv good rcvd coming h' \<and> http_delivered rcvd h' = http_delivered rcvd h"
    using http_poll_read_fed[of h n h' r] http.read_idle[of h n h' r]
    by (auto simp: http_fed_inv_def)
next
  fix h n h'
  assume "http_fed_inv good rcvd coming h" and "0 < n"
    and "Some (http_poll_read io h n) = Some (h', Ready (Ok []))"
  then show "eof (h_inner h')"
    using http.read_eof[of h n h'] by (auto simp: http_fed_inv_def)
next
  fix h n h' r
  assume "http_fed_inv good rcvd coming h" and "Some (http_poll_read io h n) = Some (h', r)"
  then show "http_coming coming h = poll_data r @ http_coming coming h'"
    using http_poll_read_fed[of h n h' r] by (simp add: fed_answer_def)
next
  fix h and n :: nat
  assume "http_fed_inv good rcvd coming h" and "0 < n" and "http_coming coming h = []"
  then show "\<exists>h'. Some (http_poll_read io h n) = Some (h', Pending)"
    using http_poll_read_fed[of h n] by (cases "http_poll_read io h n") (auto simp: fed_answer_def)
next
  fix h and n :: nat
  assume "http_fed_inv good rcvd coming h" and "0 < n" and "http_coming coming h \<noteq> []"
  then show "\<exists>h' bs. Some (http_poll_read io h n) = Some (h', Ready (Ok bs)) \<and> bs \<noteq> []"
    using http_poll_read_fed[of h n] by (cases "http_poll_read io h n") (auto simp: fed_answer_def)
qed

interpretation http_fed_script: fed_reader "\<lambda>h n. Some (http_poll_read script_ops h n)"
    "http_fed_inv (\<lambda>s. only_data (rx s)) taken (\<lambda>s. script_coming (rx s))" "http_delivered taken"
    "\<lambda>h. ended (h_inner h)" "http_coming (\<lambda>s. script_coming (rx s))"
  by (rule script_fed.http_fed.fed_reader_axioms)

end
