(* ===== verification/Obfs_Http_Duplex.thy ===== *)
theory Obfs_Http_Duplex
  imports Obfs_Http_Write Obfs_Http_Fed
begin

text \<open>
  The two directions of \<open>HttpObfs\<close> together: reading leaves the writing side alone and the other
  three operations leave the reading side alone, so the wrapper over a transport is a duplex
  stream again. Then the properties of \<open>HttpObfs\<close>.
\<close>

section \<open>What the operations leave alone\<close>

definition http_write_side :: "'s http_obfs \<Rightarrow> string \<times> u16 \<times> bool \<times> bytes \<times> nat \<times> nat" where
  "http_write_side h =
     (h_host h, h_port h, h_first_request h, h_write_buf h, h_write_buf_off h, h_pending_input h)"

definition http_read_side :: "'s http_obfs \<Rightarrow> bool \<times> bytes \<times> bytes \<times> nat" where
  "http_read_side h = (h_first_response h, h_response_scratch h, h_leftover h, h_leftover_off h)"

lemma http_accepted_cong:
  "\<lbrakk>http_write_side h = http_write_side h'; good (h_inner h'); sent (h_inner h) = sent (h_inner h');
    http_accepted good sent b64 host port h a b\<rbrakk> \<Longrightarrow> http_accepted good sent b64 host port h' a b"
  unfolding http_accepted_def http_bound_def http_write_side_def prod.inject
  by (elim conjE) (simp only: if_True if_False simp_thms)

lemma http_read_inv_cong:
  "\<lbrakk>http_read_side h = http_read_side h'; good (h_inner h'); rcvd (h_inner h) = rcvd (h_inner h');
    http_read_inv good rcvd h\<rbrakk>
   \<Longrightarrow> http_read_inv good rcvd h' \<and> http_delivered rcvd h' = http_delivered rcvd h"
  unfolding http_read_inv_def http_delivered_def http_pending_def http_read_side_def prod.inject
  by (elim conjE) (simp only: if_True if_False simp_thms)

lemma http_read_inv_good: "http_read_inv good rcvd h \<Longrightarrow> good (h_inner h)"
  by (simp add: http_read_inv_def)

lemma http_accepted_good: "http_accepted good sent b64 host port h a b \<Longrightarrow> good (h_inner h)"
  by (simp add: http_accepted_def)

context async_stream
begin

lemma http_read_header_frame:
  assumes "http_read_header io h room = (h', r)"
  shows "http_write_side h' = http_write_side h \<and> sent (h_inner h') = sent (h_inner h)"
  using assms
proof (induction "Suc MAX_HEADER - length (h_response_scratch h)" arbitrary: h rule: less_induct)
  case less
  from less.prems show ?case
  proof (cases rule: http_read_headerE)
    case (again s bs)
    let ?h = "h\<lparr>h_inner := s, h_response_scratch := h_response_scratch h @ bs\<rparr>"
    have "Suc MAX_HEADER - length (h_response_scratch ?h)
        < Suc MAX_HEADER - length (h_response_scratch h)"
      using again(2,5) by (cases bs) auto
    from less.hyps[OF this again(4)] read_sent[OF again(1)] show ?thesis
      by (simp add: http_write_side_def)
  next
    case (fallthrough s bs i b s')
    from read_sent[OF fallthrough(1)] read_sent[OF fallthrough(6)] show ?thesis
      by (simp add: http_write_side_def fallthrough(7))
  qed (use read_sent in \<open>auto simp: http_write_side_def\<close>)
qed

lemma http_poll_read_frame:
  assumes "http_poll_read io h room = (h', r)"
  shows "http_write_side h' = http_write_side h \<and> sent (h_inner h') = sent (h_inner h)"
  using assms http_read_header_frame[of h room h' r] read_sent[of "h_inner h" room]
  by (auto simp: http_poll_read_def http_write_side_def Let_def split: if_splits prod.splits)

lemma http_drain_frame:
  assumes "http_poll_drain_write_buf io h = (h', r)"
  shows "http_read_side h' = http_read_side h \<and> rcvd (h_inner h') = rcvd (h_inner h)"
  using assms poll_drain_frame[of "op_write io" _ _ _ _ _ _ _ rcvd] write_rcvd
  by (auto simp: http_poll_drain_write_buf_def http_read_side_def split: prod.splits)

lemma http_drain_kept:
  assumes "http_poll_drain_write_buf io h = (h', r)" and "good (h_inner h)"
  shows "good (h_inner h') \<and> http_read_side h' = http_read_side h \<and>
    rcvd (h_inner h') = rcvd (h_inner h)"
  using http_drain_frame[OF assms(1)] http_drain_step[OF assms] by simp

lemma http_poll_write_frame:
  assumes "http_poll_write b64 io d h buf = (h', r)" and "good (h_inner h)"
  shows "good (h_inner h') \<and> http_read_side h' = http_read_side h \<and>
    rcvd (h_inner h') = rcvd (h_inner h)"
proof (cases "h_write_buf h = [] \<and> \<not> h_first_request h")
  case True
  then show ?thesis
    using assms write_rcvd[of "h_inner h" buf] writer.write_ok[OF assms(2), of buf]
      writer.write_idle[OF assms(2), of buf]
    by (cases r rule: poll_cases)
      (auto simp: http_poll_write_def http_read_side_def split: prod.splits)
next
  case False
  define h0 where "h0 = (if h_write_buf h \<noteq> [] then h else
    h\<lparr>h_first_request := False, h_write_buf := build_http_request b64 d (h_host h) (h_port h) buf,
      h_write_buf_off := 0, h_pending_input := length buf\<rparr>)"
  have h0: "http_read_side h0 = http_read_side h" "h_inner h0 = h_inner h"
    by (simp_all add: h0_def http_read_side_def)
  obtain h1 r1 where step: "http_poll_drain_write_buf io h0 = (h1, r1)"
    by (cases "http_poll_drain_write_buf io h0")
  have "h' = h1 \<or> h' = h1\<lparr>h_pending_input := 0\<rparr>"
    using assms(1) False step
    by (auto simp: http_poll_write_def h0_def split: if_splits poll.splits sum.splits)
  then have "http_read_side h' = http_read_side h1" "h_inner h' = h_inner h1"
    by (auto simp: http_read_side_def)
  with http_drain_kept[OF step] h0 assms(2) show ?thesis by simp
qed

text \<open>Flushing and shutting down, by the flag \<open>k\<close>.\<close>

lemma http_poll_closeE:
  assumes "(if k then http_poll_shutdown io h else http_poll_flush io h) = (h', r)"
  obtains h1 r1 where "(if h_write_buf h \<noteq> [] then http_poll_drain_write_buf io h
      else (h, Ready (Ok ()))) = (h1, r1)" "h' = h1" "r = r1" "\<not> ready_ok r1"
  | h1 s where "(if h_write_buf h \<noteq> [] then http_poll_drain_write_buf io h
      else (h, Ready (Ok ()))) = (h1, Ready (Ok ()))" "h' = h1\<lparr>h_inner := s\<rparr>"
      "(if k then op_shutdown io else op_flush io) (h_inner h1) = (s, r)"
proof -
  obtain h1 r1 where step: "(if h_write_buf h \<noteq> [] then http_poll_drain_write_buf io h
      else (h, Ready (Ok ()))) = (h1, r1)" by fastforce
  note res = assms[unfolded http_poll_shutdown_def http_poll_flush_def step prod.case]
  show ?thesis
  proof (cases r1 rule: poll_cases)
    case (ok u)
    obtain s p where last: "(if k then op_shutdown io else op_flush io) (h_inner h1) = (s, p)"
      by (cases "(if k then op_shutdown io else op_flush io) (h_inner h1)")
    from res last ok have "h' = h1\<lparr>h_inner := s\<rparr>" "r = p" by (auto split: if_splits)
    with step ok last show ?thesis by (intro that(2)) auto
  qed (use res step in \<open>intro that(1), auto split: if_splits\<close>)+
qed

lemma http_poll_close_frame:
  assumes "(if k then http_poll_shutdown io h else http_poll_flush io h) = (h', r)" and "good (h_inner h)"
  shows "good (h_inner h') \<and> http_read_side h' = http_read_side h \<and>
    rcvd (h_inner h') = rcvd (h_inner h)"
proof -
  have drained: "good (h_inner h1) \<and> http_read_side h1 = http_read_side h \<and>
      rcvd (h_inner h1) = rcvd (h_inner h)"
    if "(if h_write_buf h \<noteq> [] then http_poll_drain_write_buf io h else (h, Ready (Ok ()))) = (h1, r1)"
    for h1 r1
    using that http_drain_kept[of h h1 r1] assms(2) by (auto split: if_splits)
  from assms(1) show ?thesis
  proof (cases rule: http_poll_closeE)
    case (1 h1 r1)
    from drained[OF 1(1)] show ?thesis using 1(2-4) by auto
  next
    case (2 h1 s)
    from drained[OF 2(1)] 2(3) flush_frame[of "h_inner h1" s r] shutdown_frame[of "h_inner h1" s r]
    show ?thesis by (cases k) (simp_all add: http_read_side_def 2(2))
  qed
qed

lemma http_poll_close_sends:
  assumes "(if k then http_poll_shutdown io h else http_poll_flush io h) = (h', r)" and "good (h_inner h)"
  shows "http_bound sent h' = http_bound sent h \<and> h_host h' = h_host h \<and> h_port h' = h_port h \<and>
    h_first_request h' = h_first_request h \<and> h_pending_input h' = h_pending_input h \<and>
    (h_write_buf h' = h_write_buf h \<or> h_write_buf h' = []) \<and>
    (ready_ok r \<longrightarrow> h_write_buf h' = [])"
proof -
  have drained: "http_bound sent h1 = http_bound sent h \<and> h_host h1 = h_host h \<and> h_port h1 = h_port h \<and>
      h_first_request h1 = h_first_request h \<and> h_pending_input h1 = h_pending_input h \<and>
      (h_write_buf h1 = h_write_buf h \<or> h_write_buf h1 = []) \<and> (r1 = Ready (Ok ()) \<longrightarrow> h_write_buf h1 = [])"
    if "(if h_write_buf h \<noteq> [] then http_poll_drain_write_buf io h else (h, Ready (Ok ()))) = (h1, r1)"
    for h1 r1
    using that http_drain_step[of h h1 r1] assms(2) by (auto split: if_splits)
  from assms(1) show ?thesis
  proof (cases rule: http_poll_closeE)
    case (1 h1 r1)
    from drained[OF 1(1)] show ?thesis using 1(2-4) by auto
  next
    case (2 h1 s)
    from drained[OF 2(1)] 2(3) flush_frame[of "h_inner h1" s r] shutdown_frame[of "h_inner h1" s r]
    show ?thesis by (cases k) (auto simp: http_bound_def 2(2))
  qed
qed

end

sublocale async_stream \<subseteq> http_d: duplex "\<lambda>h n. Some (http_poll_read io h n)"
    "http_read_inv good rcvd" "http_delivered rcvd" "\<lambda>h. eof (h_inner h)"
    "http_poll_write b64 io" "http_accepted good sent b64 host port"
    "\<lambda>k h. if k then http_poll_shutdown io h else http_poll_flush io h" for b64 host port
proof unfold_locales
  fix h a b n h' p
  assume inv: "http_read_inv good rcvd h" and acc: "http_accepted good sent b64 host port h a b"
    and step: "Some (http_poll_read io h n) = Some (h', p)"
  have "good (h_inner h')" using http.read_step[OF inv step] http_read_inv_good by blast
  then show "http_accepted good sent b64 host port h' a b"
    using http_accepted_cong[of h h', OF _ _ _ acc] http_poll_read_frame[of h n h' p] step by simp
next
  fix h d buf h' w
  assume inv: "http_read_inv good rcvd h" and "http_poll_write b64 io d h buf = (h', w)"
  then show "http_read_inv good rcvd h' \<and> http_delivered rcvd h' = http_delivered rcvd h"
    using http_poll_write_frame[of b64 d h buf h' w] http_read_inv_cong[OF _ _ _ inv, of h']
      http_read_inv_good[OF inv] by simp
next
  fix h k h' u
  assume inv: "http_read_inv good rcvd h"
    and "(if k then http_poll_shutdown io h else http_poll_flush io h) = (h', u)"
  then show "http_read_inv good rcvd h' \<and> http_delivered rcvd h' = http_delivered rcvd h"
    using http_poll_close_frame[of k h h' u] http_read_inv_cong[OF _ _ _ inv, of h']
      http_read_inv_good[OF inv] by simp
next
  fix h a k h' u
  assume acc: "http_accepted good sent b64 host port h a []"
    and step: "(if k then http_poll_shutdown io h else http_poll_flush io h) = (h', u)"
  from acc have "good (h_inner h)" by (rule http_accepted_good)
  with http_poll_close_sends[OF step] http_poll_close_frame[OF step] acc
  show "http_accepted good sent b64 host port h' a []"
    by (auto simp: http_accepted_def split: if_splits)
qed

interpretation http_link: duplex "\<lambda>h n. Some (http_poll_read script_ops h n)"
    "http_read_inv (\<lambda>_. True) taken" "http_delivered taken" "\<lambda>h. ended (h_inner h)"
    "http_poll_write b64 script_ops" "http_accepted (\<lambda>_. True) wire b64 host port"
    "\<lambda>k h. if k then http_poll_shutdown script_ops h else http_poll_flush script_ops h"
  for b64 host port
  by (rule script_stream.http_d.duplex_axioms)

section \<open>The properties of HttpObfs\<close>

abbreviation http_session where
  "http_session b64 io \<equiv> poll_session (\<lambda>h n. Some (http_poll_read io h n)) (http_poll_write b64 io)
     (\<lambda>k h. if k then http_poll_shutdown io h else http_poll_flush io h)"

abbreviation http_reads where
  "http_reads io \<equiv> poll_reads (\<lambda>h n. Some (http_poll_read io h n))"

lemma http_framed_body:
  assumes "http_framed b64 host port w c" and "no_cr host" and "\<And>x. no_cr (b64 x)"
  shows "http_body w = c"
  using assms http_body_request by (metis http_framed_def)

text \<open>What the invariant says about the wire, of data \<open>a @ rest\<close> with \<open>b\<close> held back.\<close>

lemma http_accepted_wire:
  assumes "http_accepted good sent b64 host port h a b" and "prefix b rest"
    and "no_cr host" and "\<And>x. no_cr (b64 x)"
  shows "prefix (http_body (http_bound sent h)) (a @ rest) \<and>
    (rest = [] \<longrightarrow> a \<noteq> [] \<longrightarrow> http_body (sent (h_inner h)) = a)"
proof (cases "h_first_request h")
  case True
  then have "http_bound sent h = []" "a = []" using assms(1) by (auto simp: http_accepted_def)
  then show ?thesis by (simp add: http_body_def find_double_crlf_def)
next
  case False
  then have framed: "http_framed b64 host port (http_bound sent h) (a @ b)"
    using assms(1) by (simp add: http_accepted_def)
  have "http_bound sent h = sent (h_inner h)" if "b = []"
    using assms(1) that by (simp add: http_accepted_def http_bound_def split: if_splits)
  moreover have "http_body (http_bound sent h) = a @ b"
    by (rule http_framed_body[OF framed assms(3,4)])
  ultimately show ?thesis using assms(2) by (cases "rest = []") simp_all
qed

context async_stream
begin

lemma http_session_contract:
  assumes "good s" and "rcvd s = []" and "sent s = []"
    and "http_session b64 io es (http_new s host port) data False = Some (h, out, rest, held)"
  shows "http_read_inv good rcvd h \<and> http_delivered rcvd h = out \<and>
    (\<exists>a b. http_accepted good sent b64 host port h a b \<and> data = a @ rest \<and> prefix b rest)"
  using http_d.poll_session_duplex[where host = host and port = port, OF http_new_read_inv
      http_new_accepted _ _ assms(4)] assms(1-3) http_new_delivered[of rcvd s host port]
  by auto

end

context stream_reader
begin

lemma http_read_header_bound:
  assumes "http_read_header io h room = (h', r)" and "good (h_inner h)"
    and "length (h_response_scratch h) \<le> MAX_HEADER"
  shows "length (h_response_scratch h') \<le> MAX_HEADER + 1024 \<and>
    (MAX_HEADER < length (h_response_scratch h') \<longrightarrow> r = Ready (Err header_limit_error))"
  using assms
proof (induction "Suc MAX_HEADER - length (h_response_scratch h)" arbitrary: h rule: less_induct)
  case less
  from less.prems(1) show ?case
  proof (cases rule: http_read_headerE)
    case (idle s)
    then show ?thesis using less.prems(3) by (simp add: idle(3))
  next
    case (eof s)
    then show ?thesis using less.prems(3) by (simp add: eof(3))
  next
    case (limit s bs)
    have "length bs \<le> 1024" using reader.read_ok[OF less.prems(2), of 1024 s bs] limit(1) by simp
    with less.prems(3) show ?thesis by (simp add: limit(4,5))
  next
    case (again s bs)
    let ?h = "h\<lparr>h_inner := s, h_response_scratch := h_response_scratch h @ bs\<rparr>"
    have "good s" using reader.read_ok[OF less.prems(2), of 1024 s bs] again(1) by simp
    moreover have "Suc MAX_HEADER - length (h_response_scratch ?h)
        < Suc MAX_HEADER - length (h_response_scratch h)"
      using again(2,5) by (cases bs) auto
    ultimately show ?thesis using less.hyps[of ?h] again(4,5) by simp
  next
    case (body s bs i b n)
    then show ?thesis by (simp add: body(8))
  next
    case (fallthrough s bs i b s')
    then show ?thesis by (simp add: fallthrough(7))
  qed
qed

lemma http_poll_read_bound:
  assumes "http_poll_read io h room = (h', r)" and "good (h_inner h)"
    and "length (h_response_scratch h) \<le> MAX_HEADER"
  shows "length (h_response_scratch h') \<le> MAX_HEADER + 1024 \<and>
    (MAX_HEADER < length (h_response_scratch h') \<longrightarrow> r = Ready (Err header_limit_error))"
proof (cases "h_leftover_off h < length (h_leftover h) \<or> \<not> h_first_response h")
  case True
  then have "h_response_scratch h' = h_response_scratch h"
    using assms(1) by (auto simp: http_poll_read_def Let_def split: if_splits prod.splits)
  with assms(3) show ?thesis by simp
next
  case False
  with assms(1) have "http_read_header io h room = (h', r)" by (simp add: http_poll_read_def)
  from http_read_header_bound[OF this assms(2,3)] show ?thesis .
qed

lemma http_reads_end:
  assumes "good s" and "rcvd s = []"
    and "http_reads io (http_new s host port) ns = Some (h, out)"
    and "http_poll_read io h n = (h', Ready (Ok bs))"
  shows "length bs \<le> n \<and> (0 < n \<longrightarrow> bs = [] \<longrightarrow> eof (h_inner h'))"
proof -
  have inv: "http_read_inv good rcvd h"
    using http.poll_reads_rcvd[OF http_new_read_inv[of good s rcvd host port, OF assms(1,2)] assms(3)] by simp
  with http.read_ok[of h n h' bs] http.read_eof[of h n h'] assms(4) show ?thesis by auto
qed

end

context fed_stream
begin

lemma http_reads_fed:
  assumes "good s" and "rcvd s = []" and "http_fits (coming s)" and "0 < n"
    and "length (http_body (coming s)) \<le> k"
  shows "\<exists>h. http_reads io (http_new s host port) (replicate k n) = Some (h, http_body (coming s))"
proof -
  have new: "h_first_response (http_new s host port)" "h_response_scratch (http_new s host port) = []"
    "h_inner (http_new s host port) = s" by (simp_all add: http_new_def)
  have "http_fed_inv good rcvd coming (http_new s host port)"
    using http_new_read_inv[of good s rcvd host port] assms(1-3) by (simp add: http_fed_inv_def new)
  moreover have "http_coming coming (http_new s host port) = http_body (coming s)"
    by (simp add: http_coming_def new)
  ultimately show ?thesis using http_fed.poll_reads_coming[of "http_new s host port" n k] assms(4,5) by auto
qed

end

lemma http_session_correct:
  assumes "async_stream io good rcvd eof sent" and "good s" and "rcvd s = []" and "sent s = []"
    and "no_cr host" and "\<And>x. no_cr (b64 x)" and "data \<noteq> []"
    and "http_session b64 io es (http_new s host port) data False = Some (h, out, rest, held)"
  shows "out @ http_pending h = http_body (rcvd (h_inner h)) \<and>
    prefix (http_body (http_bound sent h)) data \<and>
    (rest = [] \<longrightarrow> http_body (sent (h_inner h)) = data)"
proof -
  note run = async_stream.http_session_contract[OF assms(1-4,8)]
  then obtain a b where "http_accepted good sent b64 host port h a b" "data = a @ rest" "prefix b rest"
    by blast
  with http_accepted_wire[OF this(1,3) assms(5,6)] http_delivered_pending[of good rcvd h] run assms(7)
  show ?thesis by auto
qed


definition sample_http_draw :: http_draw where
  "sample_http_draw = \<lparr>key_byte = \<lambda>i. of_nat i, ua_major = 57, ua_minor = 3\<rparr>"

definition sample_http_response :: bytes where
  "sample_http_response = as_bytes (''101'' @ crlf @ ''A: b'' @ crlf @ crlf @ ''hi'')"

definition sample_http_peer :: script where
  "sample_http_peer =
     script_of [Data (take 6 sample_http_response), Read_Pending, Data (drop 6 sample_http_response),
       Data [33], Eof] [Write_Pending, Accept 5]"

lemma sample_http_run:
  "map_option (\<lambda>(h, out, rest, held). (out, rest, held))
     (http_session (\<lambda>_. ''key'') script_ops
        [Poll_Read 8, Poll_Flush, Poll_Read 1, Poll_Read 8, Poll_Read 8, Poll_Write sample_http_draw,
         Poll_Flush, Poll_Write sample_http_draw]
        (http_new sample_http_peer ''h'' 81) [1, 2, 3] False)
   = Some ([104, 105, 33], [], False)"
  by code_simp


text \<open>
  C15: a peer that has sent a response, in pieces of any size, and then falls silent: polled with
  any non-empty buffer, \<open>HttpObfs\<close> hands out the whole body and nothing else, in at most as many
  polls as the body has bytes, provided that the header ends within the first 16 KiB.
\<close>

theorem http_delivers_body:
  assumes "fed_stream io good rcvd eof coming" and "good s" and "rcvd s = []"
    and "http_fits (coming s)" and "0 < n" and "length (http_body (coming s)) \<le> k"
  shows "\<exists>h. http_reads io (http_new s host port) (replicate k n) = Some (h, http_body (coming s))"
  by (rule fed_stream.http_reads_fed[OF assms])

lemma sample_response_body:
  "http_fits sample_http_response" "http_body sample_http_response = [104, 105]"
  by code_simp+

theorem http_delivers_body_witness:
  "\<exists>h. http_reads script_ops
     (http_new (script_of [Data (take 6 sample_http_response), Data (drop 6 sample_http_response)] []) ''h'' 81)
     (replicate 2 1) = Some (h, [104, 105])"
proof -
  let ?s = "script_of [Data (take 6 sample_http_response), Data (drop 6 sample_http_response)] []"
  have "length sample_http_response = 15" by code_simp
  then have "only_data (rx ?s)" "script_coming (rx ?s) = sample_http_response" "taken ?s = []"
    by (auto simp: script_of_def simp flip: length_0_conv)
  with http_delivers_body[OF script_fed.fed_stream_axioms, of ?s 1 2 "''h''" 81] sample_response_body
  show ?thesis by simp
qed

text \<open>
  C16: an empty read into a non-empty buffer, which a caller takes for the end of the stream, is
  reported only when the transport below has reached its end, after any sequence of polls; and
  no read exceeds the buffer. (\<open>copy_bidirectional\<close> would close the connection otherwise: the
  comment on the deviation from the upstream source in \<open>poll_read\<close>.)
\<close>

theorem http_no_false_eof:
  assumes "stream_reader io good rcvd eof" and "good s" and "rcvd s = []"
    and "http_reads io (http_new s host port) ns = Some (h, out)"
    and "http_poll_read io h n = (h', Ready (Ok bs))"
  shows "length bs \<le> n \<and> (0 < n \<longrightarrow> bs = [] \<longrightarrow> eof (h_inner h'))"
  by (rule stream_reader.http_reads_end[OF assms])

definition sample_http_headers :: bytes where
  "sample_http_headers = take 13 sample_http_response"

lemma sample_http_eof:
  "http_reads script_ops (http_new (script_of [Data sample_http_headers, Read_Pending, Eof] []) ''h'' 81) [8]
     = Some (http_new (script_of [] []) ''h'' 81
         \<lparr>h_inner := (script_of [Eof] [])\<lparr>taken := sample_http_headers\<rparr>, h_first_response := False\<rparr>, [])"
  "http_poll_read script_ops (http_new (script_of [] []) ''h'' 81
         \<lparr>h_inner := (script_of [Eof] [])\<lparr>taken := sample_http_headers\<rparr>, h_first_response := False\<rparr>) 8
     = (http_new (script_of [] []) ''h'' 81
         \<lparr>h_inner := (script_of [Eof] [])\<lparr>taken := sample_http_headers, ended := True\<rparr>,
          h_first_response := False\<rparr>, Ready (Ok []))"
  by code_simp+

theorem http_no_false_eof_witness:
  "ended (h_inner (fst (http_poll_read script_ops (http_new (script_of [] []) ''h'' 81
         \<lparr>h_inner := (script_of [Eof] [])\<lparr>taken := sample_http_headers\<rparr>, h_first_response := False\<rparr>) 8)))"
  unfolding sample_http_eof(2) fst_conv
  using http_no_false_eof[OF script_finite.stream_reader_axioms _ _ sample_http_eof]
  by (simp add: script_of_def)



text \<open>
  C26: a server reads the fake request as it is meant. Its header ends where the request's body
  starts, also when more bytes follow, and the last header line announces the body's length.
  The host, and the base64 text, must not contain a carriage return.
\<close>

theorem http_request_decodes:
  assumes "no_cr host" and "no_cr (b64 (fill_bytes (key_byte d) 16))"
  shows "\<exists>i. find_double_crlf (build_http_request b64 d host port body @ ext) = Some i \<and>
    drop (i + 4) (build_http_request b64 d host port body @ ext) = body @ ext \<and>
    suffix (as_bytes (crlf @ ''Content-Length: '' @ dec (length body)))
      (take i (build_http_request b64 d host port body @ ext)) \<and>
    prefix (as_bytes (''GET / HTTP/1.1'' @ crlf @ ''Host: '' @ host_header host port @ crlf))
      (build_http_request b64 d host port body @ ext)"
proof -
  let ?head = "http_request_head b64 d host port (length body)"
  obtain pre line where head: "?head = line @ crlf @ crlf"
    and line: "line = pre @ crlf @ ''Content-Length: '' @ dec (length body)"
    by (simp add: http_request_head_def)
  define i where "i = length ?head - 4"
  have len: "length ?head = i + 4" "length line = i" by (simp_all add: i_def head)
  then have "take i (as_bytes ?head) = as_bytes line" by (simp add: head)
  then have "suffix (as_bytes (crlf @ ''Content-Length: '' @ dec (length body))) (take i (as_bytes ?head))"
    by (auto simp: suffix_def line)
  moreover have "prefix (as_bytes (''GET / HTTP/1.1'' @ crlf @ ''Host: '' @ host_header host port @ crlf))
      (as_bytes ?head)"
    unfolding http_request_head_def prefix_def
    by (simp only: as_bytes_append append_assoc) blast
  moreover have "length (as_bytes ?head) = i + 4" using len by simp
  moreover have "find_double_crlf (as_bytes ?head @ body @ ext) = Some i"
    using find_double_crlf_request[of host b64 d port body ext, OF assms]
    by (simp only: i_def build_http_request_def append_assoc)
  ultimately show ?thesis
    unfolding build_http_request_def append_assoc
    by (intro exI[of _ i] conjI) (simp_all only: take_append drop_append prefix_prefix, simp_all)
qed

theorem http_request_decodes_witness:
  "\<exists>i. find_double_crlf (build_http_request (\<lambda>_. ''key'') sample_http_draw ''h'' 81 [1, 2]) = Some i \<and>
     drop (i + 4) (build_http_request (\<lambda>_. ''key'') sample_http_draw ''h'' 81 [1, 2]) = [1, 2]"
  using http_request_decodes[of "''h''" "\<lambda>_. ''key''" sample_http_draw 81 "[1, 2]" "[]"]
  by (auto simp: no_cr_def)

text \<open>
  When a flush or a shutdown succeeds, every byte that was framed and waiting is on the wire,
  after what was sent before, and the buffer is empty.
\<close>

theorem http_close_sends_all:
  assumes "async_stream io good rcvd eof sent" and "good (h_inner h)"
    and "(if k then http_poll_shutdown io h else http_poll_flush io h) = (h', Ready (Ok u))"
  shows "sent (h_inner h') = sent (h_inner h) @ drop (h_write_buf_off h) (h_write_buf h) \<and>
    h_write_buf h' = []"
  using async_stream.http_poll_close_sends[OF assms(1,3,2)] by (auto simp: http_bound_def)

theorem http_close_sends_all_witness:
  "wire (h_inner (fst (http_poll_shutdown script_ops
     ((http_new (script_of [] [Accept 1]) ''h'' 81)\<lparr>h_write_buf := [7, 8, 9], h_write_buf_off := 1\<rparr>))))
   = [8, 9]"
proof -
  let ?h = "(http_new (script_of [] [Accept 1]) ''h'' 81)\<lparr>h_write_buf := [7, 8, 9], h_write_buf_off := 1\<rparr>"
  have "snd (http_poll_shutdown script_ops ?h) = Ready (Ok ())" by code_simp
  then have "(if True then http_poll_shutdown script_ops ?h else http_poll_flush script_ops ?h)
      = (fst (http_poll_shutdown script_ops ?h), Ready (Ok ()))" by (metis prod.collapse)
  from http_close_sends_all[OF script_stream.async_stream_axioms _ this] show ?thesis
    by (simp add: http_new_def script_of_def)
qed

text \<open>
  C30: flushing while a write is outstanding breaks the count of accepted bytes. A first write
  that is pending has framed its data; a flush that then succeeds sends the frame, and the
  caller's retry of the same data, which it must make because nothing was accepted, sends it
  again. (\<open>copy_bidirectional\<close> never flushes at that point, so the relay sessions above are not affected.)
\<close>

theorem http_flush_then_retry_duplicates:
  "\<exists>h1 h2 h3.
     http_poll_write b64 script_ops d (http_new (script_of [] [Write_Pending]) host port) p = (h1, Pending) \<and>
     http_poll_flush script_ops h1 = (h2, Ready (Ok ())) \<and>
     http_poll_write b64 script_ops d' h2 p = (h3, Ready (Ok (length p))) \<and>
     wire (h_inner h3) = build_http_request b64 d host port p @ p"
proof -
  let ?req = "build_http_request b64 d host port p"
  let ?h = "(http_new (script_of [] []) host port)\<lparr>h_first_request := False, h_pending_input := length p\<rparr>"
  let ?s = "(script_of [] [])\<lparr>wire := ?req\<rparr>"
  have "http_poll_write b64 script_ops d (http_new (script_of [] [Write_Pending]) host port) p
      = (?h\<lparr>h_write_buf := ?req\<rparr>, Pending)"
    by (simp add: http_poll_write_def http_poll_drain_write_buf_def http_new_def script_of_def
        poll_drain_held)
  moreover have "http_poll_flush script_ops (?h\<lparr>h_write_buf := ?req\<rparr>) = (?h\<lparr>h_inner := ?s\<rparr>, Ready (Ok ()))"
    by (simp add: http_poll_flush_def http_poll_drain_write_buf_def http_new_def script_of_def
        poll_drain_open)
  moreover have "http_poll_write b64 script_ops d' (?h\<lparr>h_inner := ?s\<rparr>) p
      = (?h\<lparr>h_inner := ?s\<lparr>wire := ?req @ p\<rparr>\<rparr>, Ready (Ok (length p)))"
    by (simp add: http_poll_write_def http_new_def script_of_def script_write_def)
  ultimately show ?thesis by (intro exI conjI) (assumption+, simp)
qed

end
