(* ===== verification/Obfs_Tls.thy ===== *)
theory Obfs_Tls
  imports Obfs_Drain
begin

text \<open>
  \<open>TlsObfs<S>\<close> of \<open>src/native/sslocal-ffi/src/obfs.rs\<close>: the state of the wrapper, the fake
  ClientHello, and the four poll operations, over any transport \<open>io\<close>. The second half is about
  reading: the record decoder as a function of the whole byte stream, and the proof that the
  phase machine computes it however the transport cuts the stream.

  The random bytes and the clock a call may consult are its argument \<open>d\<close>. Sixteen-bit lengths
  are computed as in a release build, where \<open>+\<close> on \<open>u16\<close> wraps around.
\<close>

section \<open>State\<close>

definition TLS_CHUNK_SIZE :: nat where
  "TLS_CHUNK_SIZE = 16384"

definition TLS_FIRST_RESPONSE_DISCARD :: nat where
  "TLS_FIRST_RESPONSE_DISCARD = 105"

definition TLS_RECORD_HEADER_DISCARD :: nat where
  "TLS_RECORD_HEADER_DISCARD = 3"

datatype tls_read_phase = Discard nat | Length | Payload nat

record 's tls_obfs =
  t_inner :: 's
  t_server :: string
  t_first_response :: bool
  t_read_phase :: tls_read_phase
  t_len_buf :: bytes
  t_len_progress :: nat
  t_first_request :: bool
  t_write_buf :: bytes
  t_write_buf_off :: nat
  t_pending_input :: nat

definition tls_new :: "'s \<Rightarrow> string \<Rightarrow> 's tls_obfs" where
  "tls_new inner server =
     \<lparr>t_inner = inner, t_server = server,
      t_first_response = True, t_read_phase = Discard TLS_FIRST_RESPONSE_DISCARD,
      t_len_buf = [0, 0], t_len_progress = 0,
      t_first_request = True, t_write_buf = [], t_write_buf_off = 0, t_pending_input = 0\<rparr>"

section \<open>The ClientHello\<close>

record tls_draw =
  random_byte :: "nat \<Rightarrow> u8"
  session_byte :: "nat \<Rightarrow> u8"
  unix_secs :: "nat option"

definition cipher_suites :: bytes where
  "cipher_suites =
     [0xc0, 0x2c, 0xc0, 0x30, 0x00, 0x9f, 0xcc, 0xa9, 0xcc, 0xa8, 0xcc, 0xaa, 0xc0, 0x2b, 0xc0,
      0x2f, 0x00, 0x9e, 0xc0, 0x24, 0xc0, 0x28, 0x00, 0x6b, 0xc0, 0x23, 0xc0, 0x27, 0x00, 0x67,
      0xc0, 0x0a, 0xc0, 0x14, 0x00, 0x39, 0xc0, 0x09, 0xc0, 0x13, 0x00, 0x33, 0x00, 0x9d, 0x00,
      0x9c, 0x00, 0x3d, 0x00, 0x3c, 0x00, 0x35, 0x00, 0x2f, 0x00, 0xff]"

text \<open>
  The buffer up to the session ticket's data (\<open>hello_front\<close>) and after it (\<open>hello_back\<close>).
\<close>

definition hello_front :: "tls_draw \<Rightarrow> nat \<Rightarrow> nat \<Rightarrow> bytes" where
  "hello_front d data_len server_len =
     (let record_len = 212 + of_nat data_len + of_nat server_len :: u16;
          handshake_len = 208 + of_nat data_len + of_nat server_len :: u16;
          now = (case unix_secs d of None \<Rightarrow> 0 | Some secs \<Rightarrow> of_nat secs) :: u32;
          ext_len = 79 + of_nat data_len + of_nat server_len :: u16
      in [0x16] @ [0x03, 0x01] @ u16_to_be record_len @
         [0x01] @ [0x00] @ u16_to_be handshake_len @
         [0x03, 0x03] @
         u32_to_be now @ fill_bytes (random_byte d) 28 @
         [32] @ fill_bytes (session_byte d) 32 @
         [0x00, 0x38] @ cipher_suites @
         [0x01, 0x00] @
         u16_to_be ext_len @
         [0x00, 0x23] @ u16_to_be (of_nat data_len))"

definition hello_back :: "string \<Rightarrow> bytes" where
  "hello_back server =
     (let server_len = of_nat (length server) :: u16
      in [0x00, 0x00] @ u16_to_be (server_len + 5) @ u16_to_be (server_len + 3) @ [0x00] @
         u16_to_be server_len @ as_bytes server @
         [0x00, 0x0b, 0x00, 0x04, 0x03, 0x01, 0x00, 0x02] @
         [0x00, 0x0a, 0x00, 0x0a, 0x00, 0x08, 0x00, 0x1d, 0x00, 0x17, 0x00, 0x19, 0x00, 0x18] @
         [0x00, 0x0d, 0x00, 0x20, 0x00, 0x1e, 0x06, 0x01, 0x06, 0x02, 0x06, 0x03, 0x05, 0x01, 0x05,
          0x02, 0x05, 0x03, 0x04, 0x01, 0x04, 0x02, 0x04, 0x03, 0x03, 0x01, 0x03, 0x02, 0x03, 0x03,
          0x02, 0x01, 0x02, 0x02, 0x02, 0x03] @
         [0x00, 0x16, 0x00, 0x00] @
         [0x00, 0x17, 0x00, 0x00])"

definition build_client_hello :: "tls_draw \<Rightarrow> bytes \<Rightarrow> string \<Rightarrow> bytes" where
  "build_client_hello d data server =
     hello_front d (length data) (length server) @ data @ hello_back server"

definition tls_app_record :: "bytes \<Rightarrow> bytes" where
  "tls_app_record chunk = [0x17, 0x03, 0x03] @ u16_to_be (of_nat (length chunk)) @ chunk"

section \<open>The poll operations\<close>

definition tls_poll_drain_write_buf ::
  "'s stream_ops \<Rightarrow> 's tls_obfs \<Rightarrow> 's tls_obfs \<times> unit io_result poll" where
  "tls_poll_drain_write_buf io t =
     (case poll_drain (op_write io) (t_inner t) (t_write_buf t) (t_write_buf_off t) of
        (s, buf, off, r) \<Rightarrow> (t\<lparr>t_inner := s, t_write_buf := buf, t_write_buf_off := off\<rparr>, r))"

text \<open>
  One turn of the loop of \<open>poll_read\<close>: \<open>Inl\<close> goes round again, \<open>Inr\<close> returns. \<open>room\<close> is
  \<open>buf.remaining()\<close>.
\<close>

definition tls_read_turn ::
  "'s stream_ops \<Rightarrow> 's tls_obfs \<Rightarrow> nat \<Rightarrow> 's tls_obfs + ('s tls_obfs \<times> bytes io_result poll)" where
  "tls_read_turn io t room =
     (case t_read_phase t of
        Discard remaining \<Rightarrow>
          if remaining = 0 then Inl (t\<lparr>t_read_phase := Length, t_len_progress := 0\<rparr>)
          else (case op_read io (t_inner t) (min remaining 256) of
              (s, Pending) \<Rightarrow> Inr (t\<lparr>t_inner := s\<rparr>, Pending)
            | (s, Ready (Inl e)) \<Rightarrow> Inr (t\<lparr>t_inner := s\<rparr>, Ready (Err e))
            | (s, Ready (Inr bs)) \<Rightarrow>
                if bs = [] then Inr (t\<lparr>t_inner := s\<rparr>, Ready (Ok []))
                else Inl (t\<lparr>t_inner := s, t_read_phase := Discard (remaining - length bs)\<rparr>))
      | Length \<Rightarrow>
          if 2 \<le> t_len_progress t
          then Inl (t\<lparr>t_read_phase :=
                 Payload (unat (u16_from_be (t_len_buf t ! 0) (t_len_buf t ! 1)))\<rparr>)
          else (case op_read io (t_inner t) (2 - t_len_progress t) of
              (s, Pending) \<Rightarrow> Inr (t\<lparr>t_inner := s\<rparr>, Pending)
            | (s, Ready (Inl e)) \<Rightarrow> Inr (t\<lparr>t_inner := s\<rparr>, Ready (Err e))
            | (s, Ready (Inr bs)) \<Rightarrow>
                if bs = [] then Inr (t\<lparr>t_inner := s\<rparr>, Ready (Ok []))
                else Inl (t\<lparr>t_inner := s,
                   t_len_buf := take (t_len_progress t) (t_len_buf t) @ bs @
                     drop (t_len_progress t + length bs) (t_len_buf t),
                   t_len_progress := t_len_progress t + length bs\<rparr>))
      | Payload remaining \<Rightarrow>
          if remaining = 0
          then Inl (t\<lparr>t_read_phase := Discard TLS_RECORD_HEADER_DISCARD, t_first_response := False\<rparr>)
          else
            let space = min room remaining in
            if space = 0 then Inr (t, Ready (Ok []))
            else (case op_read io (t_inner t) space of
                (s, Pending) \<Rightarrow> Inr (t\<lparr>t_inner := s\<rparr>, Pending)
              | (s, Ready (Inl e)) \<Rightarrow> Inr (t\<lparr>t_inner := s\<rparr>, Ready (Err e))
              | (s, Ready (Inr bs)) \<Rightarrow>
                  if bs = [] then Inr (t\<lparr>t_inner := s\<rparr>, Ready (Ok []))
                  else Inr (t\<lparr>t_inner := s, t_read_phase := Payload (remaining - length bs)\<rparr>,
                            Ready (Ok bs))))"

partial_function (option) tls_poll_read ::
  "'s stream_ops \<Rightarrow> 's tls_obfs \<Rightarrow> nat \<Rightarrow> ('s tls_obfs \<times> bytes io_result poll) option" where
  "tls_poll_read io t room =
     (case tls_read_turn io t room of
        Inl t' \<Rightarrow> tls_poll_read io t' room
      | Inr result \<Rightarrow> Some result)"

declare tls_poll_read.simps [code]

definition tls_poll_write ::
  "'s stream_ops \<Rightarrow> tls_draw \<Rightarrow> 's tls_obfs \<Rightarrow> bytes \<Rightarrow> 's tls_obfs \<times> nat io_result poll" where
  "tls_poll_write io d t buf =
     (if t_write_buf t \<noteq> [] then
        (case tls_poll_drain_write_buf io t of
           (t', Pending) \<Rightarrow> (t', Pending)
         | (t', Ready (Inl e)) \<Rightarrow> (t', Ready (Err e))
         | (t', Ready (Inr _)) \<Rightarrow> (t'\<lparr>t_pending_input := 0\<rparr>, Ready (Ok (t_pending_input t'))))
      else if buf = [] then (t, Ready (Ok 0))
      else
        let n = min (length buf) TLS_CHUNK_SIZE;
            chunk = take n buf;
            t1 = (if t_first_request t
                  then t\<lparr>t_first_request := False,
                         t_write_buf := build_client_hello d chunk (t_server t)\<rparr>
                  else t\<lparr>t_write_buf := tls_app_record chunk\<rparr>)
        in (case tls_poll_drain_write_buf io (t1\<lparr>t_write_buf_off := 0, t_pending_input := n\<rparr>) of
              (t', Ready (Inr _)) \<Rightarrow> (t'\<lparr>t_pending_input := 0\<rparr>, Ready (Ok (t_pending_input t')))
            | (t', Ready (Inl e)) \<Rightarrow> (t', Ready (Err e))
            | (t', Pending) \<Rightarrow> (t', Pending)))"

definition tls_poll_flush ::
  "'s stream_ops \<Rightarrow> 's tls_obfs \<Rightarrow> 's tls_obfs \<times> unit io_result poll" where
  "tls_poll_flush io t =
     (case (if t_write_buf t \<noteq> [] then tls_poll_drain_write_buf io t else (t, Ready (Ok ()))) of
        (t', Ready (Inr _)) \<Rightarrow>
          (case op_flush io (t_inner t') of (s, r) \<Rightarrow> (t'\<lparr>t_inner := s\<rparr>, r))
      | (t', Ready (Inl e)) \<Rightarrow> (t', Ready (Err e))
      | (t', Pending) \<Rightarrow> (t', Pending))"

definition tls_poll_shutdown ::
  "'s stream_ops \<Rightarrow> 's tls_obfs \<Rightarrow> 's tls_obfs \<times> unit io_result poll" where
  "tls_poll_shutdown io t =
     (case (if t_write_buf t \<noteq> [] then tls_poll_drain_write_buf io t else (t, Ready (Ok ()))) of
        (t', Ready (Inr _)) \<Rightarrow>
          (case op_shutdown io (t_inner t') of (s, r) \<Rightarrow> (t'\<lparr>t_inner := s\<rparr>, r))
      | (t', Ready (Inl e)) \<Rightarrow> (t', Ready (Err e))
      | (t', Pending) \<Rightarrow> (t', Pending))"

section \<open>The byte stream as records\<close>

text \<open>
  The specification of reading. \<open>tls_frames\<close> decodes a stream that starts at a length field:
  length, payload, and the three bytes before the next length. \<open>tls_payload\<close> is the whole
  stream, whose first 105 bytes are the server's fake handshake.
\<close>

function tls_frames :: "bytes \<Rightarrow> bytes" where
  "tls_frames (a # b # w) =
     (let n = unat (u16_from_be a b) in take n w @ tls_frames (drop (n + 3) w))"
| "tls_frames [] = []"
| "tls_frames [a] = []"
  by pat_completeness auto
termination
  by (relation "measure length") auto

definition tls_payload :: "bytes \<Rightarrow> bytes" where
  "tls_payload w = tls_frames (drop 105 w)"

text \<open>What a wrapper in the middle of the stream will hand out if \<open>w\<close> comes next.\<close>

definition tls_rest :: "'s tls_obfs \<Rightarrow> bytes \<Rightarrow> bytes" where
  "tls_rest t w =
     (case t_read_phase t of
        Discard k \<Rightarrow> tls_frames (drop k w)
      | Length \<Rightarrow> tls_frames (take (t_len_progress t) (t_len_buf t) @ w)
      | Payload k \<Rightarrow> take k w @ tls_frames (drop (k + 3) w))"

definition tls_wf :: "'s tls_obfs \<Rightarrow> bool" where
  "tls_wf t \<longleftrightarrow> t_len_progress t \<le> 2 \<and> length (t_len_buf t) = 2"

lemma tls_new_wf: "tls_wf (tls_new s server)"
  by (simp add: tls_wf_def tls_new_def)

lemma tls_new_rest: "tls_rest (tls_new s server) w = tls_payload w"
  by (simp add: tls_rest_def tls_new_def tls_payload_def TLS_FIRST_RESPONSE_DISCARD_def)

lemma tls_frames_short: "length w \<le> 2 \<Longrightarrow> tls_frames w = []"
  by (cases w rule: tls_frames.cases) (auto simp: Let_def)

lemma tls_rest_Nil: "tls_wf t \<Longrightarrow> tls_rest t [] = []"
  by (auto simp: tls_rest_def tls_wf_def tls_frames_short split: tls_read_phase.splits)

section \<open>Reading computes the decoder\<close>

text \<open>The turns that go round again, and the turns that return.\<close>

lemma tls_read_turn_Inl:
  assumes "tls_read_turn io t room = Inl t'"
  obtains
    (discarded) "t_read_phase t = Discard 0" "t' = t\<lparr>t_read_phase := Length, t_len_progress := 0\<rparr>"
  | (discarding) k s bs where "t_read_phase t = Discard k" "0 < k"
      "op_read io (t_inner t) (min k 256) = (s, Ready (Ok bs))" "bs \<noteq> []"
      "t' = t\<lparr>t_inner := s, t_read_phase := Discard (k - length bs)\<rparr>"
  | (length_known) "t_read_phase t = Length" "2 \<le> t_len_progress t"
      "t' = t\<lparr>t_read_phase := Payload (unat (u16_from_be (t_len_buf t ! 0) (t_len_buf t ! 1)))\<rparr>"
  | (length_more) s bs where "t_read_phase t = Length" "t_len_progress t < 2"
      "op_read io (t_inner t) (2 - t_len_progress t) = (s, Ready (Ok bs))" "bs \<noteq> []"
      "t' = t\<lparr>t_inner := s,
              t_len_buf := take (t_len_progress t) (t_len_buf t) @ bs @
                drop (t_len_progress t + length bs) (t_len_buf t),
              t_len_progress := t_len_progress t + length bs\<rparr>"
  | (frame_done) "t_read_phase t = Payload 0"
      "t' = t\<lparr>t_read_phase := Discard TLS_RECORD_HEADER_DISCARD, t_first_response := False\<rparr>"
proof (cases "t_read_phase t")
  case (Discard k)
  show ?thesis
  proof (cases "k = 0")
    case True
    with assms Discard show ?thesis by (intro discarded) (simp_all add: tls_read_turn_def)
  next
    case False
    obtain s p where step: "op_read io (t_inner t) (min k 256) = (s, p)"
      by (cases "op_read io (t_inner t) (min k 256)")
    with assms Discard False obtain bs where "p = Ready (Ok bs)" "bs \<noteq> []"
      "t' = t\<lparr>t_inner := s, t_read_phase := Discard (k - length bs)\<rparr>"
      by (cases p rule: poll_cases) (auto simp: tls_read_turn_def split: if_splits)
    with Discard False step show ?thesis by (intro discarding[of k s bs]) simp_all
  qed
next
  case Length
  show ?thesis
  proof (cases "2 \<le> t_len_progress t")
    case True
    with assms Length show ?thesis by (intro length_known) (simp_all add: tls_read_turn_def)
  next
    case False
    obtain s p where step: "op_read io (t_inner t) (2 - t_len_progress t) = (s, p)"
      by (cases "op_read io (t_inner t) (2 - t_len_progress t)")
    with assms Length False obtain bs where "p = Ready (Ok bs)" "bs \<noteq> []"
      "t' = t\<lparr>t_inner := s,
              t_len_buf := take (t_len_progress t) (t_len_buf t) @ bs @
                drop (t_len_progress t + length bs) (t_len_buf t),
              t_len_progress := t_len_progress t + length bs\<rparr>"
      by (cases p rule: poll_cases) (auto simp: tls_read_turn_def split: if_splits)
    with Length False step show ?thesis by (intro length_more[of s bs]) simp_all
  qed
next
  case (Payload k)
  have "k = 0"
  proof (rule ccontr)
    assume "k \<noteq> 0"
    with assms Payload show False
      by (auto simp: tls_read_turn_def Let_def split: if_splits prod.splits poll.splits sum.splits)
  qed
  with assms Payload show ?thesis by (intro frame_done) (simp_all add: tls_read_turn_def)
qed

lemma tls_read_turn_Inr:
  assumes "tls_read_turn io t room = Inr (t', r)"
  obtains
    (idle) n s where "0 < n" "op_read io (t_inner t) n = (s, r)" "\<not> ready_ok r" "t' = t\<lparr>t_inner := s\<rparr>"
  | (eof) n s where "0 < n" "op_read io (t_inner t) n = (s, Ready (Ok []))" "r = Ready (Ok [])"
      "t' = t\<lparr>t_inner := s\<rparr>"
  | (full) "room = 0" "t' = t" "r = Ready (Ok [])"
  | (data) k s bs where "t_read_phase t = Payload k" "0 < k" "0 < room"
      "op_read io (t_inner t) (min room k) = (s, Ready (Ok bs))" "bs \<noteq> []" "r = Ready (Ok bs)"
      "t' = t\<lparr>t_inner := s, t_read_phase := Payload (k - length bs)\<rparr>"
proof (cases "t_read_phase t")
  case (Discard k)
  with assms have "k \<noteq> 0" by (auto simp: tls_read_turn_def split: if_splits)
  obtain s p where step: "op_read io (t_inner t) (min k 256) = (s, p)"
    by (cases "op_read io (t_inner t) (min k 256)")
  show ?thesis
  proof (cases p rule: poll_cases)
    case (ok bs)
    with assms Discard \<open>k \<noteq> 0\<close> step show ?thesis
      by (intro eof[of "min k 256" s]) (auto simp: tls_read_turn_def split: if_splits)
  qed (use assms Discard \<open>k \<noteq> 0\<close> step in
      \<open>intro idle[of "min k 256" s], auto simp: tls_read_turn_def\<close>)+
next
  case Length
  with assms have "t_len_progress t < 2" by (auto simp: tls_read_turn_def split: if_splits)
  obtain s p where step: "op_read io (t_inner t) (2 - t_len_progress t) = (s, p)"
    by (cases "op_read io (t_inner t) (2 - t_len_progress t)")
  show ?thesis
  proof (cases p rule: poll_cases)
    case (ok bs)
    with assms Length \<open>t_len_progress t < 2\<close> step show ?thesis
      by (intro eof[of "2 - t_len_progress t" s]) (auto simp: tls_read_turn_def split: if_splits)
  qed (use assms Length \<open>t_len_progress t < 2\<close> step in
      \<open>intro idle[of "2 - t_len_progress t" s], auto simp: tls_read_turn_def\<close>)+
next
  case (Payload k)
  with assms have "k \<noteq> 0" by (auto simp: tls_read_turn_def split: if_splits)
  show ?thesis
  proof (cases "room = 0")
    case True
    with assms Payload \<open>k \<noteq> 0\<close> show ?thesis by (intro full) (auto simp: tls_read_turn_def)
  next
    case False
    obtain s p where step: "op_read io (t_inner t) (min room k) = (s, p)"
      by (cases "op_read io (t_inner t) (min room k)")
    have "min room k \<noteq> 0" using False \<open>k \<noteq> 0\<close> by simp
    with \<open>k \<noteq> 0\<close> have res: "(case p of
          Pending \<Rightarrow> Inr (t\<lparr>t_inner := s\<rparr>, Pending)
        | Ready (Inl e) \<Rightarrow> Inr (t\<lparr>t_inner := s\<rparr>, Ready (Err e))
        | Ready (Inr bs) \<Rightarrow>
            if bs = [] then Inr (t\<lparr>t_inner := s\<rparr>, Ready (Ok []))
            else Inr (t\<lparr>t_inner := s, t_read_phase := Payload (k - length bs)\<rparr>, Ready (Ok bs)))
        = tls_read_turn io t room"
      by (simp only: tls_read_turn_def Payload tls_read_phase.case Let_def step prod.case
          if_False)
    note res = res[unfolded assms]
    show ?thesis
    proof (cases p rule: poll_cases)
      case (ok bs)
      show ?thesis
      proof (cases "bs = []")
        case True
        with res False \<open>k \<noteq> 0\<close> ok step show ?thesis by (intro eof[of "min room k" s]) auto
      next
        case some: False
        with res False \<open>k \<noteq> 0\<close> ok step Payload show ?thesis by (intro data[of k s bs]) auto
      qed
    qed (use res False \<open>k \<noteq> 0\<close> step in \<open>intro idle[of "min room k" s], auto\<close>)+
  qed
qed

text \<open>
  The invariant between polls, and the two one-turn lemmas: what a turn consumes (\<open>cs\<close>) and
  hands out is what the decoder of the remaining stream says.
\<close>

definition tls_read_inv :: "('s \<Rightarrow> bool) \<Rightarrow> ('s \<Rightarrow> bytes) \<Rightarrow> 's tls_obfs \<Rightarrow> bool" where
  "tls_read_inv good rcvd t \<longleftrightarrow>
     good (t_inner t) \<and> tls_wf t \<and>
     (\<forall>v. tls_payload (rcvd (t_inner t) @ v) = tls_payload (rcvd (t_inner t)) @ tls_rest t v)"

definition tls_delivered :: "('s \<Rightarrow> bytes) \<Rightarrow> 's tls_obfs \<Rightarrow> bytes" where
  "tls_delivered rcvd t = tls_payload (rcvd (t_inner t))"

lemma tls_new_read_inv: "\<lbrakk>good s; rcvd s = []\<rbrakk> \<Longrightarrow> tls_read_inv good rcvd (tls_new s server)"
  using tls_new_rest[of s server] tls_rest_Nil[OF tls_new_wf, of s server] tls_new_wf[of s server]
  by (simp add: tls_read_inv_def tls_new_def)

lemma tls_new_delivered: "rcvd s = [] \<Longrightarrow> tls_delivered rcvd (tls_new s server) = []"
  by (simp add: tls_delivered_def tls_new_def tls_payload_def)

lemma tls_read_inv_consume:
  assumes "tls_read_inv good rcvd t" and "good (t_inner t')" and "tls_wf t'"
    and "rcvd (t_inner t') = rcvd (t_inner t) @ cs"
    and "\<And>v. tls_rest t (cs @ v) = out @ tls_rest t' v"
  shows "tls_read_inv good rcvd t' \<and> tls_delivered rcvd t' = tls_delivered rcvd t @ out"
proof -
  have whole: "tls_payload (rcvd (t_inner t') @ v)
      = tls_payload (rcvd (t_inner t)) @ out @ tls_rest t' v" for v
    using assms(1,4,5) by (simp add: tls_read_inv_def)
  from whole[of "[]"] have "tls_payload (rcvd (t_inner t')) = tls_payload (rcvd (t_inner t)) @ out"
    by (simp add: tls_rest_Nil[OF assms(3)])
  with whole assms(2,3) show ?thesis by (simp add: tls_read_inv_def tls_delivered_def)
qed

context stream_reader
begin

text \<open>
  A turn that goes round again takes some bytes \<open>cs\<close>, maybe none, and hands out nothing.
\<close>

lemma tls_turn_consumes:
  assumes "tls_read_turn io t room = Inl t'" and good: "good (t_inner t)" and wf: "tls_wf t"
  obtains cs where "good (t_inner t')" "tls_wf t'" "rcvd (t_inner t') = rcvd (t_inner t) @ cs"
    "\<And>v. tls_rest t (cs @ v) = tls_rest t' v"
    "cs = [] \<and> t_inner t' = t_inner t \<or> (\<exists>n. op_read io (t_inner t) n = (t_inner t', Ready (Ok cs)))"
proof -
  have "\<exists>cs. good (t_inner t') \<and> tls_wf t' \<and> rcvd (t_inner t') = rcvd (t_inner t) @ cs \<and>
      (\<forall>v. tls_rest t (cs @ v) = tls_rest t' v) \<and>
      (cs = [] \<and> t_inner t' = t_inner t \<or> (\<exists>n. op_read io (t_inner t) n = (t_inner t', Ready (Ok cs))))"
    using assms(1)
  proof (cases rule: tls_read_turn_Inl)
    case discarded
    then show ?thesis using good wf by (intro exI[of _ "[]"]) (simp add: tls_rest_def tls_wf_def)
  next
    case (discarding k s bs)
    from reader.read_ok[OF good, of "min k 256" s bs] discarding(3)
    have "good s" "rcvd s = rcvd (t_inner t) @ bs" "length bs \<le> k" by auto
    then show ?thesis using wf discarding(1)
      by (intro exI[of _ bs]) (auto simp: tls_rest_def tls_wf_def discarding(5) intro!: exI[of _ "min k 256"] discarding(3))
  next
    case length_known
    then obtain a b where "t_len_buf t = [a, b]" "t_len_progress t = 2"
      using wf by (auto simp: tls_wf_def length_Suc_conv numeral_2_eq_2)
    then show ?thesis using good wf length_known
      by (intro exI[of _ "[]"]) (simp add: tls_rest_def tls_wf_def Let_def)
  next
    case (length_more s bs)
    from reader.read_ok[OF good, of "2 - t_len_progress t" s bs] length_more(3)
    have "good s" "rcvd s = rcvd (t_inner t) @ bs" "length bs \<le> 2 - t_len_progress t" by auto
    moreover from this(3) length_more(2)
    have "t_len_progress t + length bs \<le> 2" "min 2 (t_len_progress t) = t_len_progress t" by simp_all
    ultimately show ?thesis using wf length_more(1)
      by (intro exI[of _ bs]) (auto simp: tls_rest_def tls_wf_def length_more(5) intro!: exI[of _ "2 - t_len_progress t"] length_more(3))
  next
    case frame_done
    then show ?thesis using good wf
      by (intro exI[of _ "[]"]) (simp add: tls_rest_def tls_wf_def TLS_RECORD_HEADER_DISCARD_def)
  qed
  with that show ?thesis by blast
qed

lemma tls_turn_continues:
  assumes "tls_read_turn io t room = Inl t'" and "tls_read_inv good rcvd t"
  shows "tls_read_inv good rcvd t' \<and> tls_delivered rcvd t' = tls_delivered rcvd t"
proof -
  from assms(2) have "good (t_inner t)" "tls_wf t" by (auto simp: tls_read_inv_def)
  with assms(1) obtain cs where "good (t_inner t')" "tls_wf t'" "rcvd (t_inner t') = rcvd (t_inner t) @ cs"
    and rest: "\<And>v. tls_rest t (cs @ v) = tls_rest t' v" by (rule tls_turn_consumes) blast
  from tls_read_inv_consume[OF assms(2) this(1-3), of "[]"] rest show ?thesis by simp
qed

lemma tls_turn_returns:
  assumes "tls_read_turn io t room = Inr (t', r)" and "tls_read_inv good rcvd t"
  shows "tls_read_inv good rcvd t' \<and> tls_delivered rcvd t' = tls_delivered rcvd t @ poll_data r \<and>
    length (poll_data r) \<le> room \<and> (r = Ready (Ok []) \<longrightarrow> 0 < room \<longrightarrow> eof (t_inner t'))"
proof -
  from assms(2) have good: "good (t_inner t)" and wf: "tls_wf t" by (auto simp: tls_read_inv_def)
  have same: "tls_read_inv good rcvd t' \<and> tls_delivered rcvd t' = tls_delivered rcvd t"
    if "good s" "rcvd s = rcvd (t_inner t)" "t' = t\<lparr>t_inner := s\<rparr>" for s
    using tls_read_inv_consume[OF assms(2), of t' "[]" "[]"] that wf
    by (simp add: tls_wf_def tls_rest_def cong: tls_read_phase.case_cong)
  from assms(1) show ?thesis
  proof (cases rule: tls_read_turn_Inr)
    case (idle n s)
    with reader.read_idle[OF good, of n s r] same[of s] show ?thesis
      by (cases r rule: poll_cases) simp_all
  next
    case (eof n s)
    with reader.read_ok[OF good, of n s "[]"] reader.read_eof[OF good, of n s] same[of s]
    show ?thesis by simp
  next
    case full
    with assms(2) show ?thesis by simp
  next
    case (data k s bs)
    from reader.read_ok[OF good, of "min room k" s bs] data(4)
    have s: "good s" "rcvd s = rcvd (t_inner t) @ bs" "length bs \<le> room" "length bs \<le> k" by auto
    have "tls_rest t (bs @ v) = bs @ tls_rest t' v" for v
      using s(4) data(1) by (simp add: tls_rest_def data(7))
    with tls_read_inv_consume[OF assms(2), of t' bs bs] s wf data(5,6) show ?thesis
      by (simp add: data(7) tls_wf_def)
  qed
qed

end

end
