(* ===== verification/Obfs_Tls_Read.thy ===== *)
theory Obfs_Tls_Read
  imports Obfs_Tls
begin

text \<open>
  The loop of \<open>TlsObfs::poll_read\<close>: the reader contract, the termination of the loop when the
  transport has finitely many bytes at hand, and a peer for which it does not terminate.
\<close>

section \<open>The loop\<close>

lemma tls_poll_read_unfold:
  "tls_poll_read io t room =
     (case tls_read_turn io t room of Inl t' \<Rightarrow> tls_poll_read io t' room | Inr res \<Rightarrow> Some res)"
  by (rule tls_poll_read.simps)

text \<open>A property kept by every turn that goes round again holds where the loop returns.\<close>

lemma tls_poll_read_loop:
  assumes "tls_poll_read io t room = Some (t', r)" and "P t"
    and "\<And>u u'. \<lbrakk>P u; tls_read_turn io u room = Inl u'\<rbrakk> \<Longrightarrow> P u'"
  shows "\<exists>u. P u \<and> tls_read_turn io u room = Inr (t', r)"
proof -
  define Q where "Q = (\<lambda>jo t room' res. jo = io \<longrightarrow> room' = room \<longrightarrow> P t \<longrightarrow>
    (\<exists>u. P u \<and> tls_read_turn io u room = Inr res))"
  have "Q io t room (t', r)"
  proof (rule tls_poll_read.raw_induct[OF _ assms(1)])
    fix f jo t room' res
    assume hyp: "\<And>jo t room' res. f jo t room' = Some res \<Longrightarrow> Q jo t room' res"
      and eq: "(case tls_read_turn jo t room' of Inl t' \<Rightarrow> f jo t' room' | Inr x \<Rightarrow> Some x) = Some res"
    show "Q jo t room' res"
      unfolding Q_def
    proof (intro impI)
      assume "jo = io" "room' = room" "P t"
      with eq hyp assms(3) show "\<exists>u. P u \<and> tls_read_turn io u room = Inr res"
        by (cases "tls_read_turn io t room") (auto simp: Q_def)
    qed
  qed
  with assms(2) show ?thesis by (simp add: Q_def)
qed

context stream_reader
begin

lemma tls_poll_read_contract:
  assumes "tls_poll_read io t room = Some (t', r)" and "tls_read_inv good rcvd t"
  shows "tls_read_inv good rcvd t' \<and> tls_delivered rcvd t' = tls_delivered rcvd t @ poll_data r \<and>
    length (poll_data r) \<le> room \<and> (r = Ready (Ok []) \<longrightarrow> 0 < room \<longrightarrow> eof (t_inner t'))"
proof -
  let ?P = "\<lambda>u. tls_read_inv good rcvd u \<and> tls_delivered rcvd u = tls_delivered rcvd t"
  have "\<exists>u. ?P u \<and> tls_read_turn io u room = Inr (t', r)"
  proof (rule tls_poll_read_loop[OF assms(1)])
    show "?P u'" if "?P u" "tls_read_turn io u room = Inl u'" for u u'
      using tls_turn_continues[OF that(2)] that(1) by simp
  qed (use assms(2) in simp)
  then obtain u where "?P u" "tls_read_turn io u room = Inr (t', r)" by auto
  with tls_turn_returns[of u room t' r] show ?thesis by simp
qed

end

text \<open>
  The wrapper is a reader again: it hands out exactly the payloads of the records received, in
  order, and reports an empty read only at the transport's end of stream.
\<close>

sublocale stream_reader \<subseteq> tls: byte_reader "tls_poll_read io"
    "tls_read_inv good rcvd" "tls_delivered rcvd" "\<lambda>t. eof (t_inner t)"
proof unfold_locales
  fix t n t' bs
  assume "tls_read_inv good rcvd t" and "tls_poll_read io t n = Some (t', Ready (Ok bs))"
  then show "tls_read_inv good rcvd t' \<and> tls_delivered rcvd t' = tls_delivered rcvd t @ bs
      \<and> length bs \<le> n"
    using tls_poll_read_contract[of t n t'] by force
next
  fix t n t' r
  assume "tls_read_inv good rcvd t" and "tls_poll_read io t n = Some (t', r)" and "\<not> ready_ok r"
  then show "tls_read_inv good rcvd t' \<and> tls_delivered rcvd t' = tls_delivered rcvd t"
    using tls_poll_read_contract[of t n t' r] by (cases r rule: poll_cases) force+
next
  fix t n t'
  assume "tls_read_inv good rcvd t" and "0 < n" and "tls_poll_read io t n = Some (t', Ready (Ok []))"
  then show "eof (t_inner t')"
    using tls_poll_read_contract[of t n t'] by force
qed

interpretation tls_script: byte_reader "tls_poll_read script_ops"
    "tls_read_inv (\<lambda>_. True) taken" "tls_delivered taken" "\<lambda>t. ended (t_inner t)"
  by (rule script_finite.tls.byte_reader_axioms)

section \<open>Termination\<close>

text \<open>
  Turns that go round again either consume bytes the transport had at hand, or move the phase
  machine towards its next read: \<open>tls_rank\<close> counts the moves left before that.
\<close>

definition tls_rank :: "'s tls_obfs \<Rightarrow> nat" where
  "tls_rank t =
     (case t_read_phase t of
        Discard k \<Rightarrow> (if k = 0 then 1 else 0)
      | Length \<Rightarrow> (if 2 \<le> t_len_progress t then 2 else 0)
      | Payload k \<Rightarrow> (if k = 0 then 1 else 0))"

context finite_stream
begin

lemma tls_turn_decreases:
  assumes "tls_read_turn io t room = Inl t'" and "good (t_inner t)"
  shows "good (t_inner t') \<and> avail (t_inner t') \<le> avail (t_inner t) \<and>
    (avail (t_inner t') < avail (t_inner t) \<or> tls_rank t' < tls_rank t)"
  using assms(1)
proof (cases rule: tls_read_turn_Inl)
  case (discarding k s bs)
  from finite.read_ok[OF assms(2), of _ s bs] finite.read_progress[OF assms(2), of _ s bs] discarding(3,4)
  show ?thesis by (simp add: discarding(5) less_imp_le)
next
  case (length_more s bs)
  from finite.read_ok[OF assms(2), of _ s bs] finite.read_progress[OF assms(2), of _ s bs]
    length_more(3,4)
  show ?thesis by (simp add: length_more(5) less_imp_le)
qed (use assms(2) in \<open>simp_all add: tls_rank_def TLS_RECORD_HEADER_DISCARD_def\<close>)

lemma tls_poll_read_returns:
  assumes "good (t_inner t)"
  shows "\<exists>res. tls_poll_read io t room = Some res"
  using assms
proof (induction t rule: wf_induct[OF wf_measures[of "[\<lambda>t. avail (t_inner t), tls_rank]"]])
  case (1 t)
  show ?case
  proof (cases "tls_read_turn io t room")
    case (Inl t')
    with tls_turn_decreases[OF Inl 1(2)]
    have "\<exists>res. tls_poll_read io t' room = Some res" using 1(1) by (auto simp: le_less)
    with Inl show ?thesis by (simp add: tls_poll_read_unfold[of io t])
  next
    case (Inr res)
    then show ?thesis by (simp add: tls_poll_read_unfold[of io t])
  qed
qed

lemma tls_poll_read_avail:
  assumes "tls_poll_read io t room = Some (t', Ready (Ok bs))" and "good (t_inner t)"
  shows "avail (t_inner t') + length bs \<le> avail (t_inner t)"
proof -
  let ?P = "\<lambda>u. good (t_inner u) \<and> avail (t_inner u) \<le> avail (t_inner t)"
  have "\<exists>u. ?P u \<and> tls_read_turn io u room = Inr (t', Ready (Ok bs))"
  proof (rule tls_poll_read_loop[OF assms(1)])
    show "?P u'" if "?P u" "tls_read_turn io u room = Inl u'" for u u'
      using tls_turn_decreases[OF that(2)] that(1) by auto
  qed (use assms(2) in simp)
  then obtain u where "?P u" and turn: "tls_read_turn io u room = Inr (t', Ready (Ok bs))" by auto
  from turn show ?thesis
  proof (cases rule: tls_read_turn_Inr)
    case (data k s bs')
    with finite.read_avail[of "t_inner u" _ s bs] \<open>?P u\<close> show ?thesis by (force simp: data(7))
  next
    case (eof n s)
    with finite.read_avail[of "t_inner u" n s "[]"] \<open>?P u\<close> show ?thesis by force
  qed (use \<open>?P u\<close> in auto)
qed

end

sublocale finite_stream \<subseteq> tls_finite: finite_reader "tls_poll_read io"
    "tls_read_inv good rcvd" "tls_delivered rcvd" "\<lambda>t. eof (t_inner t)" "\<lambda>t. avail (t_inner t)"
proof unfold_locales
  fix t n t' bs
  assume "tls_read_inv good rcvd t" and "tls_poll_read io t n = Some (t', Ready (Ok bs))"
  then show "avail (t_inner t') + length bs \<le> avail (t_inner t)"
    using tls_poll_read_avail by (simp add: tls_read_inv_def)
next
  fix t n
  assume "tls_read_inv good rcvd t"
  then show "\<exists>res. tls_poll_read io t n = Some res"
    using tls_poll_read_returns unfolding tls_read_inv_def by blast
qed

section \<open>A fed transport\<close>

text \<open>
  From a peer that has sent \<open>coming\<close> the wrapper hands out everything the decoder finds there,
  and is pending only when there is nothing left.
\<close>

definition tls_coming :: "('s \<Rightarrow> bytes) \<Rightarrow> 's tls_obfs \<Rightarrow> bytes" where
  "tls_coming coming t = tls_rest t (coming (t_inner t))"

context fed_stream
begin

lemma tls_turn_coming:
  assumes "tls_read_turn io t room = Inl t'" and "tls_read_inv good rcvd t"
  shows "tls_coming coming t' = tls_coming coming t"
proof -
  from assms(2) have good: "good (t_inner t)" and wf: "tls_wf t" by (auto simp: tls_read_inv_def)
  from assms(1) good wf obtain cs where rest: "\<And>v. tls_rest t (cs @ v) = tls_rest t' v"
    and step: "cs = [] \<and> t_inner t' = t_inner t \<or> (\<exists>n. op_read io (t_inner t) n = (t_inner t', Ready (Ok cs)))"
    by (rule tls_turn_consumes) blast
  from step have "coming (t_inner t) = cs @ coming (t_inner t')"
    using fed_read[OF _ good] by (auto simp: fed_answer_def)
  with rest show ?thesis by (simp add: tls_coming_def)
qed

lemma tls_turn_answers:
  assumes "tls_read_turn io t room = Inr (t', r)" and "tls_read_inv good rcvd t"
  shows "fed_answer room (tls_coming coming t) r (tls_coming coming t')"
proof -
  from assms(2) have good: "good (t_inner t)" and wf: "tls_wf t" by (auto simp: tls_read_inv_def)
  from assms(1) show ?thesis
  proof (cases rule: tls_read_turn_Inr)
    case (idle n s)
    from fed_answer_idle[OF fed_read[OF idle(2) good] idle(1,3)]
    have "coming (t_inner t) = []" "coming s = []" "r = Pending" by simp_all
    moreover have "tls_wf t'" using wf by (simp add: tls_wf_def idle(4))
    ultimately show ?thesis
      using tls_rest_Nil[OF wf] tls_rest_Nil[of t'] by (simp add: tls_coming_def fed_answer_def idle(4))
  next
    case (eof n s)
    from fed_read[OF eof(2) good] eof(1) have False by (auto simp: fed_answer_def split: if_splits)
    then show ?thesis ..
  next
    case full
    then show ?thesis by (simp add: fed_answer_def)
  next
    case (data k s bs)
    from fed_read[OF data(4) good] have "coming (t_inner t) = bs @ coming s" by (simp add: fed_answer_def)
    moreover have "length bs \<le> k" using fed.read_ok[OF good, of "min room k" s bs] data(4) by simp
    ultimately have "tls_coming coming t = bs @ tls_coming coming t'"
      by (simp add: tls_coming_def tls_rest_def data(1,7))
    with data(5,6) show ?thesis by (simp add: fed_answer_def)
  qed
qed

lemma tls_poll_read_fed:
  assumes "tls_poll_read io t room = Some (t', r)" and "tls_read_inv good rcvd t"
  shows "fed_answer room (tls_coming coming t) r (tls_coming coming t')"
proof -
  let ?P = "\<lambda>u. tls_read_inv good rcvd u \<and> tls_coming coming u = tls_coming coming t"
  have "\<exists>u. ?P u \<and> tls_read_turn io u room = Inr (t', r)"
  proof (rule tls_poll_read_loop[OF assms(1)])
    show "?P u'" if "?P u" "tls_read_turn io u room = Inl u'" for u u'
      using tls_turn_continues[OF that(2)] tls_turn_coming[OF that(2)] that(1) by simp
  qed (use assms(2) in simp)
  then obtain u where "?P u" "tls_read_turn io u room = Inr (t', r)" by auto
  with tls_turn_answers[of u room t' r] show ?thesis by simp
qed

end

sublocale fed_stream \<subseteq> tls_fed: fed_reader "tls_poll_read io"
    "tls_read_inv good rcvd" "tls_delivered rcvd" "\<lambda>t. eof (t_inner t)" "tls_coming coming"
proof unfold_locales
  fix t n t' r
  assume "tls_read_inv good rcvd t" and "tls_poll_read io t n = Some (t', r)"
  then show "tls_coming coming t = poll_data r @ tls_coming coming t'"
    using tls_poll_read_fed[of t n t' r] by (simp add: fed_answer_def)
next
  fix t and n :: nat
  assume inv: "tls_read_inv good rcvd t" and "0 < n" and "tls_coming coming t = []"
  moreover obtain t' r where "tls_poll_read io t n = Some (t', r)"
    using tls_finite.read_returns[OF inv] by fastforce
  ultimately show "\<exists>t'. tls_poll_read io t n = Some (t', Pending)"
    using tls_poll_read_fed[of t n t' r] by (simp add: fed_answer_def)
next
  fix t and n :: nat
  assume inv: "tls_read_inv good rcvd t" and "0 < n" and "tls_coming coming t \<noteq> []"
  moreover obtain t' r where "tls_poll_read io t n = Some (t', r)"
    using tls_finite.read_returns[OF inv] by fastforce
  ultimately show "\<exists>t' bs. tls_poll_read io t n = Some (t', Ready (Ok bs)) \<and> bs \<noteq> []"
    using tls_poll_read_fed[of t n t' r] by (auto simp: fed_answer_def)
qed

interpretation tls_fed_script: fed_reader "tls_poll_read script_ops"
    "tls_read_inv (\<lambda>s. only_data (rx s)) taken" "tls_delivered taken"
    "\<lambda>t. ended (t_inner t)" "tls_coming (\<lambda>s. script_coming (rx s))"
  by (rule script_fed.tls_fed.fed_reader_axioms)

section \<open>A loop that does not return\<close>

text \<open>
  Without that assumption the loop may run for ever: a transport that is always ready with zero
  bytes is a stream of empty records, and each of them sends the loop round again.
\<close>

definition zero_ops :: "unit stream_ops" where
  "zero_ops = \<lparr>op_read = (\<lambda>s n. (s, Ready (Ok (replicate n 0)))),
     op_write = (\<lambda>s b. (s, Ready (Ok (length b)))),
     op_flush = (\<lambda>s. (s, Ready (Ok ()))), op_shutdown = (\<lambda>s. (s, Ready (Ok ())))\<rparr>"

definition no_payload :: "'s tls_obfs \<Rightarrow> bool" where
  "no_payload t \<longleftrightarrow> t_read_phase t \<notin> Payload ` {0<..} \<and> t_len_buf t = [0, 0]"

lemma zero_turn:
  assumes "no_payload t"
  shows "\<exists>t'. tls_read_turn zero_ops t room = Inl t' \<and> no_payload t'"
proof (cases "t_read_phase t")
  case (Discard k)
  with assms show ?thesis by (auto simp: tls_read_turn_def no_payload_def zero_ops_def)
next
  case Length
  have "take p [0, 0] @ replicate (2 - p) 0 @ drop 2 [0, 0] = ([0, 0] :: bytes)" if "p < 2" for p
    using less_2_cases[OF that] by (auto simp: numeral_2_eq_2)
  moreover have "u16_from_be 0 0 = 0" by (simp add: u16_from_be_def)
  ultimately show ?thesis using assms Length
    by (auto simp: tls_read_turn_def no_payload_def zero_ops_def)
next
  case (Payload k)
  with assms show ?thesis
    by (auto simp: tls_read_turn_def no_payload_def zero_ops_def)
qed

lemma tls_poll_read_diverges:
  assumes "no_payload t"
  shows "tls_poll_read zero_ops t room = None"
proof (rule ccontr)
  assume "tls_poll_read zero_ops t room \<noteq> None"
  then obtain t' r where "tls_poll_read zero_ops t room = Some (t', r)" by auto
  from tls_poll_read_loop[OF this, of no_payload] assms zero_turn show False
    by (metis Inl_inject Inl_Inr_False)
qed

section \<open>Records written are records read\<close>

lemma u16_from_to_be_nat: "n < 65536 \<Longrightarrow> unat (u16_from_be (u16_to_be (of_nat n) ! 0) (u16_to_be (of_nat n) ! 1)) = n"
  by (simp add: u16_from_be_to_be unat_of_nat)

lemma tls_frames_length_field:
  assumes "length p < 65536"
  shows "tls_frames (u16_to_be (of_nat (length p)) @ p @ w) = p @ tls_frames (drop 3 w)"
  using assms by (simp add: u16_to_be_def Let_def unat_of_nat)

lemma tls_frames_app_records:
  assumes "\<forall>c\<in>set cs. length c < 65536"
  shows "tls_frames (drop 3 (concat (map tls_app_record cs) @ w)) = concat cs @ tls_frames (drop 3 w)"
  using assms by (induction cs) (simp_all add: tls_app_record_def tls_frames_length_field)

end
