(* ===== verification/Obfs_Tls_Write.thy ===== *)
theory Obfs_Tls_Write
  imports Obfs_Tls_Read
begin

text \<open>
  The writing half of \<open>TlsObfs\<close>: the layout of the fake ClientHello, a peer's decoder for what
  the wrapper puts on the wire, and the proof that a caller that follows the \<open>write_all\<close>
  protocol is decoded to exactly its data, whatever the transport answers.
\<close>

section \<open>The layout of the ClientHello\<close>

lemma length_cipher_suites [simp]: "length cipher_suites = 56"
  by (simp add: cipher_suites_def)

lemma length_hello_front [simp]: "length (hello_front d n m) = 142"
  by (simp add: hello_front_def Let_def)

lemma length_hello_back [simp]: "length (hello_back server) = 75 + length server"
  by (simp add: hello_back_def Let_def)

lemma length_build_client_hello [simp]:
  "length (build_client_hello d data server) = 217 + length data + length server"
  by (simp add: build_client_hello_def)

text \<open>
  The three lengths of the front: of the record, of the handshake message and of the ticket,
  read as a peer reads them. They are the true ones as long as the sums fit in sixteen bits.
\<close>

lemma unat_u16_sum:
  "k + n + m < 65536 \<Longrightarrow> unat (of_nat k + of_nat n + of_nat m :: u16) = k + n + m"
  by (simp add: unat_of_nat flip: of_nat_add)

lemma hello_front_nth:
  "hello_front d n m ! 0 = 0x16" "hello_front d n m ! 1 = 3" "hello_front d n m ! 2 = 1"
  "u16_from_be (hello_front d n m ! 3) (hello_front d n m ! 4) = 212 + of_nat n + of_nat m"
  "hello_front d n m ! 5 = 1" "hello_front d n m ! 6 = 0"
  "u16_from_be (hello_front d n m ! 7) (hello_front d n m ! 8) = 208 + of_nat n + of_nat m"
  by (simp_all add: hello_front_def Let_def u16_to_be_def)

text \<open>The first 138 bytes, then the ticket extension.\<close>

lemma hello_front_ticket:
  "\<exists>front. hello_front d n m = front @ u16_to_be (of_nat n) \<and> length front = 140"
  unfolding hello_front_def Let_def
  by (intro exI conjI, (simp only: append_assoc[symmetric]), simp)

section \<open>A peer's decoder\<close>

text \<open>
  What an obfs server does with the byte stream of a client: skip to the length of the session
  ticket at its fixed place, take the ticket, skip to the end of the first record, and decode
  the application data records after it.
\<close>

definition tls_peer_decode :: "bytes \<Rightarrow> bytes" where
  "tls_peer_decode w =
     (let record_len = unat (u16_from_be (w ! 3) (w ! 4));
          ticket_len = unat (u16_from_be (w ! 140) (w ! 141))
      in take ticket_len (drop 142 w) @ tls_frames (drop 3 (drop (5 + record_len) w)))"

lemma tls_peer_decode_hello:
  assumes "length data + length server \<le> 65323"
  shows "tls_peer_decode (build_client_hello d data server @ w) = data @ tls_frames (drop 3 w)"
proof -
  let ?n = "length data" and ?m = "length server"
  let ?w = "build_client_hello d data server @ w"
  obtain front where front: "hello_front d ?n ?m = front @ u16_to_be (of_nat ?n)" "length front = 140"
    using hello_front_ticket by blast
  have "?w ! i = hello_front d ?n ?m ! i" if "i < 142" for i
    using that by (simp add: build_client_hello_def nth_append)
  then have lens: "u16_from_be (?w ! 3) (?w ! 4) = 212 + of_nat ?n + of_nat ?m"
    "u16_from_be (?w ! 140) (?w ! 141)
       = u16_from_be (hello_front d ?n ?m ! 140) (hello_front d ?n ?m ! 141)"
    using hello_front_nth(4)[of d ?n ?m] by simp_all
  have "u16_from_be (?w ! 140) (?w ! 141) = of_nat ?n"
    unfolding lens(2) by (simp add: front nth_append u16_to_be_def)
  with lens(1) have "u16_from_be (?w ! 3) (?w ! 4) = 212 + of_nat ?n + of_nat ?m"
    "u16_from_be (?w ! 140) (?w ! 141) = of_nat ?n" by blast+
  then have "unat (u16_from_be (?w ! 3) (?w ! 4)) = 212 + ?n + ?m"
    and "unat (u16_from_be (?w ! 140) (?w ! 141)) = ?n"
    using assms unat_u16_sum[of 212 ?n ?m] by (simp_all add: unat_of_nat)
  moreover have "take ?n (drop 142 ?w) = data" by (simp add: build_client_hello_def)
  moreover have "drop (5 + (212 + ?n + ?m)) ?w = w" by simp
  ultimately show ?thesis unfolding tls_peer_decode_def Let_def by presburger
qed

section \<open>Accepted data\<close>

definition tls_bound :: "('s \<Rightarrow> bytes) \<Rightarrow> 's tls_obfs \<Rightarrow> bytes" where
  "tls_bound sent t = sent (t_inner t) @ drop (t_write_buf_off t) (t_write_buf t)"

definition tls_chunk :: "bytes \<Rightarrow> bool" where
  "tls_chunk c \<longleftrightarrow> c \<noteq> [] \<and> length c \<le> TLS_CHUNK_SIZE"

definition tls_framed :: "string \<Rightarrow> bytes \<Rightarrow> bytes \<Rightarrow> bool" where
  "tls_framed server w c \<longleftrightarrow>
     (\<exists>d c1 cs. tls_chunk c1 \<and> (\<forall>x\<in>set cs. tls_chunk x) \<and> c = c1 @ concat cs \<and>
       w = build_client_hello d c1 server @ concat (map tls_app_record cs))"

lemma tls_framed_hello: "tls_chunk c \<Longrightarrow> tls_framed server (build_client_hello d c server) c"
  unfolding tls_framed_def by (intro exI[of _ d] exI[of _ c] exI[of _ "[]"]) simp

lemma tls_framed_record:
  assumes "tls_framed server w c" and "tls_chunk x"
  shows "tls_framed server (w @ tls_app_record x) (c @ x)"
proof -
  from assms(1) obtain d c1 cs where "tls_chunk c1" "\<forall>y\<in>set cs. tls_chunk y" "c = c1 @ concat cs"
    "w = build_client_hello d c1 server @ concat (map tls_app_record cs)"
    by (auto simp: tls_framed_def)
  then show ?thesis unfolding tls_framed_def
    using assms(2) by (intro exI[of _ d] exI[of _ c1] exI[of _ "cs @ [x]"]) simp
qed

lemma tls_framed_decode:
  assumes "tls_framed server w c" and "length server \<le> 48939"
  shows "tls_peer_decode w = c"
proof -
  from assms(1) obtain d c1 cs where c1: "tls_chunk c1" and cs: "\<forall>y\<in>set cs. tls_chunk y"
    and c: "c = c1 @ concat cs" and w: "w = build_client_hello d c1 server @ concat (map tls_app_record cs)"
    by (auto simp: tls_framed_def)
  have "length c1 + length server \<le> 65323"
    using c1 assms(2) by (simp add: tls_chunk_def TLS_CHUNK_SIZE_def)
  from tls_peer_decode_hello[OF this] w
  have "tls_peer_decode w = c1 @ tls_frames (drop 3 (concat (map tls_app_record cs)))" by simp
  moreover have "\<forall>y\<in>set cs. length y < 65536"
    using cs by (auto simp: tls_chunk_def TLS_CHUNK_SIZE_def)
  from tls_frames_app_records[OF this, of "[]"]
  have "tls_frames (drop 3 (concat (map tls_app_record cs))) = concat cs" by simp
  ultimately show ?thesis using c by simp
qed

definition tls_accepted ::
  "('s \<Rightarrow> bool) \<Rightarrow> ('s \<Rightarrow> bytes) \<Rightarrow> string \<Rightarrow> 's tls_obfs \<Rightarrow> bytes \<Rightarrow> bytes \<Rightarrow> bool" where
  "tls_accepted good sent server t a b \<longleftrightarrow>
     good (t_inner t) \<and> t_server t = server \<and>
     (if t_first_request t then tls_bound sent t = [] \<and> t_write_buf t = [] \<and> a = []
      else tls_framed server (tls_bound sent t) (a @ b)) \<and>
     (if t_write_buf t = [] then b = [] else t_pending_input t = length b \<and> b \<noteq> [])"

lemma tls_new_accepted:
  "\<lbrakk>good s; sent s = []\<rbrakk> \<Longrightarrow> tls_accepted good sent server (tls_new s server) [] []"
  by (simp add: tls_accepted_def tls_new_def tls_bound_def)

context stream_writer
begin

lemma tls_drain_step:
  assumes "tls_poll_drain_write_buf io t = (t', r)" and "good (t_inner t)"
  shows "good (t_inner t') \<and> tls_bound sent t' = tls_bound sent t \<and>
    t_server t' = t_server t \<and> t_first_request t' = t_first_request t \<and>
    t_pending_input t' = t_pending_input t \<and>
    t_write_buf t' = (if r = Ready (Ok ()) then [] else t_write_buf t)"
proof -
  obtain s buf off where step:
      "poll_drain (op_write io) (t_inner t) (t_write_buf t) (t_write_buf_off t) = (s, buf, off, r)"
    and t': "t' = t\<lparr>t_inner := s, t_write_buf := buf, t_write_buf_off := off\<rparr>"
    using assms(1) unfolding tls_poll_drain_write_buf_def
    by (cases "poll_drain (op_write io) (t_inner t) (t_write_buf t) (t_write_buf_off t)") auto
  from writer.poll_drain_conserves[OF step assms(2)]
  have "good s" "sent s @ drop off buf = tls_bound sent t" by (auto simp: tls_bound_def)
  moreover from poll_drain_shape[OF step] have "buf = (if r = Ready (Ok ()) then [] else t_write_buf t)"
    by (auto simp: ready_ok_def)
  ultimately show ?thesis by (simp add: t' tls_bound_def)
qed

text \<open>
  Draining a frame that carries \<open>b\<close> and reporting \<open>pending_input\<close>, as both branches of
  \<open>poll_write\<close> do.
\<close>

lemma tls_push_frame:
  assumes "tls_poll_drain_write_buf io t = (t1, r1)" and "good (t_inner t)" and "t_server t = server"
    and "\<not> t_first_request t" and "t_write_buf t \<noteq> []" and "t_pending_input t = length b" and "b \<noteq> []"
    and "tls_framed server (tls_bound sent t) (a @ b)"
    and "(t', r) = (case (t1, r1) of
        (t', Ready (Inr _)) \<Rightarrow> (t'\<lparr>t_pending_input := 0\<rparr>, Ready (Ok (t_pending_input t')))
      | (t', Ready (Inl e)) \<Rightarrow> (t', Ready (Err e))
      | (t', Pending) \<Rightarrow> (t', Pending))"
  shows "case r of Ready (Inr n) \<Rightarrow> n = length b \<and> tls_accepted good sent server t' (a @ b) []
    | _ \<Rightarrow> tls_accepted good sent server t' a b"
proof -
  note keep = tls_drain_step[OF assms(1,2)]
  show ?thesis
  proof (cases r1 rule: poll_cases)
    case (ok u)
    then have "r = Ready (Ok (t_pending_input t1))" "t' = t1\<lparr>t_pending_input := 0\<rparr>"
      using assms(9) by auto
    moreover have bound: "t_write_buf t1 = []" "tls_bound sent t1 = tls_bound sent t"
      using keep ok by simp_all
    moreover have "tls_bound sent t' = tls_bound sent t1"
      using calculation(2) by (simp add: tls_bound_def bound(1))
    ultimately show ?thesis using keep assms(2-8) ok by (simp add: tls_accepted_def)
  next
    case (err e)
    then have "r = Ready (Err e)" "t' = t1" using assms(9) by auto
    then show ?thesis using keep assms(2-8) err by (simp add: tls_accepted_def)
  next
    case pending
    then have "r = Pending" "t' = t1" using assms(9) by auto
    then show ?thesis using keep assms(2-8) pending by (simp add: tls_accepted_def)
  qed
qed

text \<open>A poll while a frame is waiting pushes the frame and reports its length.\<close>

lemma tls_write_held:
  assumes "tls_poll_write io d t buf = (t', r)"
    and "tls_accepted good sent server t a b" and "t_write_buf t \<noteq> []"
  shows "case r of Ready (Inr n) \<Rightarrow> n = length b \<and> tls_accepted good sent server t' (a @ b) []
    | _ \<Rightarrow> tls_accepted good sent server t' a b"
proof -
  obtain t1 r1 where step: "tls_poll_drain_write_buf io t = (t1, r1)"
    by (cases "tls_poll_drain_write_buf io t")
  show ?thesis
    by (rule tls_push_frame[OF step])
      (use assms step in \<open>auto simp: tls_accepted_def tls_poll_write_def
         split: if_splits poll.splits sum.splits\<close>)
qed

text \<open>A fresh poll frames one chunk of its data.\<close>

lemma tls_write_fresh:
  assumes "tls_poll_write io d t buf = (t', r)"
    and "tls_accepted good sent server t a []" and "t_write_buf t = []" and "buf \<noteq> []"
  defines "c \<equiv> take TLS_CHUNK_SIZE buf"
  shows "case r of Ready (Inr n) \<Rightarrow> n = length c \<and> tls_accepted good sent server t' (a @ c) []
    | _ \<Rightarrow> tls_accepted good sent server t' a c"
proof -
  let ?n = "min (length buf) TLS_CHUNK_SIZE"
  let ?frame = "if t_first_request t then build_client_hello d c (t_server t) else tls_app_record c"
  let ?t = "t\<lparr>t_first_request := False, t_write_buf := ?frame, t_write_buf_off := 0,
    t_pending_input := ?n\<rparr>"
  have chunk: "tls_chunk c" "take ?n buf = c" "?n = length c"
    using assms(4) by (auto simp: c_def tls_chunk_def TLS_CHUNK_SIZE_def min_def)
  have start: "good (t_inner t)" "t_server t = server" using assms(2) by (auto simp: tls_accepted_def)
  have framed: "tls_framed server (tls_bound sent ?t) (a @ c)"
    using assms(2,3) chunk(1) tls_framed_hello tls_framed_record
    by (auto simp: tls_accepted_def tls_bound_def split: if_splits)
  have frame: "?frame \<noteq> []"
    using length_build_client_hello[of d c "t_server t"]
    by (auto simp: tls_app_record_def simp del: length_build_client_hello)
  obtain t1 r1 where step: "tls_poll_drain_write_buf io ?t = (t1, r1)"
    by (cases "tls_poll_drain_write_buf io ?t")
  have upd: "(if t_first_request t
      then t\<lparr>t_first_request := False, t_write_buf := build_client_hello d c (t_server t)\<rparr>
      else t\<lparr>t_write_buf := tls_app_record c\<rparr>)\<lparr>t_write_buf_off := 0, t_pending_input := ?n\<rparr> = ?t"
    by simp
  have res: "(t', r) = (case (t1, r1) of
        (t', Ready (Inr _)) \<Rightarrow> (t'\<lparr>t_pending_input := 0\<rparr>, Ready (Ok (t_pending_input t')))
      | (t', Ready (Inl e)) \<Rightarrow> (t', Ready (Err e))
      | (t', Pending) \<Rightarrow> (t', Pending))"
    using assms(1,3,4) unfolding tls_poll_write_def Let_def chunk(2) upd step by simp
  show ?thesis
    by (rule tls_push_frame[OF step _ _ _ _ _ _ framed res])
      (use start frame chunk in \<open>auto simp: tls_chunk_def\<close>)
qed

end

text \<open>The wrapper is a writer that accepts data in frames and must be polled again.\<close>

sublocale stream_writer \<subseteq> tls_w: retry_writer "tls_poll_write io" "tls_accepted good sent server"
  for server
proof unfold_locales
  fix t a d buf t' n
  assume acc: "tls_accepted good sent server t a []" and data: "buf \<noteq> []"
    and step: "tls_poll_write io d t buf = (t', Ready (Ok n))"
  have empty: "t_write_buf t = []" using acc by (auto simp: tls_accepted_def split: if_splits)
  show "n \<le> length buf \<and> tls_accepted good sent server t' (a @ take n buf) []"
    using tls_write_fresh[OF step acc empty data] by (auto simp: take_drop_min)
next
  fix t a d buf t' p
  assume acc: "tls_accepted good sent server t a []" and data: "buf \<noteq> []"
    and step: "tls_poll_write io d t buf = (t', p)" and idle: "\<not> ready_ok p"
  have empty: "t_write_buf t = []" using acc by (auto simp: tls_accepted_def split: if_splits)
  from tls_write_fresh[OF step acc empty data] idle
  show "\<exists>k. tls_accepted good sent server t' a (take k buf)"
    by (cases p rule: poll_cases) auto
next
  fix t a b d buf t' n
  assume acc: "tls_accepted good sent server t a b" and b: "b \<noteq> []"
    and step: "tls_poll_write io d t buf = (t', Ready (Ok n))"
  have "t_write_buf t \<noteq> []" using acc b by (auto simp: tls_accepted_def)
  with tls_write_held[OF step acc]
  show "n = length b \<and> tls_accepted good sent server t' (a @ b) []" by simp
next
  fix t a b d buf t' p
  assume acc: "tls_accepted good sent server t a b" and b: "b \<noteq> []"
    and step: "tls_poll_write io d t buf = (t', p)" and "\<not> ready_ok p"
  moreover have "t_write_buf t \<noteq> []" using acc b by (auto simp: tls_accepted_def)
  ultimately show "tls_accepted good sent server t' a b"
    using tls_write_held[OF step acc] by (cases p rule: poll_cases) simp_all
qed

end
