(* ===== verification/Obfs_Tls_Duplex.thy ===== *)
theory Obfs_Tls_Duplex
  imports Obfs_Tls_Write
begin

text \<open>
  The two directions of \<open>TlsObfs\<close> together, and its properties.
\<close>

section \<open>What the operations leave alone\<close>

definition tls_write_side :: "'s tls_obfs \<Rightarrow> string \<times> bool \<times> bytes \<times> nat \<times> nat" where
  "tls_write_side t =
     (t_server t, t_first_request t, t_write_buf t, t_write_buf_off t, t_pending_input t)"

definition tls_read_side :: "'s tls_obfs \<Rightarrow> bool \<times> tls_read_phase \<times> bytes \<times> nat" where
  "tls_read_side t = (t_first_response t, t_read_phase t, t_len_buf t, t_len_progress t)"

lemma tls_accepted_cong:
  "\<lbrakk>tls_write_side t = tls_write_side t'; good (t_inner t'); sent (t_inner t) = sent (t_inner t');
    tls_accepted good sent server t a b\<rbrakk> \<Longrightarrow> tls_accepted good sent server t' a b"
  unfolding tls_accepted_def tls_bound_def tls_write_side_def prod.inject
  by (elim conjE) (simp only: if_True if_False simp_thms)

lemma tls_rest_cong: "tls_read_side t = tls_read_side t' \<Longrightarrow> tls_rest t v = tls_rest t' v"
  unfolding tls_rest_def tls_read_side_def prod.inject by (elim conjE) (simp only:)

lemma tls_read_inv_cong:
  assumes "tls_read_side t = tls_read_side t'" and "good (t_inner t')"
    and "rcvd (t_inner t) = rcvd (t_inner t')" and "tls_read_inv good rcvd t"
  shows "tls_read_inv good rcvd t' \<and> tls_delivered rcvd t' = tls_delivered rcvd t"
  using assms tls_rest_cong[OF assms(1)]
  by (simp add: tls_read_inv_def tls_delivered_def tls_wf_def tls_read_side_def)

lemma tls_read_inv_good: "tls_read_inv good rcvd t \<Longrightarrow> good (t_inner t)"
  by (simp add: tls_read_inv_def)

lemma tls_accepted_good: "tls_accepted good sent server t a b \<Longrightarrow> good (t_inner t)"
  by (simp add: tls_accepted_def)

context async_stream
begin

lemma tls_turn_frame:
  "tls_read_turn io t room = Inl t' \<Longrightarrow>
     tls_write_side t' = tls_write_side t \<and> sent (t_inner t') = sent (t_inner t)"
  "tls_read_turn io t room = Inr (t', r) \<Longrightarrow>
     tls_write_side t' = tls_write_side t \<and> sent (t_inner t') = sent (t_inner t)"
proof -
  assume "tls_read_turn io t room = Inl t'"
  then show "tls_write_side t' = tls_write_side t \<and> sent (t_inner t') = sent (t_inner t)"
    by (cases rule: tls_read_turn_Inl) (use read_sent in \<open>auto simp: tls_write_side_def\<close>)
next
  assume "tls_read_turn io t room = Inr (t', r)"
  then show "tls_write_side t' = tls_write_side t \<and> sent (t_inner t') = sent (t_inner t)"
    by (cases rule: tls_read_turn_Inr) (use read_sent in \<open>auto simp: tls_write_side_def\<close>)
qed

lemma tls_poll_read_frame:
  assumes "tls_poll_read io t room = Some (t', r)"
  shows "tls_write_side t' = tls_write_side t \<and> sent (t_inner t') = sent (t_inner t)"
proof -
  let ?P = "\<lambda>u. tls_write_side u = tls_write_side t \<and> sent (t_inner u) = sent (t_inner t)"
  have "\<exists>u. ?P u \<and> tls_read_turn io u room = Inr (t', r)"
    by (rule tls_poll_read_loop[OF assms]) (use tls_turn_frame(1) in \<open>simp, metis\<close>)
  with tls_turn_frame(2) show ?thesis by metis
qed

lemma tls_drain_kept:
  assumes "tls_poll_drain_write_buf io t = (t', r)" and "good (t_inner t)"
  shows "good (t_inner t') \<and> tls_read_side t' = tls_read_side t \<and>
    rcvd (t_inner t') = rcvd (t_inner t)"
proof -
  have "tls_read_side t' = tls_read_side t \<and> rcvd (t_inner t') = rcvd (t_inner t)"
    using assms(1) poll_drain_frame[of "op_write io" _ _ _ _ _ _ _ rcvd] write_rcvd
    by (auto simp: tls_poll_drain_write_buf_def tls_read_side_def split: prod.splits)
  with tls_drain_step[OF assms] show ?thesis by simp
qed

lemma tls_poll_write_frame:
  assumes "tls_poll_write io d t buf = (t', r)" and "good (t_inner t)"
  shows "good (t_inner t') \<and> tls_read_side t' = tls_read_side t \<and>
    rcvd (t_inner t') = rcvd (t_inner t)"
proof (cases "t_write_buf t = [] \<and> buf = []")
  case True
  then show ?thesis using assms by (simp add: tls_poll_write_def)
next
  case False
  define n where "n = min (length buf) TLS_CHUNK_SIZE"
  define t0 where "t0 = (if t_write_buf t \<noteq> [] then t else
    (if t_first_request t
      then t\<lparr>t_first_request := False, t_write_buf := build_client_hello d (take n buf) (t_server t)\<rparr>
      else t\<lparr>t_write_buf := tls_app_record (take n buf)\<rparr>)\<lparr>t_write_buf_off := 0, t_pending_input := n\<rparr>)"
  have t0: "tls_read_side t0 = tls_read_side t" "t_inner t0 = t_inner t"
    by (simp_all add: t0_def tls_read_side_def)
  obtain t1 r1 where step: "tls_poll_drain_write_buf io t0 = (t1, r1)"
    by (cases "tls_poll_drain_write_buf io t0")
  have "t' = t1 \<or> t' = t1\<lparr>t_pending_input := 0\<rparr>"
    using assms(1) False step unfolding tls_poll_write_def Let_def n_def[symmetric]
    by (auto simp: t0_def split: if_splits poll.splits sum.splits)
  then have "tls_read_side t' = tls_read_side t1" "t_inner t' = t_inner t1"
    by (auto simp: tls_read_side_def)
  with tls_drain_kept[OF step] t0 assms(2) show ?thesis by simp
qed

text \<open>Flushing and shutting down, by the flag \<open>k\<close>.\<close>

lemma tls_poll_closeE:
  assumes "(if k then tls_poll_shutdown io t else tls_poll_flush io t) = (t', r)"
  obtains t1 r1 where "(if t_write_buf t \<noteq> [] then tls_poll_drain_write_buf io t
      else (t, Ready (Ok ()))) = (t1, r1)" "t' = t1" "r = r1" "\<not> ready_ok r1"
  | t1 s where "(if t_write_buf t \<noteq> [] then tls_poll_drain_write_buf io t
      else (t, Ready (Ok ()))) = (t1, Ready (Ok ()))" "t' = t1\<lparr>t_inner := s\<rparr>"
      "(if k then op_shutdown io else op_flush io) (t_inner t1) = (s, r)"
proof -
  obtain t1 r1 where step: "(if t_write_buf t \<noteq> [] then tls_poll_drain_write_buf io t
      else (t, Ready (Ok ()))) = (t1, r1)" by fastforce
  note res = assms[unfolded tls_poll_shutdown_def tls_poll_flush_def step prod.case]
  show ?thesis
  proof (cases r1 rule: poll_cases)
    case (ok u)
    obtain s p where last: "(if k then op_shutdown io else op_flush io) (t_inner t1) = (s, p)"
      by (cases "(if k then op_shutdown io else op_flush io) (t_inner t1)")
    from res last ok have "t' = t1\<lparr>t_inner := s\<rparr>" "r = p" by (auto split: if_splits)
    with step ok last show ?thesis by (intro that(2)) auto
  qed (use res step in \<open>intro that(1), auto split: if_splits\<close>)+
qed

lemma tls_poll_close_frame:
  assumes "(if k then tls_poll_shutdown io t else tls_poll_flush io t) = (t', r)" and "good (t_inner t)"
  shows "good (t_inner t') \<and> tls_read_side t' = tls_read_side t \<and>
    rcvd (t_inner t') = rcvd (t_inner t)"
proof -
  have drained: "good (t_inner t1) \<and> tls_read_side t1 = tls_read_side t \<and>
      rcvd (t_inner t1) = rcvd (t_inner t)"
    if "(if t_write_buf t \<noteq> [] then tls_poll_drain_write_buf io t else (t, Ready (Ok ()))) = (t1, r1)"
    for t1 r1
    using that tls_drain_kept[of t t1 r1] assms(2) by (auto split: if_splits)
  from assms(1) show ?thesis
  proof (cases rule: tls_poll_closeE)
    case (1 t1 r1)
    from drained[OF 1(1)] show ?thesis using 1(2-4) by auto
  next
    case (2 t1 s)
    from drained[OF 2(1)] 2(3) flush_frame[of "t_inner t1" s r] shutdown_frame[of "t_inner t1" s r]
    show ?thesis by (cases k) (simp_all add: tls_read_side_def 2(2))
  qed
qed

lemma tls_poll_close_sends:
  assumes "(if k then tls_poll_shutdown io t else tls_poll_flush io t) = (t', r)" and "good (t_inner t)"
  shows "tls_bound sent t' = tls_bound sent t \<and> t_server t' = t_server t \<and>
    t_first_request t' = t_first_request t \<and> t_pending_input t' = t_pending_input t \<and>
    (t_write_buf t' = t_write_buf t \<or> t_write_buf t' = []) \<and>
    (ready_ok r \<longrightarrow> t_write_buf t' = [])"
proof -
  have drained: "tls_bound sent t1 = tls_bound sent t \<and> t_server t1 = t_server t \<and>
      t_first_request t1 = t_first_request t \<and> t_pending_input t1 = t_pending_input t \<and>
      (t_write_buf t1 = t_write_buf t \<or> t_write_buf t1 = []) \<and> (r1 = Ready (Ok ()) \<longrightarrow> t_write_buf t1 = [])"
    if "(if t_write_buf t \<noteq> [] then tls_poll_drain_write_buf io t else (t, Ready (Ok ()))) = (t1, r1)"
    for t1 r1
    using that tls_drain_step[of t t1 r1] assms(2) by (auto split: if_splits)
  from assms(1) show ?thesis
  proof (cases rule: tls_poll_closeE)
    case (1 t1 r1)
    from drained[OF 1(1)] show ?thesis using 1(2-4) by auto
  next
    case (2 t1 s)
    from drained[OF 2(1)] 2(3) flush_frame[of "t_inner t1" s r] shutdown_frame[of "t_inner t1" s r]
    show ?thesis by (cases k) (auto simp: tls_bound_def 2(2))
  qed
qed

end

sublocale async_stream \<subseteq> tls_d: duplex "tls_poll_read io"
    "tls_read_inv good rcvd" "tls_delivered rcvd" "\<lambda>t. eof (t_inner t)"
    "tls_poll_write io" "tls_accepted good sent server"
    "\<lambda>k t. if k then tls_poll_shutdown io t else tls_poll_flush io t" for server
proof unfold_locales
  fix t a b n t' p
  assume inv: "tls_read_inv good rcvd t" and acc: "tls_accepted good sent server t a b"
    and step: "tls_poll_read io t n = Some (t', p)"
  have "good (t_inner t')" using tls.read_step[OF inv step] tls_read_inv_good by blast
  then show "tls_accepted good sent server t' a b"
    using tls_accepted_cong[of t t', OF _ _ _ acc] tls_poll_read_frame[of t n t' p] step by simp
next
  fix t d buf t' w
  assume inv: "tls_read_inv good rcvd t" and "tls_poll_write io d t buf = (t', w)"
  then show "tls_read_inv good rcvd t' \<and> tls_delivered rcvd t' = tls_delivered rcvd t"
    using tls_poll_write_frame[of d t buf t' w] tls_read_inv_cong[OF _ _ _ inv, of t']
      tls_read_inv_good[OF inv] by simp
next
  fix t k t' u
  assume inv: "tls_read_inv good rcvd t"
    and "(if k then tls_poll_shutdown io t else tls_poll_flush io t) = (t', u)"
  then show "tls_read_inv good rcvd t' \<and> tls_delivered rcvd t' = tls_delivered rcvd t"
    using tls_poll_close_frame[of k t t' u] tls_read_inv_cong[OF _ _ _ inv, of t']
      tls_read_inv_good[OF inv] by simp
next
  fix t a k t' u
  assume acc: "tls_accepted good sent server t a []"
    and step: "(if k then tls_poll_shutdown io t else tls_poll_flush io t) = (t', u)"
  from acc have "good (t_inner t)" by (rule tls_accepted_good)
  with tls_poll_close_sends[OF step] tls_poll_close_frame[OF step] acc
  show "tls_accepted good sent server t' a []"
    by (auto simp: tls_accepted_def split: if_splits)
qed

interpretation tls_link: duplex "tls_poll_read script_ops"
    "tls_read_inv (\<lambda>_. True) taken" "tls_delivered taken" "\<lambda>t. ended (t_inner t)"
    "tls_poll_write script_ops" "tls_accepted (\<lambda>_. True) wire server"
    "\<lambda>k t. if k then tls_poll_shutdown script_ops t else tls_poll_flush script_ops t"
  for server
  by (rule script_stream.tls_d.duplex_axioms)

section \<open>The properties of TlsObfs\<close>


abbreviation tls_session where
  "tls_session io \<equiv> poll_session (tls_poll_read io) (tls_poll_write io)
     (\<lambda>k t. if k then tls_poll_shutdown io t else tls_poll_flush io t)"

text \<open>What the invariant says about the wire, of data \<open>a @ rest\<close> with \<open>b\<close> held back.\<close>

lemma tls_accepted_wire:
  assumes "tls_accepted good sent server t a b" and "prefix b rest" and "length server \<le> 48939"
  shows "(tls_bound sent t = [] \<or> prefix (tls_peer_decode (tls_bound sent t)) (a @ rest)) \<and>
    (rest = [] \<longrightarrow> a \<noteq> [] \<longrightarrow> tls_peer_decode (sent (t_inner t)) = a)"
proof (cases "t_first_request t")
  case True
  then have "tls_bound sent t = []" "a = []" using assms(1) by (auto simp: tls_accepted_def)
  then show ?thesis by simp
next
  case False
  then have framed: "tls_framed server (tls_bound sent t) (a @ b)"
    using assms(1) by (simp add: tls_accepted_def)
  have "tls_bound sent t = sent (t_inner t)" if "b = []"
    using assms(1) that by (simp add: tls_accepted_def tls_bound_def split: if_splits)
  moreover have "tls_peer_decode (tls_bound sent t) = a @ b"
    by (rule tls_framed_decode[OF framed assms(3)])
  ultimately show ?thesis using assms(2) by (cases "rest = []") simp_all
qed

context async_stream
begin

lemma tls_session_contract:
  assumes "good s" and "rcvd s = []" and "sent s = []"
    and "tls_session io es (tls_new s server) data False = Some (t, out, rest, held)"
  shows "tls_delivered rcvd t = out \<and>
    (\<exists>a b. tls_accepted good sent server t a b \<and> data = a @ rest \<and> prefix b rest)"
  using tls_d.poll_session_duplex[where server = server, OF tls_new_read_inv
      tls_new_accepted _ _ assms(4)] assms(1-3) tls_new_delivered[of rcvd s server]
  by auto

end

context stream_reader
begin

lemma tls_reads_end:
  assumes "good s" and "rcvd s = []"
    and "poll_reads (tls_poll_read io) (tls_new s server) ns = Some (t, out)"
    and "tls_poll_read io t n = Some (t', Ready (Ok bs))"
  shows "length bs \<le> n \<and> (0 < n \<longrightarrow> bs = [] \<longrightarrow> eof (t_inner t'))"
proof -
  have inv: "tls_read_inv good rcvd t"
    using tls.poll_reads_rcvd[OF tls_new_read_inv[of good s rcvd server, OF assms(1,2)] assms(3)] by simp
  with tls.read_ok[of t n t' bs] tls.read_eof[of t n t'] assms(4) show ?thesis by auto
qed

end

context finite_stream
begin

lemma tls_reads_return:
  assumes "tls_read_inv good rcvd t"
  shows "\<exists>t' out. poll_reads (tls_poll_read io) t ns = Some (t', out)"
  using assms
proof (induction ns arbitrary: t)
  case (Cons n ns)
  obtain u r where step: "tls_poll_read io t n = Some (u, r)"
    using tls_finite.read_returns[OF Cons.prems] by fastforce
  with tls.read_step[OF Cons.prems step] Cons.IH[of u] show ?case by fastforce
qed simp

lemma tls_new_reads_return:
  assumes "good s" and "rcvd s = []"
  shows "\<exists>t' out. poll_reads (tls_poll_read io) (tls_new s server) ns = Some (t', out)"
  using tls_reads_return[OF tls_new_read_inv[of good s rcvd server, OF assms]] .

end

context fed_stream
begin

lemma tls_reads_fed:
  assumes "good s" and "rcvd s = []" and "0 < n" and "length (tls_payload (coming s)) \<le> k"
  shows "\<exists>t. poll_reads (tls_poll_read io) (tls_new s server) (replicate k n) = Some (t, tls_payload (coming s))"
proof -
  have "tls_coming coming (tls_new s server) = tls_payload (coming s)"
    using tls_new_rest[of s server "coming s"] by (simp add: tls_coming_def tls_new_def)
  with tls_fed.poll_reads_coming[OF tls_new_read_inv[of good s rcvd server, OF assms(1,2)] assms(3), of k]
    assms(4) show ?thesis by auto
qed

end

lemma tls_session_correct:
  assumes "async_stream io good rcvd eof sent" and "good s" and "rcvd s = []" and "sent s = []"
    and "length server \<le> 48939" and "data \<noteq> []"
    and "tls_session io es (tls_new s server) data False = Some (t, out, rest, held)"
  shows "out = tls_payload (rcvd (t_inner t)) \<and>
    (tls_bound sent t = [] \<or> prefix (tls_peer_decode (tls_bound sent t)) data) \<and>
    (rest = [] \<longrightarrow> tls_peer_decode (sent (t_inner t)) = data)"
proof -
  note run = async_stream.tls_session_contract[OF assms(1-4,7)]
  then obtain a b where "tls_accepted good sent server t a b" "data = a @ rest" "prefix b rest"
    by blast
  with tls_accepted_wire[OF this(1,3) assms(5)] run assms(6) show ?thesis
    by (auto simp: tls_delivered_def)
qed


definition sample_tls_draw :: tls_draw where
  "sample_tls_draw = \<lparr>random_byte = \<lambda>i. of_nat i, session_byte = \<lambda>i. 1, unix_secs = Some 5\<rparr>"

definition sample_tls_peer :: script where
  "sample_tls_peer =
     script_of [Data (replicate 60 9), Data (replicate 45 9), Read_Pending, Data [0, 2, 104, 105, 23],
       Data [3, 3, 0, 1, 33], Eof] [Write_Pending, Accept 5]"

lemma sample_tls_run:
  "map_option (\<lambda>(t, out, rest, held). (out, rest, held))
     (tls_session script_ops
        [Poll_Read 8, Poll_Flush, Poll_Read 1, Poll_Read 8, Poll_Read 8, Poll_Read 8,
         Poll_Write sample_tls_draw, Poll_Flush, Poll_Write sample_tls_draw]
        (tls_new sample_tls_peer ''h'') [1, 2, 3] False)
   = Some ([104, 105, 33], [], False)"
  by code_simp


text \<open>
  C14: a peer that has sent a stream, in pieces of any size, and then falls silent: polled with any
  non-empty buffer, \<open>TlsObfs\<close> hands out every payload byte of the stream and nothing else, in at
  most as many polls as there are such bytes; empty records in between do not stop it.
\<close>

theorem tls_delivers_payload:
  assumes "fed_stream io good rcvd eof coming" and "good s" and "rcvd s = []"
    and "0 < n" and "length (tls_payload (coming s)) \<le> k"
  shows "\<exists>t. poll_reads (tls_poll_read io) (tls_new s server) (replicate k n) = Some (t, tls_payload (coming s))"
  by (rule fed_stream.tls_reads_fed[OF assms])

definition sample_tls_stream :: bytes where
  "sample_tls_stream = replicate 105 7 @ [0, 0, 23, 3, 3, 0, 2, 104, 105, 23, 3, 3, 0, 1, 33]"

lemma sample_tls_payload: "tls_payload sample_tls_stream = [104, 105, 33]"
  by code_simp

theorem tls_delivers_payload_witness:
  "\<exists>t. poll_reads (tls_poll_read script_ops)
     (tls_new (script_of [Data (take 107 sample_tls_stream), Data (drop 107 sample_tls_stream)] []) ''h'')
     (replicate 3 1) = Some (t, [104, 105, 33])"
proof -
  let ?s = "script_of [Data (take 107 sample_tls_stream), Data (drop 107 sample_tls_stream)] []"
  have "length sample_tls_stream = 120" by (simp add: sample_tls_stream_def)
  then have "only_data (rx ?s)" "script_coming (rx ?s) = sample_tls_stream" "taken ?s = []"
    by (auto simp: script_of_def simp flip: length_0_conv)
  with tls_delivers_payload[OF script_fed.fed_stream_axioms, of ?s 1 3 "''h''"] sample_tls_payload
  show ?thesis by simp
qed

text \<open>
  C17: an empty read into a non-empty buffer is reported only when the transport below has
  reached its end, after any sequence of polls; and no read exceeds the buffer.
\<close>

theorem tls_no_false_eof:
  assumes "stream_reader io good rcvd eof" and "good s" and "rcvd s = []"
    and "poll_reads (tls_poll_read io) (tls_new s server) ns = Some (t, out)"
    and "tls_poll_read io t n = Some (t', Ready (Ok bs))"
  shows "length bs \<le> n \<and> (0 < n \<longrightarrow> bs = [] \<longrightarrow> eof (t_inner t'))"
  by (rule stream_reader.tls_reads_end[OF assms])

lemma sample_tls_eof:
  "poll_reads (tls_poll_read script_ops) (tls_new (script_of [Data [22], Read_Pending, Eof] []) ''h'') [8]
     = Some (tls_new (script_of [] []) ''h''
         \<lparr>t_inner := (script_of [Eof] [])\<lparr>taken := [22]\<rparr>, t_read_phase := Discard 104\<rparr>, [])"
  "tls_poll_read script_ops (tls_new (script_of [] []) ''h''
         \<lparr>t_inner := (script_of [Eof] [])\<lparr>taken := [22]\<rparr>, t_read_phase := Discard 104\<rparr>) 8
     = Some (tls_new (script_of [] []) ''h''
         \<lparr>t_inner := (script_of [Eof] [])\<lparr>taken := [22], ended := True\<rparr>, t_read_phase := Discard 104\<rparr>,
         Ready (Ok []))"
  by code_simp+

theorem tls_no_false_eof_witness:
  "\<exists>t' :: script tls_obfs. tls_poll_read script_ops (tls_new (script_of [] []) ''h''
         \<lparr>t_inner := (script_of [Eof] [])\<lparr>taken := [22]\<rparr>, t_read_phase := Discard 104\<rparr>) 8
     = Some (t', Ready (Ok [])) \<and> ended (t_inner t')"
  using tls_no_false_eof[OF script_finite.stream_reader_axioms _ _ sample_tls_eof] sample_tls_eof(2)
  by (auto simp: script_of_def)

text \<open>
  C18: over a transport that has only finitely many bytes at hand, every poll of a new
  \<open>TlsObfs\<close> returns, for any sequence of buffer sizes.
\<close>

theorem tls_poll_read_terminates:
  assumes "finite_stream io good rcvd eof avail" and "good s" and "rcvd s = []"
  shows "\<exists>t out. poll_reads (tls_poll_read io) (tls_new s server) ns = Some (t, out)"
  by (rule finite_stream.tls_new_reads_return[OF assms])

theorem tls_poll_read_terminates_witness:
  "\<exists>t out. poll_reads (tls_poll_read script_ops)
     (tls_new (script_of [Data (replicate 200 0), Read_Pending, Data [1], Read_Error (Os 104)] []) ''h'')
     [0, 8, 1, 8] = Some (t, out)"
  by (rule tls_poll_read_terminates[OF script_finite.finite_stream_axioms])
    (simp_all add: script_of_def)

text \<open>
  Without that bound one poll may run for ever. A transport that always has zero bytes ready
  is a stream of empty records, and the loop never finds a byte to return. (Over a tokio
  \<open>TcpStream\<close> the cooperative budget makes a read pending now and then, which ends the poll.)
\<close>

theorem tls_poll_read_may_diverge:
  "tls_poll_read zero_ops (tls_new () server) room = None"
  by (rule tls_poll_read_diverges)
    (auto simp: no_payload_def tls_new_def)

lemma u16_sum_eq_iff:
  "unat (numeral k + of_nat n + of_nat m :: u16) = numeral k + (n + m) \<longleftrightarrow>
     numeral k + (n + m) < 65536"
proof -
  have "(numeral k + of_nat n + of_nat m :: u16) = of_nat (numeral k + n + m)" by simp
  then have "unat (numeral k + of_nat n + of_nat m :: u16) = (numeral k + n + m) mod 65536"
    by (simp only: unat_of_nat) simp
  then show ?thesis by (simp add: add.assoc mod_eq_self_iff_div_eq_0 div_eq_0_iff)
qed

lemma hello_front_ext:
  "u16_from_be (hello_front d n m ! 136) (hello_front d n m ! 137) = 79 + of_nat n + of_nat m"
  "u16_from_be (hello_front d n m ! 140) (hello_front d n m ! 141) = of_nat n"
  by (simp_all add: hello_front_def Let_def u16_to_be_def nth_append fill_bytes_def
      cipher_suites_def u32_to_be_def upt_rec)


text \<open>
  C24: what a new wrapper puts on the wire for a first chunk and any later ones, an obfs server
  decodes back to the chunks, as long as they are as large as \<open>poll_write\<close> makes them.
\<close>

theorem tls_records_roundtrip:
  assumes "length c \<le> TLS_CHUNK_SIZE" and "\<forall>x\<in>set cs. length x \<le> TLS_CHUNK_SIZE"
    and "length server \<le> 48939"
  shows "tls_peer_decode (build_client_hello d c server @ concat (map tls_app_record cs)) = c @ concat cs"
proof -
  have "length c + length server \<le> 65323" and "\<forall>x\<in>set cs. length x < 65536"
    using assms by (auto simp: TLS_CHUNK_SIZE_def)
  with tls_frames_app_records[of cs "[]"] show ?thesis by (simp add: tls_peer_decode_hello)
qed

theorem tls_records_roundtrip_witness:
  "tls_peer_decode (build_client_hello sample_tls_draw [1] ''h'' @ tls_app_record [2, 3]) = [1, 2, 3]"
  using tls_records_roundtrip[of "[1]" "[[2, 3]]" "''h''" sample_tls_draw]
  by (simp add: TLS_CHUNK_SIZE_def)

text \<open>
  And what a server puts on the wire, its handshake of 105 bytes before the first length,
  and records of at most 65535 bytes, \<open>TlsObfs\<close> decodes back.
\<close>

theorem tls_payload_of_records:
  assumes "length hs = 105" and "length p < 65536" and "\<forall>x\<in>set ps. length x < 65536"
  shows "tls_payload (hs @ u16_to_be (of_nat (length p)) @ p @ concat (map tls_app_record ps))
    = p @ concat ps"
  using assms tls_frames_app_records[of ps "[]"]
  by (simp add: tls_payload_def tls_frames_length_field)

theorem tls_payload_of_records_witness:
  "tls_payload (replicate 105 7 @ u16_to_be (of_nat (length [5])) @ [5] @ concat (map tls_app_record [[6], [7, 8]]))
    = [5, 6, 7, 8]"
  using tls_payload_of_records[of "replicate 105 7" "[5]" "[[6], [7, 8]]"] by simp

lemma tls_drain_pending_input:
  "tls_poll_drain_write_buf io t = (t', r) \<Longrightarrow> t_pending_input t' = t_pending_input t"
  by (auto simp: tls_poll_drain_write_buf_def split: prod.splits)

text \<open>
  A fresh poll with data accepts the whole of it up to 16 KiB, never nothing, whatever the
  transport answers; and an empty write is accepted at once and sends nothing.
\<close>

theorem tls_write_accepts_chunk:
  assumes "t_write_buf t = []" and "tls_poll_write io d t buf = (t', Ready (Ok n))"
  shows "n = min (length buf) 16384 \<and> (buf = [] \<longrightarrow> t' = t)"
  using assms tls_drain_pending_input
  by (fastforce simp: tls_poll_write_def Let_def TLS_CHUNK_SIZE_def
      split: if_splits prod.splits poll.splits sum.splits)

theorem tls_write_accepts_chunk_witness:
  "\<exists>t' n. tls_poll_write script_ops sample_tls_draw (tls_new (script_of [] []) ''h'') [1, 2]
     = (t', Ready (Ok n)) \<and> n = min (length [1 :: u8, 2]) 16384"
proof -
  let ?t = "tls_new (script_of [] []) ''h''"
  have "snd (tls_poll_write script_ops sample_tls_draw ?t [1, 2]) = Ready (Ok 2)" by code_simp
  then obtain t' where run: "tls_poll_write script_ops sample_tls_draw ?t [1, 2] = (t', Ready (Ok 2))"
    by (metis prod.collapse)
  have "t_write_buf ?t = []" by (simp add: tls_new_def)
  from tls_write_accepts_chunk[OF this run] run show ?thesis by blast
qed

text \<open>
  C28: when a flush or a shutdown succeeds, every byte that was framed and waiting is on the wire,
  after what was sent before, and the buffer is empty.
\<close>

theorem tls_close_sends_all:
  assumes "async_stream io good rcvd eof sent" and "good (t_inner t)"
    and "(if k then tls_poll_shutdown io t else tls_poll_flush io t) = (t', Ready (Ok u))"
  shows "sent (t_inner t') = sent (t_inner t) @ drop (t_write_buf_off t) (t_write_buf t) \<and>
    t_write_buf t' = []"
  using async_stream.tls_poll_close_sends[OF assms(1,3,2)] by (auto simp: tls_bound_def)

theorem tls_close_sends_all_witness:
  "wire (t_inner (fst (tls_poll_flush script_ops
     ((tls_new (script_of [] [Accept 1]) ''h'')\<lparr>t_write_buf := [7, 8, 9], t_write_buf_off := 1\<rparr>))))
   = [8, 9]"
proof -
  let ?t = "(tls_new (script_of [] [Accept 1]) ''h'')\<lparr>t_write_buf := [7, 8, 9], t_write_buf_off := 1\<rparr>"
  have "snd (tls_poll_flush script_ops ?t) = Ready (Ok ())" by code_simp
  then have "(if False then tls_poll_shutdown script_ops ?t else tls_poll_flush script_ops ?t)
      = (fst (tls_poll_flush script_ops ?t), Ready (Ok ()))" by (metis prod.collapse)
  from tls_close_sends_all[OF script_stream.async_stream_axioms _ this] show ?thesis
    by (simp add: tls_new_def script_of_def)
qed

text \<open>
  As for \<open>HttpObfs\<close>, a flush while a write is outstanding sends the frame, and the retry of
  the same data sends it once more, in a second record.
\<close>

theorem tls_flush_then_retry_duplicates:
  assumes "p \<noteq> []" and "length p \<le> 16384"
  shows "\<exists>t1 t2 t3.
     tls_poll_write script_ops d (tls_new (script_of [] [Write_Pending]) server) p = (t1, Pending) \<and>
     tls_poll_flush script_ops t1 = (t2, Ready (Ok ())) \<and>
     tls_poll_write script_ops d' t2 p = (t3, Ready (Ok (length p))) \<and>
     wire (t_inner t3) = build_client_hello d p server @ tls_app_record p"
proof -
  let ?hello = "build_client_hello d p server"
  let ?t = "(tls_new (script_of [] []) server)\<lparr>t_first_request := False, t_pending_input := length p\<rparr>"
  let ?s = "(script_of [] [])\<lparr>wire := ?hello\<rparr>"
  have frames: "?hello \<noteq> []" "tls_app_record p \<noteq> []"
    using length_build_client_hello[of d p server]
    by (auto simp: tls_app_record_def simp del: length_build_client_hello)
  have p: "take (min (length p) TLS_CHUNK_SIZE) p = p" "min (length p) TLS_CHUNK_SIZE = length p"
    using assms(2) by (simp_all add: TLS_CHUNK_SIZE_def)
  have "tls_poll_write script_ops d (tls_new (script_of [] [Write_Pending]) server) p
      = (?t\<lparr>t_write_buf := ?hello\<rparr>, Pending)"
    using assms(1) frames p
    by (simp add: tls_poll_write_def tls_poll_drain_write_buf_def tls_new_def script_of_def
        poll_drain_held Let_def)
  moreover have "tls_poll_flush script_ops (?t\<lparr>t_write_buf := ?hello\<rparr>) = (?t\<lparr>t_inner := ?s\<rparr>, Ready (Ok ()))"
    using frames by (simp add: tls_poll_flush_def tls_poll_drain_write_buf_def tls_new_def script_of_def
        poll_drain_open)
  moreover have "tls_poll_write script_ops d' (?t\<lparr>t_inner := ?s\<rparr>) p
      = (?t\<lparr>t_inner := ?s\<lparr>wire := ?hello @ tls_app_record p\<rparr>, t_pending_input := 0\<rparr>, Ready (Ok (length p)))"
    using assms(1) frames p
    by (simp add: tls_poll_write_def tls_poll_drain_write_buf_def tls_new_def script_of_def
        poll_drain_open Let_def)
  ultimately show ?thesis by (intro exI conjI) (assumption+, simp)
qed

theorem tls_flush_then_retry_duplicates_witness:
  "\<exists>t1 t2 t3.
     tls_poll_write script_ops sample_tls_draw (tls_new (script_of [] [Write_Pending]) ''h'') [1] = (t1, Pending) \<and>
     tls_poll_flush script_ops t1 = (t2, Ready (Ok ())) \<and>
     tls_poll_write script_ops sample_tls_draw t2 [1] = (t3, Ready (Ok 1)) \<and>
     wire (t_inner t3) = build_client_hello sample_tls_draw [1] ''h'' @ tls_app_record [1]"
  using tls_flush_then_retry_duplicates[of "[1]" sample_tls_draw "''h''" sample_tls_draw] by simp

end
