(* ===== verification/Checked.thy ===== *)
theory Checked
  imports Prelude "HOL-Library.Monad_Syntax"
begin

text \<open>
  The operations of Rust that panic, with the panic as \<open>None\<close>: slicing and indexing outside a
  buffer, \<open>copy_from_slice\<close> between slices of different lengths, \<open>ReadBuf::put_slice\<close> beyond
  the room that is left, and, in a build with overflow checks (every debug build, and so every
  run of the tests), sums and differences that leave their type. They are composed with \<open>do\<close>,
  so that a routine written with them is \<open>Some\<close> exactly if none of its operations panics.

  Sums of \<open>usize\<close> are not among them: in this crate they add lengths and offsets of buffers that
  exist in memory, and an allocation has at most \<open>isize::MAX\<close> bytes.
\<close>

section \<open>Slices\<close>

text \<open>\<open>xs[i..]\<close>, \<open>xs[..n]\<close>, \<open>xs[i..j]\<close> and \<open>xs[i]\<close>.\<close>

definition slice_from :: "'a list \<Rightarrow> nat \<Rightarrow> 'a list option" where
  "slice_from xs i = (if i \<le> length xs then Some (drop i xs) else None)"

definition slice_to :: "'a list \<Rightarrow> nat \<Rightarrow> 'a list option" where
  "slice_to xs n = (if n \<le> length xs then Some (take n xs) else None)"

definition slice_range :: "'a list \<Rightarrow> nat \<Rightarrow> nat \<Rightarrow> 'a list option" where
  "slice_range xs i j = (if i \<le> j \<and> j \<le> length xs then Some (take (j - i) (drop i xs)) else None)"

definition index_at :: "'a list \<Rightarrow> nat \<Rightarrow> 'a option" where
  "index_at xs i = (if i < length xs then Some (xs ! i) else None)"

text \<open>\<open>xs[i..j].copy_from_slice(ys)\<close>: the new content of \<open>xs\<close>.\<close>

definition copy_into :: "'a list \<Rightarrow> nat \<Rightarrow> nat \<Rightarrow> 'a list \<Rightarrow> 'a list option" where
  "copy_into xs i j ys = do {
     target \<leftarrow> slice_range xs i j;
     (if length target = length ys then Some (take i xs @ ys @ drop j xs) else None)
   }"

text \<open>
  \<open>ReadBuf::put_slice\<close> with \<open>room\<close> bytes left, and the array behind a \<open>ReadBuf\<close> of capacity
  \<open>cap\<close>, zeroed before, once \<open>bs\<close> was filled in.
\<close>

definition put_slice :: "nat \<Rightarrow> bytes \<Rightarrow> bytes option" where
  "put_slice room bs = (if length bs \<le> room then Some bs else None)"

definition filled :: "nat \<Rightarrow> bytes \<Rightarrow> bytes" where
  "filled cap bs = bs @ replicate (cap - length bs) 0"

section \<open>Arithmetic with overflow checks\<close>

definition usize_minus :: "nat \<Rightarrow> nat \<Rightarrow> nat option" where
  "usize_minus a b = (if b \<le> a then Some (a - b) else None)"

definition u16_plus :: "u16 \<Rightarrow> u16 \<Rightarrow> u16 option" where
  "u16_plus a b = (if unat a + unat b < 2 ^ 16 then Some (a + b) else None)"

named_theorems in_range \<open>when the checked operations return\<close>

lemma slice_from_ok [in_range]: "i \<le> length xs \<Longrightarrow> slice_from xs i = Some (drop i xs)"
  by (simp add: slice_from_def)

lemma slice_to_ok [in_range]: "n \<le> length xs \<Longrightarrow> slice_to xs n = Some (take n xs)"
  by (simp add: slice_to_def)

lemma slice_range_ok [in_range]:
  "\<lbrakk>i \<le> j; j \<le> length xs\<rbrakk> \<Longrightarrow> slice_range xs i j = Some (take (j - i) (drop i xs))"
  by (simp add: slice_range_def)

lemma index_at_ok [in_range]: "i < length xs \<Longrightarrow> index_at xs i = Some (xs ! i)"
  by (simp add: index_at_def)

lemma copy_into_ok [in_range]:
  "\<lbrakk>i \<le> j; j \<le> length xs; length ys = j - i\<rbrakk> \<Longrightarrow> copy_into xs i j ys = Some (take i xs @ ys @ drop j xs)"
  by (simp add: copy_into_def slice_range_def)

lemma put_slice_ok [in_range]: "length bs \<le> room \<Longrightarrow> put_slice room bs = Some bs"
  by (simp add: put_slice_def)

lemma filled_prefix [in_range]: "slice_to (filled cap bs) (length bs) = Some bs"
  by (simp add: slice_to_def filled_def)

lemma usize_minus_ok [in_range]: "b \<le> a \<Longrightarrow> usize_minus a b = Some (a - b)"
  by (simp add: usize_minus_def)

lemma u16_plus_ok [in_range]: "unat a + unat b < 2 ^ 16 \<Longrightarrow> u16_plus a b = Some (a + b)"
  by (simp add: u16_plus_def)

text \<open>Checked sums of two and of three, over numbers cast to \<open>u16\<close>.\<close>

lemma unat_plus_u16: "unat a + unat b < 2 ^ 16 \<Longrightarrow> unat (a + b :: u16) = unat a + unat b"
  by (simp add: unat_add_lem[where 'a = 16, simplified])

lemma u16_plus_plus:
  "Option.bind (u16_plus a b) (\<lambda>x. Option.bind (u16_plus x c) f) =
     (if unat a + unat b + unat c < 2 ^ 16 then f (a + b + c) else None)"
proof (cases "unat a + unat b < 2 ^ 16")
  case True
  then show ?thesis using unat_plus_u16[OF True] by (simp add: u16_plus_def)
next
  case False
  then show ?thesis by (simp add: u16_plus_def)
qed

lemma u16_plus_bind:
  "Option.bind (u16_plus a b) f = (if unat a + unat b < 2 ^ 16 then f (a + b) else None)"
  by (simp add: u16_plus_def)

section \<open>Assertions\<close>

text \<open>\<open>assert!\<close>.\<close>

definition assert_that :: "bool \<Rightarrow> unit option" where
  "assert_that b = (if b then Some () else None)"

lemma assert_that_simps [simp]: "assert_that True = Some ()" "assert_that False = None"
  by (simp_all add: assert_that_def)

end
