(* ===== verification/Obfs_Checked.thy ===== *)
theory Obfs_Checked
  imports Checked Obfs_Http_Duplex Obfs_Tls_Duplex
begin

text \<open>
  The routines of \<open>src/native/sslocal-ffi/src/obfs.rs\<close> that slice, index, subtract or add
  sixteen-bit lengths, a second time: with the operations of \<open>Checked\<close>, so that a panic is the
  value \<open>None\<close>. The theorems say that these routines and the definitions of \<open>Obfs_Http\<close> and
  \<open>Obfs_Tls\<close> agree, so none of those operations panics; the one exception is the ClientHello
  for a very long server name, in a build with overflow checks, and the bound is exact.

  The remaining routines (\<open>poll_flush\<close>, \<open>poll_shutdown\<close> of both wrappers and \<open>poll_write\<close> of
  \<open>HttpObfs\<close>) reach such an operation only through \<open>poll_drain_write_buf\<close>.
\<close>

section \<open>The drain loop\<close>

function poll_drain_checked ::
  "('s \<Rightarrow> bytes \<Rightarrow> 's \<times> nat io_result poll) \<Rightarrow> 's \<Rightarrow> bytes \<Rightarrow> nat \<Rightarrow>
   ('s \<times> bytes \<times> nat \<times> unit io_result poll) option" where
  "poll_drain_checked wr s buf off =
     (if off < length buf then do {
        rest \<leftarrow> slice_from buf off;
        (case wr s rest of
           (s', Pending) \<Rightarrow> Some (s', buf, off, Pending)
         | (s', Ready (Inl e)) \<Rightarrow> Some (s', buf, off, Ready (Err e))
         | (s', Ready (Inr n)) \<Rightarrow>
             if n = 0 then Some (s', buf, off, Ready (Err write_zero_error))
             else poll_drain_checked wr s' buf (off + n))
      }
      else Some (s, [], 0, Ready (Ok ())))"
  by pat_completeness auto
termination
  by (relation "measure (\<lambda>(wr, s, buf, off). length buf - off)") auto

declare poll_drain_checked.simps [simp del]

lemma poll_drain_checked_eq [simp]: "poll_drain_checked wr s buf off = Some (poll_drain wr s buf off)"
proof (induction wr s buf off rule: poll_drain_checked.induct)
  case (1 wr s buf off)
  show ?case
  proof (cases "off < length buf")
    case inside: True
    obtain t w where step: "wr s (drop off buf) = (t, w)" by (cases "wr s (drop off buf)")
    have slice: "slice_from buf off = Some (drop off buf)" using inside by (simp add: in_range)
    show ?thesis
    proof (cases w rule: poll_cases)
      case (ok n)
      show ?thesis
      proof (cases "n = 0")
        case True
        then show ?thesis using inside step ok slice
          by (simp add: poll_drain_checked.simps[of wr s] poll_drain.simps[of wr s])
      next
        case False
        then have "poll_drain_checked wr t buf (off + n) = Some (poll_drain wr t buf (off + n))"
          using "1.IH"[OF inside slice step[symmetric] ok refl] by simp
        then show ?thesis using inside False step ok slice
          by (simp add: poll_drain_checked.simps[of wr s] poll_drain.simps[of wr s])
      qed
    qed (use inside step slice in
        \<open>simp_all add: poll_drain_checked.simps[of wr s] poll_drain.simps[of wr s]\<close>)
  next
    case False
    then show ?thesis by (simp add: poll_drain_checked.simps[of wr s])
  qed
qed

section \<open>Reading from HttpObfs\<close>

text \<open>The search of \<open>find_double_crlf\<close>, from index to index.\<close>

fun search_double_crlf :: "bytes \<Rightarrow> nat list \<Rightarrow> nat option option" where
  "search_double_crlf data [] = Some None"
| "search_double_crlf data (i # is) = do {
     window \<leftarrow> slice_range data i (i + 4);
     (if window = double_crlf then Some (Some i) else search_double_crlf data is)
   }"

definition find_double_crlf_checked :: "bytes \<Rightarrow> nat option option" where
  "find_double_crlf_checked data =
     (if length data < 4 then Some None
      else do {
        last \<leftarrow> usize_minus (length data) 4;
        search_double_crlf data [0..<last + 1]
      })"

lemma search_double_crlf_eq:
  "\<forall>i\<in>set is. i + 4 \<le> length data \<Longrightarrow>
     search_double_crlf data is = Some (find (\<lambda>i. take 4 (drop i data) = double_crlf) is)"
  by (induction "is") (simp_all add: in_range)

lemma find_double_crlf_checked_eq [simp]: "find_double_crlf_checked data = Some (find_double_crlf data)"
proof (cases "length data < 4")
  case True
  then show ?thesis by (simp add: find_double_crlf_checked_def find_double_crlf_def)
next
  case False
  then have "\<forall>i\<in>set [0..<length data - 4 + 1]. i + 4 \<le> length data" by auto
  from search_double_crlf_eq[OF this] False show ?thesis
    by (simp add: find_double_crlf_checked_def find_double_crlf_def in_range del: upt_Suc)
qed

text \<open>What \<open>poll_read\<close> does once the terminator is at \<open>idx\<close> of the scratch buffer.\<close>

definition http_header_end_checked ::
  "'s stream_ops \<Rightarrow> 's http_obfs \<Rightarrow> 's \<Rightarrow> bytes \<Rightarrow> nat \<Rightarrow> nat \<Rightarrow> ('s http_obfs \<times> bytes io_result poll) option" where
  "http_header_end_checked io h s scratch idx room = do {
     body \<leftarrow> slice_from scratch (idx + 4);
     let n = min (length body) room;
     front \<leftarrow> slice_to body n;
     out \<leftarrow> put_slice room front;
     h' \<leftarrow> (if n < length body then do {
               rest \<leftarrow> slice_from body n;
               Some (h\<lparr>h_inner := s, h_first_response := False, h_response_scratch := [],
                       h_leftover := h_leftover h @ rest, h_leftover_off := 0\<rparr>)
             }
             else Some (h\<lparr>h_inner := s, h_first_response := False, h_response_scratch := []\<rparr>));
     (if 0 < n then Some (h', Ready (Ok out))
      else Some (case op_read io s room of (s', r) \<Rightarrow> (h'\<lparr>h_inner := s'\<rparr>, r)))
   }"

function http_read_header_checked ::
  "'s stream_ops \<Rightarrow> 's http_obfs \<Rightarrow> nat \<Rightarrow> ('s http_obfs \<times> bytes io_result poll) option" where
  "http_read_header_checked io h room =
     (case op_read io (h_inner h) 1024 of
        (s, Pending) \<Rightarrow> Some (h\<lparr>h_inner := s\<rparr>, Pending)
      | (s, Ready (Inl e)) \<Rightarrow> Some (h\<lparr>h_inner := s\<rparr>, Ready (Err e))
      | (s, Ready (Inr bs)) \<Rightarrow>
          if bs = [] then Some (h\<lparr>h_inner := s\<rparr>, Ready (Ok []))
          else
            (case slice_to (filled 1024 bs) (length bs) of
               None \<Rightarrow> None
             | Some new \<Rightarrow>
                 let scratch = h_response_scratch h @ new in
                 (case find_double_crlf_checked scratch of
                    None \<Rightarrow> None
                  | Some (Some idx) \<Rightarrow> http_header_end_checked io h s scratch idx room
                  | Some None \<Rightarrow>
                      if MAX_HEADER < length scratch
                      then Some (h\<lparr>h_inner := s, h_response_scratch := scratch\<rparr>, Ready (Err header_limit_error))
                      else http_read_header_checked io (h\<lparr>h_inner := s, h_response_scratch := scratch\<rparr>) room)))"
  by pat_completeness auto
termination
  by (relation "measure (\<lambda>(io, h, room). Suc MAX_HEADER - length (h_response_scratch h))")
    (auto simp: filled_prefix length_greater_0_conv[symmetric] simp del: length_greater_0_conv)

declare http_read_header_checked.simps [simp del]

definition http_poll_read_checked ::
  "'s stream_ops \<Rightarrow> 's http_obfs \<Rightarrow> nat \<Rightarrow> ('s http_obfs \<times> bytes io_result poll) option" where
  "http_poll_read_checked io h room =
     (if h_leftover_off h < length (h_leftover h) then do {
        avail \<leftarrow> slice_from (h_leftover h) (h_leftover_off h);
        let n = min (length avail) room;
        front \<leftarrow> slice_to avail n;
        out \<leftarrow> put_slice room front;
        let off = h_leftover_off h + n;
        Some (if length (h_leftover h) \<le> off then h\<lparr>h_leftover := [], h_leftover_off := 0\<rparr>
              else h\<lparr>h_leftover_off := off\<rparr>, Ready (Ok out))
      }
      else if h_first_response h then http_read_header_checked io h room
      else Some (case op_read io (h_inner h) room of (s, r) \<Rightarrow> (h\<lparr>h_inner := s\<rparr>, r)))"

lemma http_read_header_checked_eq:
  "http_read_header_checked io h room = Some (http_read_header io h room)"
proof (induction io h room rule: http_read_header_checked.induct)
  case (1 io h room)
  obtain s p where step: "op_read io (h_inner h) 1024 = (s, p)"
    by (cases "op_read io (h_inner h) 1024")
  note unfold = http_read_header_checked.simps[of io h] http_read_header.simps[of io h]
  show ?case
  proof (cases p rule: poll_cases)
    case (ok bs)
    let ?h = "h\<lparr>h_inner := s, h_response_scratch := h_response_scratch h @ bs\<rparr>"
    show ?thesis
    proof (cases "bs = []")
      case True
      then show ?thesis using step ok by (simp add: unfold)
    next
      case some: False
      show ?thesis
      proof (cases "find_double_crlf (h_response_scratch h @ bs)")
        case None
        show ?thesis
        proof (cases "MAX_HEADER < length (h_response_scratch h @ bs)")
          case True
          then show ?thesis using step ok some None by (simp add: unfold in_range Let_def)
        next
          case False
          have "http_read_header_checked io ?h room = Some (http_read_header io ?h room)"
            using "1.IH"[OF step[symmetric] ok refl some filled_prefix refl _ refl] None False by simp
          then show ?thesis using step ok some None by (simp add: unfold in_range Let_def)
        qed
      next
        case (Some i)
        from find_double_crlf_bound[OF Some] have "i + 4 \<le> length (h_response_scratch h @ bs)" .
        then show ?thesis using step ok some Some
          by (auto simp: unfold http_header_end_checked_def in_range Let_def split: prod.splits)
      qed
    qed
  qed (use step in \<open>simp_all add: unfold\<close>)
qed

lemma http_poll_read_checked_eq: "http_poll_read_checked io h room = Some (http_poll_read io h room)"
  by (simp add: http_poll_read_checked_def http_poll_read_def http_read_header_checked_eq in_range Let_def)

section \<open>Reading from TlsObfs\<close>

definition tls_read_turn_checked ::
  "'s stream_ops \<Rightarrow> 's tls_obfs \<Rightarrow> nat \<Rightarrow> ('s tls_obfs + ('s tls_obfs \<times> bytes io_result poll)) option" where
  "tls_read_turn_checked io t room =
     (case t_read_phase t of
        Discard remaining \<Rightarrow>
          if remaining = 0 then Some (Inl (t\<lparr>t_read_phase := Length, t_len_progress := 0\<rparr>))
          else do {
            tmp \<leftarrow> slice_to (replicate 256 (0 :: u8)) (min remaining 256);
            (case op_read io (t_inner t) (length tmp) of
               (s, Pending) \<Rightarrow> Some (Inr (t\<lparr>t_inner := s\<rparr>, Pending))
             | (s, Ready (Inl e)) \<Rightarrow> Some (Inr (t\<lparr>t_inner := s\<rparr>, Ready (Err e)))
             | (s, Ready (Inr bs)) \<Rightarrow>
                 if bs = [] then Some (Inr (t\<lparr>t_inner := s\<rparr>, Ready (Ok [])))
                 else do {
                   left \<leftarrow> usize_minus remaining (length bs);
                   Some (Inl (t\<lparr>t_inner := s, t_read_phase := Discard left\<rparr>))
                 })
          }
      | Length \<Rightarrow>
          if 2 \<le> t_len_progress t then do {
            a \<leftarrow> index_at (t_len_buf t) 0;
            b \<leftarrow> index_at (t_len_buf t) 1;
            Some (Inl (t\<lparr>t_read_phase := Payload (unat (u16_from_be a b))\<rparr>))
          }
          else do {
            need \<leftarrow> usize_minus 2 (t_len_progress t);
            tmp \<leftarrow> slice_to (replicate 2 (0 :: u8)) need;
            (case op_read io (t_inner t) (length tmp) of
               (s, Pending) \<Rightarrow> Some (Inr (t\<lparr>t_inner := s\<rparr>, Pending))
             | (s, Ready (Inl e)) \<Rightarrow> Some (Inr (t\<lparr>t_inner := s\<rparr>, Ready (Err e)))
             | (s, Ready (Inr bs)) \<Rightarrow>
                 if bs = [] then Some (Inr (t\<lparr>t_inner := s\<rparr>, Ready (Ok [])))
                 else do {
                   new \<leftarrow> slice_to (filled 2 bs) (length bs);
                   len_buf \<leftarrow> copy_into (t_len_buf t) (t_len_progress t) (t_len_progress t + length bs) new;
                   Some (Inl (t\<lparr>t_inner := s, t_len_buf := len_buf,
                                t_len_progress := t_len_progress t + length bs\<rparr>))
                 })
          }
      | Payload remaining \<Rightarrow>
          if remaining = 0
          then Some (Inl (t\<lparr>t_read_phase := Discard TLS_RECORD_HEADER_DISCARD, t_first_response := False\<rparr>))
          else
            let space = min room remaining in
            if space = 0 then Some (Inr (t, Ready (Ok [])))
            else (case op_read io (t_inner t) space of
               (s, Pending) \<Rightarrow> Some (Inr (t\<lparr>t_inner := s\<rparr>, Pending))
             | (s, Ready (Inl e)) \<Rightarrow> Some (Inr (t\<lparr>t_inner := s\<rparr>, Ready (Err e)))
             | (s, Ready (Inr bs)) \<Rightarrow>
                 if bs = [] then Some (Inr (t\<lparr>t_inner := s\<rparr>, Ready (Ok [])))
                 else do {
                   new \<leftarrow> slice_to (filled space bs) (length bs);
                   out \<leftarrow> put_slice room new;
                   left \<leftarrow> usize_minus remaining (length bs);
                   Some (Inr (t\<lparr>t_inner := s, t_read_phase := Payload left\<rparr>, Ready (Ok out)))
                 }))"

text \<open>The loop: \<open>None\<close> if it does not return, \<open>Some None\<close> if it panics.\<close>

partial_function (option) tls_poll_read_checked ::
  "'s stream_ops \<Rightarrow> 's tls_obfs \<Rightarrow> nat \<Rightarrow> ('s tls_obfs \<times> bytes io_result poll) option option" where
  "tls_poll_read_checked io t room =
     (case tls_read_turn_checked io t room of
        None \<Rightarrow> Some None
      | Some turn \<Rightarrow>
          (case turn of
             Inl t' \<Rightarrow> tls_poll_read_checked io t' room
           | Inr result \<Rightarrow> Some (Some result)))"

section \<open>Writing to TlsObfs\<close>

text \<open>\<open>build_client_hello\<close> with its sums of \<open>u16\<close>; \<open>as u16\<close> truncates and does not panic.\<close>

definition build_client_hello_checked :: "tls_draw \<Rightarrow> bytes \<Rightarrow> string \<Rightarrow> bytes option" where
  "build_client_hello_checked d data server = do {
     let data_len = (of_nat (length data) :: u16);
     let server_len = (of_nat (length server) :: u16);
     record_data \<leftarrow> u16_plus 212 data_len;
     record_len \<leftarrow> u16_plus record_data server_len;
     handshake_data \<leftarrow> u16_plus 208 data_len;
     handshake_len \<leftarrow> u16_plus handshake_data server_len;
     let now = ((case unix_secs d of None \<Rightarrow> 0 | Some secs \<Rightarrow> of_nat secs) :: u32);
     ext_data \<leftarrow> u16_plus 79 data_len;
     ext_len \<leftarrow> u16_plus ext_data server_len;
     list_len \<leftarrow> u16_plus server_len 5;
     entry_len \<leftarrow> u16_plus server_len 3;
     Some (
       [0x16] @ [0x03, 0x01] @ u16_to_be record_len @
       [0x01] @ [0x00] @ u16_to_be handshake_len @
       [0x03, 0x03] @
       u32_to_be now @ fill_bytes (random_byte d) 28 @
       [32] @ fill_bytes (session_byte d) 32 @
       [0x00, 0x38] @ cipher_suites @
       [0x01, 0x00] @
       u16_to_be ext_len @
       [0x00, 0x23] @ u16_to_be data_len @ data @
       [0x00, 0x00] @ u16_to_be list_len @ u16_to_be entry_len @ [0x00] @
       u16_to_be server_len @ as_bytes server @
       [0x00, 0x0b, 0x00, 0x04, 0x03, 0x01, 0x00, 0x02] @
       [0x00, 0x0a, 0x00, 0x0a, 0x00, 0x08, 0x00, 0x1d, 0x00, 0x17, 0x00, 0x19, 0x00, 0x18] @
       [0x00, 0x0d, 0x00, 0x20, 0x00, 0x1e, 0x06, 0x01, 0x06, 0x02, 0x06, 0x03, 0x05, 0x01, 0x05,
        0x02, 0x05, 0x03, 0x04, 0x01, 0x04, 0x02, 0x04, 0x03, 0x03, 0x01, 0x03, 0x02, 0x03, 0x03,
        0x02, 0x01, 0x02, 0x02, 0x02, 0x03] @
       [0x00, 0x16, 0x00, 0x00] @
       [0x00, 0x17, 0x00, 0x00])
   }"

definition tls_poll_write_checked ::
  "'s stream_ops \<Rightarrow> tls_draw \<Rightarrow> 's tls_obfs \<Rightarrow> bytes \<Rightarrow> ('s tls_obfs \<times> nat io_result poll) option" where
  "tls_poll_write_checked io d t buf =
     (if t_write_buf t \<noteq> [] then
        Some (case tls_poll_drain_write_buf io t of
           (t', Pending) \<Rightarrow> (t', Pending)
         | (t', Ready (Inl e)) \<Rightarrow> (t', Ready (Err e))
         | (t', Ready (Inr _)) \<Rightarrow> (t'\<lparr>t_pending_input := 0\<rparr>, Ready (Ok (t_pending_input t'))))
      else if buf = [] then Some (t, Ready (Ok 0))
      else do {
        let n = min (length buf) TLS_CHUNK_SIZE;
        chunk \<leftarrow> slice_to buf n;
        t1 \<leftarrow> (if t_first_request t
               then do {
                 hello \<leftarrow> build_client_hello_checked d chunk (t_server t);
                 Some (t\<lparr>t_first_request := False, t_write_buf := hello\<rparr>)
               }
               else Some (t\<lparr>t_write_buf := tls_app_record chunk\<rparr>));
        Some (case tls_poll_drain_write_buf io (t1\<lparr>t_write_buf_off := 0, t_pending_input := n\<rparr>) of
                (t', Ready (Inr _)) \<Rightarrow> (t'\<lparr>t_pending_input := 0\<rparr>, Ready (Ok (t_pending_input t')))
              | (t', Ready (Inl e)) \<Rightarrow> (t', Ready (Err e))
              | (t', Pending) \<Rightarrow> (t', Pending))
      })"

section \<open>No panic\<close>

text \<open>What the type \<open>ReadBuf\<close> enforces: a read cannot put more into a buffer than it has room for.\<close>

definition bounded_reads :: "'s stream_ops \<Rightarrow> bool" where
  "bounded_reads io \<longleftrightarrow>
     (\<forall>s n. case op_read io s n of (_, Ready (Inr bs)) \<Rightarrow> length bs \<le> n | _ \<Rightarrow> True)"

lemma bounded_readsD: "\<lbrakk>bounded_reads io; op_read io s n = (s', Ready (Ok bs))\<rbrakk> \<Longrightarrow> length bs \<le> n"
  unfolding bounded_reads_def by (drule spec[of _ s], drule spec[of _ n]) simp

lemma tls_read_turn_checked_eq:
  assumes "bounded_reads io" and "tls_wf t"
  shows "tls_read_turn_checked io t room = Some (tls_read_turn io t room)"
proof (cases "t_read_phase t")
  case (Discard k)
  obtain s p where step: "op_read io (t_inner t) (min k 256) = (s, p)"
    by (cases "op_read io (t_inner t) (min k 256)")
  with bounded_readsD[OF assms(1), of "t_inner t" "min k 256"] Discard show ?thesis
    by (cases p rule: poll_cases) (auto simp: tls_read_turn_checked_def tls_read_turn_def in_range)
next
  case Length
  obtain s p where step: "op_read io (t_inner t) (2 - t_len_progress t) = (s, p)"
    by (cases "op_read io (t_inner t) (2 - t_len_progress t)")
  from assms(2) have wf: "t_len_progress t \<le> 2" "length (t_len_buf t) = 2" by (auto simp: tls_wf_def)
  show ?thesis
  proof (cases p rule: poll_cases)
    case (ok bs)
    have "length bs \<le> 2 - t_len_progress t" using bounded_readsD[OF assms(1)] step ok by blast
    with wf have "t_len_progress t + length bs \<le> 2" by simp
    with step ok wf Length show ?thesis
      by (auto simp: tls_read_turn_checked_def tls_read_turn_def in_range)
  qed (use step wf Length in \<open>auto simp: tls_read_turn_checked_def tls_read_turn_def in_range\<close>)
next
  case (Payload k)
  obtain s p where step: "op_read io (t_inner t) (min room k) = (s, p)"
    by (cases "op_read io (t_inner t) (min room k)")
  with bounded_readsD[OF assms(1), of "t_inner t" "min room k"] Payload show ?thesis
    by (cases p rule: poll_cases)
      (auto simp: tls_read_turn_checked_def tls_read_turn_def in_range Let_def)
qed

lemma tls_turn_wf:
  assumes "bounded_reads io" and "tls_wf t" and "tls_read_turn io t room = Inl t'"
  shows "tls_wf t' \<and> t_server t' = t_server t"
  using assms(3)
proof (cases rule: tls_read_turn_Inl)
  case (length_more s bs)
  have "length bs \<le> 2 - t_len_progress t" using bounded_readsD[OF assms(1) length_more(3)] .
  then show ?thesis using assms(2) length_more by (auto simp: tls_wf_def)
qed (use assms(2) in \<open>auto simp: tls_wf_def\<close>)

lemma tls_poll_read_wf:
  assumes "bounded_reads io" and "tls_wf t" and "tls_poll_read io t room = Some (t', r)"
  shows "tls_wf t' \<and> t_server t' = t_server t"
proof -
  let ?P = "\<lambda>u. tls_wf u \<and> t_server u = t_server t"
  have "\<exists>u. ?P u \<and> tls_read_turn io u room = Inr (t', r)"
  proof (rule tls_poll_read_loop[OF assms(3)])
    show "?P u'" if "?P u" "tls_read_turn io u room = Inl u'" for u u'
      using tls_turn_wf[OF assms(1) _ that(2)] that(1) by simp
  qed (use assms(2) in simp)
  then obtain u where "?P u" "tls_read_turn io u room = Inr (t', r)" by auto
  from this(2,1) show ?thesis by (cases rule: tls_read_turn_Inr) (auto simp: tls_wf_def)
qed

text \<open>The loop with checks returns what the loop without returns, and does not return otherwise.\<close>

lemma tls_poll_read_checked_sound:
  assumes "bounded_reads io" and "tls_wf t" and "tls_poll_read io t room = Some res"
  shows "tls_poll_read_checked io t room = Some (Some res)"
proof -
  define Q where "Q = (\<lambda>jo t room' res. jo = io \<longrightarrow> tls_wf t \<longrightarrow>
    tls_poll_read_checked jo t room' = Some (Some (res :: 'a tls_obfs \<times> bytes io_result poll)))"
  have "Q io t room res"
  proof (rule tls_poll_read.raw_induct[OF _ assms(3)])
    fix f jo t room' res
    assume hyp: "\<And>jo t room' res. f jo t room' = Some res \<Longrightarrow> Q jo t room' res"
      and eq: "(case tls_read_turn jo t room' of Inl t' \<Rightarrow> f jo t' room' | Inr x \<Rightarrow> Some x) = Some res"
    show "Q jo t room' res"
      unfolding Q_def
    proof (intro impI)
      assume io: "jo = io" and wf: "tls_wf t"
      note turn = tls_read_turn_checked_eq[OF assms(1) wf, of room']
      show "tls_poll_read_checked jo t room' = Some (Some res)"
      proof (cases "tls_read_turn io t room'")
        case (Inl t')
        with eq io hyp have "Q io t' room' res" by simp
        moreover have "tls_wf t'" using tls_turn_wf[OF assms(1) wf Inl] by simp
        ultimately show ?thesis using turn Inl io by (simp add: Q_def tls_poll_read_checked.simps[of io t])
      next
        case (Inr x)
        with eq io turn show ?thesis by (simp add: tls_poll_read_checked.simps[of io t])
      qed
    qed
  qed
  with assms(2) show ?thesis by (simp add: Q_def)
qed

lemma tls_poll_read_checked_complete:
  assumes "bounded_reads io" and "tls_wf t" and "tls_poll_read_checked io t room = Some x"
  shows "\<exists>res. x = Some res \<and> tls_poll_read io t room = Some res"
proof -
  define Q where "Q = (\<lambda>jo t room' x. jo = io \<longrightarrow> tls_wf t \<longrightarrow>
    (\<exists>res :: 'a tls_obfs \<times> bytes io_result poll. x = Some res \<and> tls_poll_read jo t room' = Some res))"
  have "Q io t room x"
  proof (rule tls_poll_read_checked.raw_induct[OF _ assms(3)])
    fix f jo t room' x
    assume hyp: "\<And>jo t room' x. f jo t room' = Some x \<Longrightarrow> Q jo t room' x"
      and eq: "(case tls_read_turn_checked jo t room' of None \<Rightarrow> Some None
        | Some turn \<Rightarrow> (case turn of Inl t' \<Rightarrow> f jo t' room' | Inr y \<Rightarrow> Some (Some y))) = Some x"
    show "Q jo t room' x"
      unfolding Q_def
    proof (intro impI)
      assume io: "jo = io" and wf: "tls_wf t"
      note turn = tls_read_turn_checked_eq[OF assms(1) wf, of room']
      show "\<exists>res. x = Some res \<and> tls_poll_read jo t room' = Some res"
      proof (cases "tls_read_turn io t room'")
        case (Inl t')
        with eq io hyp turn have "Q io t' room' x" by simp
        moreover have "tls_wf t'" using tls_turn_wf[OF assms(1) wf Inl] by simp
        ultimately show ?thesis using Inl io by (simp add: Q_def tls_poll_read_unfold[of io t])
      next
        case (Inr y)
        with eq io turn show ?thesis by (auto simp: tls_poll_read_unfold[of io t])
      qed
    qed
  qed
  with assms(2) show ?thesis by (simp add: Q_def)
qed

lemma tls_poll_read_checked_eq:
  assumes "bounded_reads io" and "tls_wf t"
  shows "tls_poll_read_checked io t room = map_option Some (tls_poll_read io t room)"
proof (cases "tls_poll_read io t room")
  case None
  with tls_poll_read_checked_complete[OF assms, of room] show ?thesis
    by (cases "tls_poll_read_checked io t room") fastforce+
next
  case (Some res)
  with tls_poll_read_checked_sound[OF assms] show ?thesis by simp
qed

text \<open>The ClientHello: the sum that decides is the first, \<open>212 + data_len + server_len\<close>.\<close>

lemma build_client_hello_checked_eq:
  "build_client_hello_checked d data server =
     (if 212 + length data mod 2 ^ 16 + length server mod 2 ^ 16 < 2 ^ 16
      then Some (build_client_hello d data server) else None)"
proof -
  let ?d = "of_nat (length data) :: u16" and ?s = "of_nat (length server) :: u16"
  have lens: "unat ?d = length data mod 2 ^ 16" "unat ?s = length server mod 2 ^ 16"
    by (simp_all add: unat_of_nat)
  show ?thesis
  proof (cases "212 + unat ?d + unat ?s < 2 ^ 16")
    case True
    then have "208 + unat ?d + unat ?s < 2 ^ 16" "79 + unat ?d + unat ?s < 2 ^ 16"
      "unat ?s + 5 < 2 ^ 16" "unat ?s + 3 < 2 ^ 16" by simp_all
    with True show ?thesis
      unfolding lens(1,2)[symmetric] build_client_hello_checked_def Let_def u16_plus_plus
      unfolding u16_plus_bind
      by (simp add: build_client_hello_def hello_front_def hello_back_def Let_def)
  next
    case False
    then show ?thesis
      unfolding lens(1,2)[symmetric] build_client_hello_checked_def Let_def u16_plus_plus by simp
  qed
qed

lemma tls_poll_write_checked_eq:
  assumes "length (t_server t) \<le> 48939"
  shows "tls_poll_write_checked io d t buf = Some (tls_poll_write io d t buf)"
proof -
  define n where "n = min (length buf) TLS_CHUNK_SIZE"
  have "length (take n buf) \<le> 16384" by (simp add: n_def TLS_CHUNK_SIZE_def)
  with assms have hello: "build_client_hello_checked d (take n buf) (t_server t)
      = Some (build_client_hello d (take n buf) (t_server t))"
    by (simp add: build_client_hello_checked_eq)
  have chunk: "slice_to buf n = Some (take n buf)" by (simp add: slice_to_def n_def)
  show ?thesis
    unfolding tls_poll_write_checked_def tls_poll_write_def Let_def n_def[symmetric]
    by (simp add: chunk hello)
qed

text \<open>The states of a wrapper under any sequence of polls, whatever they return.\<close>

inductive tls_reachable :: "'s stream_ops \<Rightarrow> string \<Rightarrow> 's tls_obfs \<Rightarrow> bool" for io server where
  new: "tls_reachable io server (tls_new s server)"
| read: "\<lbrakk>tls_reachable io server t; tls_poll_read io t room = Some (t', r)\<rbrakk> \<Longrightarrow> tls_reachable io server t'"
| write_to: "\<lbrakk>tls_reachable io server t; tls_poll_write io d t buf = (t', w)\<rbrakk> \<Longrightarrow> tls_reachable io server t'"
| flush: "\<lbrakk>tls_reachable io server t; tls_poll_flush io t = (t', u)\<rbrakk> \<Longrightarrow> tls_reachable io server t'"
| shutdown: "\<lbrakk>tls_reachable io server t; tls_poll_shutdown io t = (t', u)\<rbrakk> \<Longrightarrow> tls_reachable io server t'"

lemma tls_drain_wf:
  assumes "tls_poll_drain_write_buf io t = (t', r)"
  shows "tls_wf t' = tls_wf t \<and> t_server t' = t_server t"
  using assms by (auto simp: tls_poll_drain_write_buf_def tls_wf_def split: prod.splits)

lemma tls_poll_write_wf:
  assumes "tls_poll_write io d t buf = (t', r)"
  shows "tls_wf t' = tls_wf t \<and> t_server t' = t_server t"
proof (cases "t_write_buf t = [] \<and> buf = []")
  case True
  then show ?thesis using assms by (simp add: tls_poll_write_def)
next
  case False
  define n where "n = min (length buf) TLS_CHUNK_SIZE"
  define t0 where "t0 = (if t_write_buf t \<noteq> [] then t else
    (if t_first_request t
      then t\<lparr>t_first_request := False, t_write_buf := build_client_hello d (take n buf) (t_server t)\<rparr>
      else t\<lparr>t_write_buf := tls_app_record (take n buf)\<rparr>)\<lparr>t_write_buf_off := 0, t_pending_input := n\<rparr>)"
  obtain t1 r1 where step: "tls_poll_drain_write_buf io t0 = (t1, r1)"
    by (cases "tls_poll_drain_write_buf io t0")
  have "t' = t1 \<or> t' = t1\<lparr>t_pending_input := 0\<rparr>"
    using assms False step unfolding tls_poll_write_def Let_def n_def[symmetric]
    by (auto simp: t0_def split: if_splits poll.splits sum.splits)
  moreover have "tls_wf t0 = tls_wf t" "t_server t0 = t_server t"
    by (simp_all add: t0_def tls_wf_def)
  ultimately show ?thesis using tls_drain_wf[OF step] by (auto simp: tls_wf_def)
qed

lemma tls_poll_close_wf:
  assumes "tls_poll_flush io t = (t', r) \<or> tls_poll_shutdown io t = (t', r)"
  shows "tls_wf t' = tls_wf t \<and> t_server t' = t_server t"
proof -
  obtain t1 r1 where step: "(if t_write_buf t \<noteq> [] then tls_poll_drain_write_buf io t
      else (t, Ready (Ok ()))) = (t1, r1)" by fastforce
  then have "tls_wf t1 = tls_wf t \<and> t_server t1 = t_server t"
    using tls_drain_wf[of io t t1 r1] by (auto split: if_splits)
  moreover have "\<exists>s. t' = t1\<lparr>t_inner := s\<rparr>"
    using assms step unfolding tls_poll_flush_def tls_poll_shutdown_def step prod.case
    by (cases r1 rule: poll_cases) (auto split: prod.splits intro: exI[of _ "t_inner t1"])
  ultimately show ?thesis by (auto simp: tls_wf_def)
qed

lemma tls_reachable_wf:
  assumes "bounded_reads io" and "tls_reachable io server t"
  shows "tls_wf t \<and> t_server t = server"
  using assms(2)
proof (induction rule: tls_reachable.induct)
  case (new s)
  then show ?case using tls_new_wf[of s server] by (simp add: tls_new_def)
next
  case (read t room t' r)
  then show ?case using tls_poll_read_wf[OF assms(1)] by metis
next
  case (write_to t d buf t' w)
  then show ?case using tls_poll_write_wf by metis
next
  case (flush t t' u)
  then show ?case using tls_poll_close_wf by metis
next
  case (shutdown t t' u)
  then show ?case using tls_poll_close_wf by metis
qed

section \<open>Properties\<close>

text \<open>
  C13: reading from \<open>HttpObfs\<close> and draining its buffer never panic: from every state, over every
  transport, the routines that check each slice, each index and each difference return what the
  routines that do not check return.
\<close>

theorem http_never_panics:
  "http_poll_read_checked io h room = Some (http_poll_read io h room) \<and>
   poll_drain_checked (op_write io) (h_inner h) (h_write_buf h) (h_write_buf_off h) =
     Some (poll_drain (op_write io) (h_inner h) (h_write_buf h) (h_write_buf_off h))"
  using http_poll_read_checked_eq by simp

text \<open>
  C12: no poll of \<open>TlsObfs\<close> panics, in a build with overflow checks too. In every state that any
  sequence of polls leads to, in any order and with any results, over any transport whose reads
  stay inside their buffers, the operations with checks return what the operations without
  return: the discard counter and the frame counter are never taken below zero, the length
  field is never written past its two bytes, and the ClientHello's lengths fit for a server name
  of at most 48939 bytes.
\<close>

theorem tls_never_panics:
  assumes "bounded_reads io" and "tls_reachable io server t" and "length server \<le> 48939"
  shows "tls_poll_read_checked io t room = map_option Some (tls_poll_read io t room) \<and>
    tls_poll_write_checked io d t buf = Some (tls_poll_write io d t buf) \<and>
    poll_drain_checked (op_write io) (t_inner t) (t_write_buf t) (t_write_buf_off t) =
      Some (poll_drain (op_write io) (t_inner t) (t_write_buf t) (t_write_buf_off t))"
proof -
  from tls_reachable_wf[OF assms(1,2)] have "tls_wf t" "t_server t = server" by simp_all
  with tls_poll_read_checked_eq[OF assms(1)] tls_poll_write_checked_eq[of t] assms(3)
  show ?thesis by simp
qed

lemma script_bounded_reads: "bounded_reads script_ops"
  by (auto simp: bounded_reads_def script_read_def split: list.splits read_event.splits)

lemma sample_partial_length:
  "map_option (\<lambda>(t, r). (r, t_read_phase t, t_len_progress t, rx (t_inner t)))
     (tls_poll_read script_ops (tls_new (script_of [Data (replicate 106 0), Read_Pending, Data [1, 7]] []) ''h'') 8)
   = Some (Pending, Length, 1, [Data [1, 7]])"
  by code_simp

theorem tls_never_panics_witness:
  "\<exists>t. t_read_phase t = Length \<and> t_len_progress t = 1 \<and>
     tls_poll_read_checked script_ops t 8 = map_option Some (tls_poll_read script_ops t 8)"
proof -
  let ?t = "tls_new (script_of [Data (replicate 106 0), Read_Pending, Data [1, 7]] []) ''h''"
  from sample_partial_length obtain t where run: "tls_poll_read script_ops ?t 8 = Some (t, Pending)"
    and t: "t_read_phase t = Length" "t_len_progress t = 1" by auto
  have "tls_reachable script_ops ''h'' t"
    by (rule tls_reachable.read[OF tls_reachable.new run])
  from tls_never_panics[OF script_bounded_reads this, of 8] t show ?thesis by auto
qed

text \<open>
  In a build with overflow checks the ClientHello is built exactly if the largest of its
  lengths, \<open>212\<close> plus the two lengths cut to sixteen bits, fits in sixteen bits; otherwise the
  first write panics (where a release build sends a hello whose lengths have wrapped around).
  With a full first chunk of 16 KiB the longest server name that fits has 48939 bytes.
\<close>

theorem hello_checked_iff:
  "build_client_hello_checked d data server =
     (if 212 + length data mod 2 ^ 16 + length server mod 2 ^ 16 < 2 ^ 16
      then Some (build_client_hello d data server) else None) \<and>
   (length data = TLS_CHUNK_SIZE \<longrightarrow> length server < 2 ^ 16 \<longrightarrow>
     build_client_hello_checked d data server \<noteq> None \<longleftrightarrow> length server \<le> 48939)"
  by (simp add: build_client_hello_checked_eq TLS_CHUNK_SIZE_def)

theorem hello_checked_iff_witness:
  "build_client_hello_checked sample_tls_draw (replicate 16384 0) (replicate 48940 CHR ''x'') = None"
  using hello_checked_iff[of sample_tls_draw "replicate 16384 0" "replicate 48940 CHR ''x''"]
  by (simp add: TLS_CHUNK_SIZE_def)

end
