(* ===== verification/Rust_Str.thy ===== *)
theory Rust_Str
  imports Prelude "HOL-Library.Sublist"
begin

text \<open>
  The methods of Rust's \<open>str\<close> that the option parsers use, on UTF-8 bytes: \<open>trim\<close> with Unicode
  white space, \<open>split\<close> and \<open>split_once\<close> at an ASCII character, and the two ASCII case
  operations. On valid UTF-8 the encoding of one character is never a part of another's, so
  looking for a character at the ends of a string is looking for its bytes.
\<close>

section \<open>White space\<close>

text \<open>
  The characters with the Unicode property \<open>White_Space\<close>: U+0009 to U+000D, U+0020, U+0085,
  U+00A0, U+1680, U+2000 to U+200A, U+2028, U+2029, U+202F, U+205F and U+3000.
\<close>

definition white_space :: "string list" where
  "white_space =
     [[CHR 0x20], [CHR 0x09], [CHR 0x0A], [CHR 0x0B], [CHR 0x0C], [CHR 0x0D],
      [CHR 0xC2, CHR 0x85], [CHR 0xC2, CHR 0xA0], [CHR 0xE1, CHR 0x9A, CHR 0x80],
      [CHR 0xE2, CHR 0x80, CHR 0x80], [CHR 0xE2, CHR 0x80, CHR 0x81], [CHR 0xE2, CHR 0x80, CHR 0x82],
      [CHR 0xE2, CHR 0x80, CHR 0x83], [CHR 0xE2, CHR 0x80, CHR 0x84], [CHR 0xE2, CHR 0x80, CHR 0x85],
      [CHR 0xE2, CHR 0x80, CHR 0x86], [CHR 0xE2, CHR 0x80, CHR 0x87], [CHR 0xE2, CHR 0x80, CHR 0x88],
      [CHR 0xE2, CHR 0x80, CHR 0x89], [CHR 0xE2, CHR 0x80, CHR 0x8A],
      [CHR 0xE2, CHR 0x80, CHR 0xA8], [CHR 0xE2, CHR 0x80, CHR 0xA9], [CHR 0xE2, CHR 0x80, CHR 0xAF],
      [CHR 0xE2, CHR 0x81, CHR 0x9F], [CHR 0xE3, CHR 0x80, CHR 0x80]]"

lemma white_space_not_Nil: "w \<in> set white_space \<Longrightarrow> w \<noteq> []"
  by (auto simp: white_space_def)

lemma find_white_space_not_Nil: "find P white_space = Some w \<Longrightarrow> w \<noteq> []"
  by (auto simp: find_Some_iff intro!: white_space_not_Nil)

function trim_start :: "string \<Rightarrow> string" where
  "trim_start s =
     (case find (\<lambda>w. prefix w s) white_space of
        None \<Rightarrow> s
      | Some w \<Rightarrow> trim_start (drop (length w) s))"
  by pat_completeness auto
termination
proof (relation "measure length")
  fix s w
  assume "find (\<lambda>w. prefix w s) white_space = Some w"
  then have "w \<noteq> []" "prefix w s" by (auto simp: find_white_space_not_Nil find_Some_iff)
  then show "(drop (length w) s, s) \<in> measure length" by (cases w) (auto simp: prefix_def)
qed simp

function trim_end :: "string \<Rightarrow> string" where
  "trim_end s =
     (case find (\<lambda>w. suffix w s) white_space of
        None \<Rightarrow> s
      | Some w \<Rightarrow> trim_end (take (length s - length w) s))"
  by pat_completeness auto
termination
proof (relation "measure length")
  fix s w
  assume "find (\<lambda>w. suffix w s) white_space = Some w"
  then have "w \<noteq> []" "suffix w s" by (auto simp: find_white_space_not_Nil find_Some_iff)
  then show "(take (length s - length w) s, s) \<in> measure length" by (cases w) (auto simp: suffix_def)
qed simp

declare trim_start.simps [simp del] trim_end.simps [simp del]

definition trim :: "string \<Rightarrow> string" where
  "trim s = trim_end (trim_start s)"

lemma trim_start_id_iff: "trim_start s = s \<longleftrightarrow> (\<forall>w\<in>set white_space. \<not> prefix w s)"
proof
  assume id: "trim_start s = s"
  have shorter: "length (trim_start u) \<le> length u" for u
    by (induction u rule: trim_start.induct)
      (subst trim_start.simps, fastforce split: option.splits)
  show "\<forall>w\<in>set white_space. \<not> prefix w s"
  proof (rule ccontr)
    assume "\<not> (\<forall>w\<in>set white_space. \<not> prefix w s)"
    then obtain w where w: "find (\<lambda>w. prefix w s) white_space = Some w"
      by (cases "find (\<lambda>w. prefix w s) white_space") (auto simp: find_None_iff)
    then have "w \<noteq> []" "prefix w s" by (auto simp: find_white_space_not_Nil find_Some_iff)
    then have "length (drop (length w) s) < length s" by (cases w) (auto simp: prefix_def)
    with shorter[of "drop (length w) s"] id w show False
      by (subst (asm) (2) trim_start.simps) simp
  qed
next
  assume "\<forall>w\<in>set white_space. \<not> prefix w s"
  then have "find (\<lambda>w. prefix w s) white_space = None" by (simp add: find_None_iff)
  then show "trim_start s = s" by (simp add: trim_start.simps)
qed

lemma trim_end_id_iff: "trim_end s = s \<longleftrightarrow> (\<forall>w\<in>set white_space. \<not> suffix w s)"
proof
  assume id: "trim_end s = s"
  have shorter: "length (trim_end u) \<le> length u" for u
    by (induction u rule: trim_end.induct)
      (subst trim_end.simps, fastforce split: option.splits)
  show "\<forall>w\<in>set white_space. \<not> suffix w s"
  proof (rule ccontr)
    assume "\<not> (\<forall>w\<in>set white_space. \<not> suffix w s)"
    then obtain w where w: "find (\<lambda>w. suffix w s) white_space = Some w"
      by (cases "find (\<lambda>w. suffix w s) white_space") (auto simp: find_None_iff)
    then have "w \<noteq> []" "suffix w s" by (auto simp: find_white_space_not_Nil find_Some_iff)
    then have "length (take (length s - length w) s) < length s" by (cases w) (auto simp: suffix_def)
    with shorter[of "take (length s - length w) s"] id w show False
      by (subst (asm) (2) trim_end.simps) simp
  qed
next
  assume "\<forall>w\<in>set white_space. \<not> suffix w s"
  then have "find (\<lambda>w. suffix w s) white_space = None" by (simp add: find_None_iff)
  then show "trim_end s = s" by (simp add: trim_end.simps)
qed

text \<open>A string without white space at its ends.\<close>

definition trimmed :: "string \<Rightarrow> bool" where
  "trimmed s \<longleftrightarrow> (\<forall>w\<in>set white_space. \<not> prefix w s \<and> \<not> suffix w s)"

lemma trim_trimmed [simp]: "trimmed s \<Longrightarrow> trim s = s"
  using trim_start_id_iff[of s] trim_end_id_iff[of s] by (simp add: trim_def trimmed_def)

lemma trimmed_Nil [simp]: "trimmed []"
  by (auto simp: trimmed_def dest: white_space_not_Nil)

section \<open>Splitting\<close>

text \<open>\<open>s.split(c)\<close> and \<open>s.split_once(c)\<close>.\<close>

fun split :: "char \<Rightarrow> string \<Rightarrow> string list" where
  "split c [] = [[]]"
| "split c (x # s) =
     (if x = c then [] # split c s
      else case split c s of [] \<Rightarrow> [[x]] | t # ts \<Rightarrow> (x # t) # ts)"

fun split_once :: "char \<Rightarrow> string \<Rightarrow> (string \<times> string) option" where
  "split_once c [] = None"
| "split_once c (x # s) =
     (if x = c then Some ([], s) else map_option (\<lambda>(k, v). (x # k, v)) (split_once c s))"

lemma split_not_Nil [simp]: "split c s \<noteq> []"
  by (cases s) (auto split: list.splits)

lemma split_piece: "c \<notin> set t \<Longrightarrow> split c t = [t]"
  by (induction t) auto

lemma split_append: "c \<notin> set t \<Longrightarrow> split c (t @ c # s) = t # split c s"
  by (induction t) auto

lemma split_once_append: "c \<notin> set k \<Longrightarrow> split_once c (k @ c # v) = Some (k, v)"
  by (induction k) auto

lemma split_once_None: "split_once c s = None \<longleftrightarrow> c \<notin> set s"
  by (induction s) auto

section \<open>ASCII case\<close>

definition ascii_lower :: "char \<Rightarrow> char" where
  "ascii_lower c = (let n = of_char c :: nat in if 65 \<le> n \<and> n \<le> 90 then char_of (n + 32) else c)"

definition to_ascii_lowercase :: "string \<Rightarrow> string" where
  "to_ascii_lowercase s = map ascii_lower s"

definition eq_ignore_ascii_case :: "string \<Rightarrow> string \<Rightarrow> bool" where
  "eq_ignore_ascii_case s t \<longleftrightarrow> to_ascii_lowercase s = to_ascii_lowercase t"

section \<open>UTF-8\<close>

text \<open>
  \<open>std::str::from_utf8\<close>. An error is the length of the valid beginning and the number of bytes of
  the invalid sequence, \<open>None\<close> if the input ends inside a character.
\<close>

type_synonym utf8_error = "nat \<times> nat option"

definition continuation :: "nat \<Rightarrow> bool" where
  "continuation b \<longleftrightarrow> 0x80 \<le> b \<and> b \<le> 0xBF"

text \<open>The second byte of a character of three or four bytes.\<close>

definition second_of_three :: "nat \<Rightarrow> nat \<Rightarrow> bool" where
  "second_of_three a b \<longleftrightarrow>
     (a = 0xE0 \<and> 0xA0 \<le> b \<and> b \<le> 0xBF) \<or> (0xE1 \<le> a \<and> a \<le> 0xEC \<and> continuation b) \<or>
     (a = 0xED \<and> 0x80 \<le> b \<and> b \<le> 0x9F) \<or> (0xEE \<le> a \<and> a \<le> 0xEF \<and> continuation b)"

definition second_of_four :: "nat \<Rightarrow> nat \<Rightarrow> bool" where
  "second_of_four a b \<longleftrightarrow>
     (a = 0xF0 \<and> 0x90 \<le> b \<and> b \<le> 0xBF) \<or> (0xF1 \<le> a \<and> a \<le> 0xF3 \<and> continuation b) \<or>
     (a = 0xF4 \<and> 0x80 \<le> b \<and> b \<le> 0x8F)"

text \<open>The width of the character at the front, or the length of the invalid sequence there.\<close>

definition char_width :: "nat list \<Rightarrow> nat option + nat" where
  "char_width bs =
     (case bs of
        [] \<Rightarrow> Inl None
      | a # r \<Rightarrow>
          if a < 0x80 then Inr 1
          else if 0xC2 \<le> a \<and> a \<le> 0xDF then
            (case r of
               [] \<Rightarrow> Inl None
             | b # _ \<Rightarrow> if continuation b then Inr 2 else Inl (Some 1))
          else if 0xE0 \<le> a \<and> a \<le> 0xEF then
            (case r of
               [] \<Rightarrow> Inl None
             | b # r2 \<Rightarrow>
                 if \<not> second_of_three a b then Inl (Some 1)
                 else (case r2 of
                    [] \<Rightarrow> Inl None
                  | c # _ \<Rightarrow> if continuation c then Inr 3 else Inl (Some 2)))
          else if 0xF0 \<le> a \<and> a \<le> 0xF4 then
            (case r of
               [] \<Rightarrow> Inl None
             | b # r2 \<Rightarrow>
                 if \<not> second_of_four a b then Inl (Some 1)
                 else (case r2 of
                    [] \<Rightarrow> Inl None
                  | c # r3 \<Rightarrow>
                      if \<not> continuation c then Inl (Some 2)
                      else (case r3 of
                         [] \<Rightarrow> Inl None
                       | e # _ \<Rightarrow> if continuation e then Inr 4 else Inl (Some 3))))
          else Inl (Some 1))"

function utf8_error_from :: "nat \<Rightarrow> nat list \<Rightarrow> utf8_error option" where
  "utf8_error_from i bs =
     (if bs = [] then None
      else case char_width bs of
        Inl e \<Rightarrow> Some (i, e)
      | Inr n \<Rightarrow> if n = 0 then None else utf8_error_from (i + n) (drop n bs))"
  by pat_completeness auto
termination
  by (relation "measure (\<lambda>(i, bs). length bs)") auto

declare utf8_error_from.simps [simp del]

definition from_utf8_error :: "string \<Rightarrow> utf8_error option" where
  "from_utf8_error s = utf8_error_from 0 (map of_char s)"

fun show_utf8_error :: "utf8_error \<Rightarrow> string" where
  "show_utf8_error (i, Some n) = ''invalid utf-8 sequence of '' @ dec n @ '' bytes from index '' @ dec i"
| "show_utf8_error (i, None) = ''incomplete utf-8 byte sequence from index '' @ dec i"

lemma utf8_ascii:
  assumes "\<forall>c\<in>set s. of_char c < (128 :: nat)"
  shows "from_utf8_error s = None"
proof -
  have "utf8_error_from i (map of_char s) = None" for i
    using assms
    by (induction s arbitrary: i) (simp_all add: utf8_error_from.simps char_width_def)
  then show ?thesis by (simp add: from_utf8_error_def)
qed

section \<open>Option strings\<close>

text \<open>
  The head of the loop both parsers share: \<open>opts.split(';').map(str::trim).filter(|t|
  !t.is_empty())\<close>, then \<open>token.split_once('=')\<close>. A key without a value has the value \<open>bare\<close>.
\<close>

definition opt_tokens :: "string \<Rightarrow> string list" where
  "opt_tokens opts = filter (\<lambda>t. t \<noteq> []) (map trim (split CHR '';'' opts))"

definition key_value :: "string \<Rightarrow> string \<Rightarrow> string \<times> string" where
  "key_value bare token =
     (case split_once CHR ''='' token of
        Some (k, v) \<Rightarrow> (trim k, trim v)
      | None \<Rightarrow> (token, bare))"

definition opt_pairs :: "string \<Rightarrow> string \<Rightarrow> (string \<times> string) list" where
  "opt_pairs bare opts = map (key_value bare) (opt_tokens opts)"

text \<open>An option as a user would write it, and the conditions under which it is read back.\<close>

definition show_opts :: "(string \<times> string) list \<Rightarrow> string" where
  "show_opts kvs = concat (map (\<lambda>(k, v). k @ CHR ''='' # v @ [CHR '';'']) kvs)"

definition plain_key :: "string \<Rightarrow> bool" where
  "plain_key k \<longleftrightarrow> k \<noteq> [] \<and> trimmed k \<and> CHR ''='' \<notin> set k \<and> CHR '';'' \<notin> set k"

definition plain_value :: "string \<Rightarrow> bool" where
  "plain_value v \<longleftrightarrow> trimmed v \<and> CHR '';'' \<notin> set v"

definition not_white :: "char \<Rightarrow> bool" where
  "not_white c \<longleftrightarrow> (\<forall>w\<in>set white_space. c \<notin> set w)"

lemma not_white_separators [simp]: "not_white CHR ''=''" "not_white CHR '':''"
  by (simp_all add: not_white_def white_space_def)

lemma prefix_across:
  assumes "prefix w (k @ c # v)" and "c \<notin> set w"
  shows "prefix w k"
  using assms by (induction k arbitrary: w) (auto simp: prefix_Cons)

lemma trimmed_option:
  assumes "trimmed k" and "trimmed v" and "not_white c"
  shows "trimmed (k @ c # v)"
  unfolding trimmed_def
proof (intro ballI conjI notI)
  fix w assume w: "w \<in> set white_space" and pre: "prefix w (k @ c # v)"
  have "c \<notin> set w" using w assms(3) by (simp add: not_white_def)
  with pre have "prefix w k" by (rule prefix_across)
  with w assms(1) show False by (simp add: trimmed_def)
next
  fix w assume w: "w \<in> set white_space" and "suffix w (k @ c # v)"
  then have pre: "prefix (rev w) (rev v @ c # rev k)" by (simp add: suffix_to_prefix)
  have "c \<notin> set (rev w)" using w assms(3) by (simp add: not_white_def)
  with pre have "prefix (rev w) (rev v)" by (rule prefix_across)
  then have "suffix w v" by (simp add: suffix_to_prefix)
  with w assms(2) show False by (simp add: trimmed_def)
qed

lemma opt_pairs_show:
  assumes "\<forall>(k, v)\<in>set kvs. plain_key k \<and> plain_value v"
  shows "opt_pairs bare (show_opts kvs) = kvs"
  using assms
proof (induction kvs)
  case Nil
  have "trim [] = []" by simp
  then show ?case by (simp add: show_opts_def opt_pairs_def opt_tokens_def)
next
  case (Cons p kvs)
  obtain k v where p: "p = (k, v)" by (cases p)
  with Cons.prems have kv: "plain_key k" "plain_value v" by auto
  then have "CHR '';'' \<notin> set (k @ CHR ''='' # v)" by (auto simp: plain_key_def plain_value_def)
  from split_append[OF this, of "show_opts kvs"]
  have "split CHR '';'' (show_opts (p # kvs)) = (k @ CHR ''='' # v) # split CHR '';'' (show_opts kvs)"
    by (simp add: show_opts_def p)
  moreover have "trim (k @ CHR ''='' # v) = k @ CHR ''='' # v"
    using kv trimmed_option by (simp add: plain_key_def plain_value_def)
  moreover have "key_value bare (k @ CHR ''='' # v) = (k, v)"
    using kv by (simp add: key_value_def split_once_append plain_key_def plain_value_def)
  ultimately show ?case using Cons by (simp add: opt_pairs_def opt_tokens_def p)
qed

text \<open>Parsing takes characters out of the options, adds none and reorders none.\<close>

lemma set_subseq: "subseq xs ys \<Longrightarrow> set xs \<subseteq> set ys"
  by (auto elim: list_emb_set)

lemma subseq_trim: "subseq (trim s) s"
proof -
  have "subseq (trim_start u) u" for u
    by (induction u rule: trim_start.induct)
      (subst trim_start.simps, auto split: option.split
        intro: subseq_order.trans suffix_imp_subseq[OF suffix_drop])
  moreover have "subseq (trim_end u) u" for u
    by (induction u rule: trim_end.induct)
      (subst trim_end.simps, auto split: option.split
        intro: subseq_order.trans prefix_imp_subseq[OF take_is_prefix])
  ultimately show ?thesis unfolding trim_def by (blast intro: subseq_order.trans)
qed

lemma subseq_split: "t \<in> set (split c s) \<Longrightarrow> subseq t s"
proof (induction s arbitrary: t)
  case (Cons x s)
  obtain u us where s: "split c s = u # us" by (cases "split c s") auto
  with Cons.IH have "subseq v s" if "v \<in> set (u # us)" for v using that by simp
  with Cons.prems s show ?case by (auto split: if_splits)
qed simp

lemma subseq_split_once: "split_once c s = Some (k, v) \<Longrightarrow> subseq v s"
  by (induction s arbitrary: k v) (auto split: if_splits)

lemma opt_pairs_subseq:
  assumes "(k, v) \<in> set (opt_pairs bare opts)"
  shows "v = bare \<or> subseq v opts"
proof -
  from assms obtain t where t: "t \<in> set (split CHR '';'' opts)" and kv: "key_value bare (trim t) = (k, v)"
    by (auto simp: opt_pairs_def opt_tokens_def)
  have "v = bare \<or> subseq v (trim t)"
  proof (cases "split_once CHR ''='' (trim t)")
    case None
    with kv show ?thesis by (auto simp: key_value_def)
  next
    case (Some p)
    then obtain a b where ab: "split_once CHR ''='' (trim t) = Some (a, b)" by (cases p) auto
    with kv have "v = trim b" by (simp add: key_value_def)
    with subseq_trim[of b] subseq_split_once[OF ab] show ?thesis by (blast intro: subseq_order.trans)
  qed
  with subseq_split[OF t] subseq_trim[of t] show ?thesis by (blast intro: subseq_order.trans)
qed

text \<open>The last value of a key, and a value kept if the key does not occur.\<close>

definition last_value :: "(string \<times> string) list \<Rightarrow> string \<Rightarrow> string option" where
  "last_value kvs k = map_of (rev kvs) k"

lemma last_value_simps [simp]:
  "last_value [] k = None"
  "last_value (kvs @ [(k', v)]) k = (if k = k' then Some v else last_value kvs k)"
  by (simp_all add: last_value_def)

lemma last_value_append_other:
  "k \<notin> fst ` set kvs' \<Longrightarrow> last_value (kvs @ kvs') k = last_value kvs k"
  by (simp add: last_value_def map_add_def map_of_eq_None_iff[THEN iffD2] split: option.split)

lemma last_value_distinct: "distinct (map fst kvs) \<Longrightarrow> last_value kvs = map_of kvs"
  unfolding last_value_def by (rule map_of_inject_set[THEN iffD2]) (simp_all flip: rev_map)

lemma last_value_Cons:
  "last_value ((k', v) # kvs) k = (case last_value kvs k of Some x \<Rightarrow> Some x | None \<Rightarrow> if k = k' then Some v else None)"
  by (simp add: last_value_def map_add_def split: option.splits)

lemma last_value_in: "last_value kvs k = Some v \<Longrightarrow> (k, v) \<in> set kvs"
  unfolding last_value_def by (metis map_of_SomeD set_rev)

end
