(* ===== verification/V2ray_Plugin.thy ===== *)
theory V2ray_Plugin
  imports Rust_Str
begin

text \<open>
  \<open>src/native/sslocal-ffi/src/v2ray_plugin.rs\<close>: the options of \<open>v2ray-plugin\<close> and \<open>dial\<close>; and the
  error type of \<open>plugin.rs\<close>, which they use. The transport layers of the crate
  \<open>meow-transport\<close> (TLS, WebSocket), the TCP connect of tokio and the iteration order of a
  \<open>HashMap\<close> are parameters of \<open>dial\<close>. Log output is not modelled.
\<close>

section \<open>Errors\<close>

datatype 'e plugin_error =
    Unsupported string
  | InvalidOptions string
  | Io io_error
  | Transport 'e

section \<open>Options\<close>

datatype mode = Websocket

record v2ray_config =
  v_mode :: mode
  v_tls :: bool
  v_host :: string
  v_path :: string
  v_headers :: "string \<rightharpoonup> string"
  v_skip_cert_verify :: bool
  v_mux :: bool

definition v2ray_default :: v2ray_config where
  "v2ray_default =
     \<lparr>v_mode = Websocket, v_tls = False, v_host = [], v_path = ''/'', v_headers = Map.empty,
      v_skip_cert_verify = False, v_mux = False\<rparr>"

definition parse_bool :: "string \<Rightarrow> bool" where
  "parse_bool s \<longleftrightarrow> to_ascii_lowercase s \<in> {''1'', ''true'', ''yes'', ''on''}"

definition bad_mode_message :: "string \<Rightarrow> string" where
  "bad_mode_message value =
     ''v2ray-plugin: unsupported mode '' @ [CHR 0x27] @ value @ [CHR 0x27] @
     '' (only '' @ [CHR 0x27] @ ''websocket'' @ [CHR 0x27] @ '' is supported)''"

text \<open>One turn of the loop of \<open>parse_opts\<close>, and the loop.\<close>

definition v2ray_opt :: "v2ray_config \<Rightarrow> string \<times> string \<Rightarrow> 'e plugin_error + v2ray_config" where
  "v2ray_opt cfg kv =
     (case kv of (key, value) \<Rightarrow>
        if key = ''mode'' then
          (if eq_ignore_ascii_case value ''websocket'' \<or> eq_ignore_ascii_case value ''ws''
           then Ok (cfg\<lparr>v_mode := Websocket\<rparr>)
           else Err (InvalidOptions (bad_mode_message value)))
        else if key = ''tls'' then Ok (cfg\<lparr>v_tls := parse_bool value\<rparr>)
        else if key = ''host'' then Ok (cfg\<lparr>v_host := value\<rparr>)
        else if key = ''path'' then Ok (cfg\<lparr>v_path := value\<rparr>)
        else if key = ''mux'' then Ok (cfg\<lparr>v_mux := parse_bool value\<rparr>)
        else if key = ''skip-cert-verify'' then Ok (cfg\<lparr>v_skip_cert_verify := parse_bool value\<rparr>)
        else if key = ''header'' then
          (case split_once CHR '':'' value of
             Some (k, v) \<Rightarrow> Ok (cfg\<lparr>v_headers := (v_headers cfg)(trim k \<mapsto> trim v)\<rparr>)
           | None \<Rightarrow> Ok cfg)
        else Ok cfg)"

fun v2ray_opts :: "v2ray_config \<Rightarrow> (string \<times> string) list \<Rightarrow> 'e plugin_error + v2ray_config" where
  "v2ray_opts cfg [] = Ok cfg"
| "v2ray_opts cfg (kv # kvs) = and_then (v2ray_opt cfg kv) (\<lambda>cfg. v2ray_opts cfg kvs)"

definition parse_opts :: "string \<Rightarrow> 'e plugin_error + v2ray_config" where
  "parse_opts s = v2ray_opts v2ray_default (opt_pairs ''true'' s)"

section \<open>Dialing\<close>

text \<open>What \<open>dial\<close> uses of \<open>meow-transport\<close>: the configurations, the layers and their handshakes.\<close>

record ('s, 'e, 'tc, 'tl, 'wc, 'wl) meow_transport =
  tls_config_new :: "string \<Rightarrow> 'tc"
  tls_config_with_skip_cert_verify :: "'tc \<Rightarrow> bool \<Rightarrow> 'tc"
  tls_layer_new :: "'tc \<Rightarrow> 'e + 'tl"
  tls_layer_connect :: "'tl \<Rightarrow> 's \<Rightarrow> 'e + 's"
  ws_config_with :: "string \<Rightarrow> string option \<Rightarrow> (string \<times> string) list \<Rightarrow> 'wc"
  ws_layer_new :: "'wc \<Rightarrow> 'e + 'wl"
  ws_layer_connect :: "'wl \<Rightarrow> 's \<Rightarrow> 'e + 's"

definition dial ::
  "('s, 'e, 'tc, 'tl, 'wc, 'wl) meow_transport \<Rightarrow> (string \<Rightarrow> u16 \<Rightarrow> 's io_result) \<Rightarrow>
   ((string \<rightharpoonup> string) \<Rightarrow> (string \<times> string) list) \<Rightarrow> v2ray_config \<Rightarrow> string \<Rightarrow> u16 \<Rightarrow>
   'e plugin_error + 's" where
  "dial mt connect iter cfg server_host server_port =
     (let host_header = (if v_host cfg = [] then server_host else v_host cfg) in
      and_then (map_err Io (connect server_host server_port)) (\<lambda>tcp.
      and_then
        (if v_tls cfg then
           (let tls_config = tls_config_with_skip_cert_verify mt (tls_config_new mt host_header)
                               (v_skip_cert_verify cfg)
            in and_then (map_err Transport (tls_layer_new mt tls_config)) (\<lambda>layer.
               map_err Transport (tls_layer_connect mt layer tcp)))
         else Ok tcp) (\<lambda>stream.
      let extra_headers = iter (v_headers cfg);
          ws_config = ws_config_with mt (v_path cfg) (Some host_header) extra_headers
      in and_then (map_err Transport (ws_layer_new mt ws_config)) (\<lambda>layer.
         map_err Transport (ws_layer_connect mt layer stream)))))"

section \<open>What the loop computes\<close>

text \<open>
  The specification of \<open>parse_opts\<close> as a function of the options: the last value of each key
  counts, an unknown key or a header without a colon does not, and the first unsupported
  mode is the error.
\<close>

definition supported_mode :: "string \<Rightarrow> bool" where
  "supported_mode v \<longleftrightarrow> eq_ignore_ascii_case v ''websocket'' \<or> eq_ignore_ascii_case v ''ws''"

definition bad_mode :: "string \<times> string \<Rightarrow> bool" where
  "bad_mode kv \<longleftrightarrow> fst kv = ''mode'' \<and> \<not> supported_mode (snd kv)"

definition flag :: "(string \<times> string) list \<Rightarrow> string \<Rightarrow> bool" where
  "flag kvs k = (case last_value kvs k of Some v \<Rightarrow> parse_bool v | None \<Rightarrow> False)"

definition header_of :: "string \<times> string \<Rightarrow> (string \<times> string) list" where
  "header_of kv =
     (if fst kv = ''header'' then
        (case split_once CHR '':'' (snd kv) of Some (k, v) \<Rightarrow> [(trim k, trim v)] | None \<Rightarrow> [])
      else [])"

definition v2ray_spec :: "(string \<times> string) list \<Rightarrow> v2ray_config" where
  "v2ray_spec kvs =
     \<lparr>v_mode = Websocket, v_tls = flag kvs ''tls'',
      v_host = (case last_value kvs ''host'' of Some v \<Rightarrow> v | None \<Rightarrow> []),
      v_path = (case last_value kvs ''path'' of Some v \<Rightarrow> v | None \<Rightarrow> ''/''),
      v_headers = last_value (concat (map header_of kvs)),
      v_skip_cert_verify = flag kvs ''skip-cert-verify'', v_mux = flag kvs ''mux''\<rparr>"

lemma v2ray_opts_append:
  "v2ray_opts cfg (kvs @ [kv]) = and_then (v2ray_opts cfg kvs) (\<lambda>c. v2ray_opt c kv)"
proof (induction kvs arbitrary: cfg)
  case (Cons p kvs)
  then show ?case by (cases "v2ray_opt cfg p :: 'a plugin_error + v2ray_config") simp_all
qed simp

lemma last_value_update: "last_value (kvs @ [(k, v)]) = (last_value kvs)(k \<mapsto> v)"
  by (rule ext) simp

lemma v2ray_spec_snoc:
  assumes "\<not> bad_mode kv"
  shows "v2ray_opt (v2ray_spec kvs) kv = Ok (v2ray_spec (kvs @ [kv]))"
proof (cases kv)
  case (Pair k v)
  consider "k = ''mode''" | "k = ''tls''" | "k = ''host''" | "k = ''path''" | "k = ''mux''"
    | "k = ''skip-cert-verify''" | "k = ''header''"
    | "k \<noteq> ''mode''" "k \<noteq> ''tls''" "k \<noteq> ''host''" "k \<noteq> ''path''" "k \<noteq> ''mux''"
      "k \<noteq> ''skip-cert-verify''" "k \<noteq> ''header''"
    by metis
  then show ?thesis
  proof cases
    case 1
    with assms Pair show ?thesis
      by (simp add: v2ray_opt_def v2ray_spec_def flag_def bad_mode_def supported_mode_def header_of_def)
  next
    case 7
    have kv: "kv = (''header'', v)" using Pair 7 by simp
    show ?thesis
      by (cases "split_once CHR '':'' v")
        (simp_all add: kv v2ray_opt_def v2ray_spec_def flag_def header_of_def last_value_update
          split: prod.split)
  qed (use Pair in \<open>simp_all add: v2ray_opt_def v2ray_spec_def flag_def header_of_def\<close>)
qed

lemma v2ray_opts_spec:
  "v2ray_opts v2ray_default kvs =
     (case find bad_mode kvs of
        Some (k, v) \<Rightarrow> Err (InvalidOptions (bad_mode_message v))
      | None \<Rightarrow> Ok (v2ray_spec kvs))"
proof (induction kvs rule: rev_induct)
  case Nil
  show ?case by (simp add: v2ray_default_def v2ray_spec_def flag_def fun_eq_iff)
next
  case (snoc kv kvs)
  show ?case
  proof (cases "bad_mode kv")
    case True
    then obtain v where kv: "kv = (''mode'', v)" and "\<not> supported_mode v"
      by (cases kv) (auto simp: bad_mode_def)
    then have "v2ray_opt c kv = Err (InvalidOptions (bad_mode_message v))" for c
      by (simp add: v2ray_opt_def supported_mode_def)
    then show ?thesis
      using True by (cases "find bad_mode kvs") (auto simp: v2ray_opts_append find_append snoc kv)
  next
    case False
    then show ?thesis
      by (cases "find bad_mode kvs")
        (auto simp: v2ray_opts_append find_append snoc v2ray_spec_snoc[OF False])
  qed
qed

section \<open>Properties\<close>

text \<open>
  C19: \<open>parse_opts\<close> fails exactly if some \<open>mode\<close> option is not \<open>websocket\<close> or \<open>ws\<close> in any case, with
  the first such value in the message; otherwise the last \<open>tls\<close>, \<open>host\<close>, \<open>path\<close>, \<open>mux\<close> and
  \<open>skip-cert-verify\<close> count, the last header of each name counts, a key that is missing leaves the
  default, and everything else is ignored.
\<close>

theorem parse_opts_spec:
  "parse_opts s =
     (case find bad_mode (opt_pairs ''true'' s) of
        Some (k, v) \<Rightarrow> Err (InvalidOptions (bad_mode_message v))
      | None \<Rightarrow> Ok (v2ray_spec (opt_pairs ''true'' s)))"
  by (simp only: parse_opts_def v2ray_opts_spec)

text \<open>The options that say what a configuration says, with its headers in the order \<open>hs\<close>.\<close>

definition show_bool :: "bool \<Rightarrow> string" where
  "show_bool b = (if b then ''true'' else ''false'')"

definition show_v2ray :: "v2ray_config \<Rightarrow> (string \<times> string) list \<Rightarrow> string" where
  "show_v2ray cfg hs = show_opts
     ([(''mode'', ''websocket''), (''tls'', show_bool (v_tls cfg)), (''host'', v_host cfg),
       (''path'', v_path cfg), (''skip-cert-verify'', show_bool (v_skip_cert_verify cfg)),
       (''mux'', show_bool (v_mux cfg))] @ map (\<lambda>(k, v). (''header'', k @ CHR '':'' # v)) hs)"

definition plain_header :: "string \<times> string \<Rightarrow> bool" where
  "plain_header kv \<longleftrightarrow> trimmed (fst kv) \<and> CHR '':'' \<notin> set (fst kv) \<and> CHR '';'' \<notin> set (fst kv) \<and>
     plain_value (snd kv)"

lemma trimmed_ascii:
  assumes "\<forall>c\<in>set s. not_white c"
  shows "trimmed s"
  unfolding trimmed_def
proof (intro ballI conjI notI)
  fix w assume w: "w \<in> set white_space"
  have sub: "\<exists>c\<in>set s. c \<in> set w" if "set w \<subseteq> set s"
    using white_space_not_Nil[OF w] that by (cases w) auto
  { assume "prefix w s"
    then have "set w \<subseteq> set s" by (auto simp: prefix_def)
    with sub w assms show False by (auto simp: not_white_def) }
  { assume "suffix w s"
    then have "set w \<subseteq> set s" by (auto simp: suffix_def)
    with sub w assms show False by (auto simp: not_white_def) }
qed

lemma parse_show_bool [simp]: "parse_bool (show_bool b) = b"
  by (cases b) (simp_all add: show_bool_def parse_bool_def to_ascii_lowercase_def ascii_lower_def Let_def)

lemma plain_show_bool [simp]: "plain_value (show_bool b)"
  by (cases b) (auto simp: show_bool_def plain_value_def not_white_def white_space_def intro!: trimmed_ascii)

lemma plain_v2ray_keys:
  "plain_key ''mode''" "plain_key ''tls''" "plain_key ''host''" "plain_key ''path''"
  "plain_key ''skip-cert-verify''" "plain_key ''mux''" "plain_key ''header''"
  "plain_value ''websocket''"
  by (auto simp: plain_key_def plain_value_def not_white_def white_space_def intro!: trimmed_ascii)

lemma header_of_shown: "plain_header kv \<Longrightarrow>
    header_of (case kv of (k, v) \<Rightarrow> (''header'', k @ CHR '':'' # v)) = [kv]"
  by (cases kv) (simp add: header_of_def split_once_append plain_header_def plain_value_def)

text \<open>
  C20: round trip. Options written from a configuration are read back as that configuration, if
  host, path and headers have no semicolon and no white space around them, and header names no
  colon.
\<close>

theorem parse_show_v2ray:
  assumes "plain_value (v_host cfg)" and "plain_value (v_path cfg)" and "v_headers cfg = map_of hs"
    and "distinct (map fst hs)" and "\<forall>kv\<in>set hs. plain_header kv"
  shows "parse_opts (show_v2ray cfg hs) = Ok (cfg :: v2ray_config)"
proof -
  let ?hs = "map (\<lambda>(k, v). (''header'', k @ CHR '':'' # v)) hs"
  let ?kvs = "[(''mode'', ''websocket''), (''tls'', show_bool (v_tls cfg)), (''host'', v_host cfg),
     (''path'', v_path cfg), (''skip-cert-verify'', show_bool (v_skip_cert_verify cfg)),
     (''mux'', show_bool (v_mux cfg))]"
  have "plain_value (k @ CHR '':'' # v)" if "(k, v) \<in> set hs" for k v
    using assms(5) that by (auto simp: plain_header_def plain_value_def trimmed_option)
  then have "\<forall>(k, v)\<in>set (?kvs @ ?hs). plain_key k \<and> plain_value v"
    using assms(1,2) plain_v2ray_keys by auto
  then have pairs: "opt_pairs ''true'' (show_v2ray cfg hs) = ?kvs @ ?hs"
    unfolding show_v2ray_def by (rule opt_pairs_show)
  have "find bad_mode (?kvs @ ?hs) = None"
    by (auto simp: find_None_iff bad_mode_def supported_mode_def eq_ignore_ascii_case_def)
  moreover have "last_value (?kvs @ ?hs) k = last_value ?kvs k" if "k \<noteq> ''header''" for k
    by (rule last_value_append_other) (use that in auto)
  then have "v2ray_spec (?kvs @ ?hs) = v2ray_spec ?kvs\<lparr>v_headers := last_value (concat (map header_of ?hs))\<rparr>"
    by (simp add: v2ray_spec_def flag_def header_of_def)
  moreover have "concat (map header_of ?hs) = hs"
    using assms(5) by (induction hs) (auto simp: header_of_shown split: prod.splits)
  moreover have "last_value hs = v_headers cfg"
    using assms(3,4) by (simp add: last_value_distinct)
  moreover have "v2ray_spec ?kvs\<lparr>v_headers := v_headers cfg\<rparr> = cfg"
    by (cases cfg; cases "v_mode cfg") (simp add: v2ray_spec_def flag_def last_value_Cons)
  ultimately show ?thesis by (simp add: parse_opts_spec pairs)
qed

theorem parse_show_v2ray_witness:
  "\<exists>opts. parse_opts opts = Ok (v2ray_default
     \<lparr>v_tls := True, v_host := ''h'', v_headers := map_of [(''X'', ''y''), (''Z'', [])]\<rparr>)"
proof -
  let ?cfg = "v2ray_default
     \<lparr>v_tls := True, v_host := ''h'', v_headers := map_of [(''X'', ''y''), (''Z'', [])]\<rparr>"
  have plain: "plain_value s" if "\<forall>c\<in>set s. not_white c \<and> c \<noteq> CHR '';''" for s
    using that trimmed_ascii[of s] by (auto simp: plain_value_def)
  have "plain_value (v_host ?cfg)" "plain_value (v_path ?cfg)"
    by (auto intro!: plain simp: v2ray_default_def not_white_def white_space_def)
  moreover have "\<forall>kv\<in>set [(''X'', ''y''), (''Z'', [])]. plain_header kv"
    by (auto intro!: plain trimmed_ascii simp: plain_header_def not_white_def white_space_def)
  ultimately show ?thesis using parse_show_v2ray[of ?cfg "[(''X'', ''y''), (''Z'', [])]"] by auto
qed

text \<open>
  C21: with \<open>tls\<close> and without \<open>skip-cert-verify\<close> in the options, every stream \<open>dial\<close> returns is
  authenticated for the configured host, or for the server's address if there is none. What is
  relied on is that the TLS layer authenticates the name of its configuration when it is not
  told to skip that, and that the WebSocket layer keeps the stream below it.
\<close>

theorem v2ray_dial_authenticates:
  assumes "\<And>name l t u. \<lbrakk>tls_layer_new mt (tls_config_with_skip_cert_verify mt (tls_config_new mt name) False) = Ok l;
      tls_layer_connect mt l t = Ok u\<rbrakk> \<Longrightarrow> authentic name u"
    and "\<And>name l t u. \<lbrakk>ws_layer_connect mt l t = Ok u; authentic name t\<rbrakk> \<Longrightarrow> authentic name u"
    and "parse_opts opts = Ok cfg" and "flag (opt_pairs ''true'' opts) ''tls''"
    and "\<not> flag (opt_pairs ''true'' opts) ''skip-cert-verify''"
    and "dial mt connect iter cfg host port = Ok s"
  shows "authentic (if v_host cfg = [] then host else v_host cfg) s"
proof -
  from assms(3) have "cfg = v2ray_spec (opt_pairs ''true'' opts)"
    by (auto simp: parse_opts_spec split: option.splits)
  then have cfg: "v_tls cfg" "\<not> v_skip_cert_verify cfg" using assms(4,5) by (simp_all add: v2ray_spec_def)
  let ?name = "if v_host cfg = [] then host else v_host cfg"
  from assms(6) cfg obtain tcp l u w where
    "tls_layer_new mt (tls_config_with_skip_cert_verify mt (tls_config_new mt ?name) False) = Ok l"
    "tls_layer_connect mt l tcp = Ok u" "ws_layer_connect mt w u = Ok s"
    unfolding dial_def Let_def by (auto simp only: and_then_Ok map_err_Ok if_True if_False)
  with assms(1,2) show ?thesis by blast
qed

definition sample_transport ::
  "(string list, unit, string \<times> bool, string \<times> bool, unit, unit) meow_transport" where
  "sample_transport =
     \<lparr>tls_config_new = (\<lambda>name. (name, False)), tls_config_with_skip_cert_verify = (\<lambda>(name, _) b. (name, b)),
      tls_layer_new = Inr, tls_layer_connect = (\<lambda>(name, skip) s. Inr (if skip then s else name # s)),
      ws_config_with = (\<lambda>_ _ _. ()), ws_layer_new = Inr, ws_layer_connect = (\<lambda>_ s. Inr s)\<rparr>"

theorem v2ray_dial_authenticates_witness:
  "\<exists>s. dial sample_transport (\<lambda>_ _. Ok []) (\<lambda>_. []) (v2ray_spec [(''tls'', ''true'')]) ''srv'' 443 = Ok s \<and>
     ''srv'' \<in> set s"
proof -
  let ?cfg = "v2ray_spec [(''tls'', ''true'')]"
  have pairs: "opt_pairs ''true'' ''tls'' = [(''tls'', ''true'')]" by code_simp
  then have parsed: "parse_opts ''tls'' = (Ok ?cfg :: unit plugin_error + v2ray_config)"
    unfolding parse_opts_spec by (simp add: bad_mode_def)
  have flags: "flag (opt_pairs ''true'' ''tls'') ''tls''" "\<not> flag (opt_pairs ''true'' ''tls'') ''skip-cert-verify''"
    unfolding pairs by (simp_all add: flag_def last_value_def parse_bool_def to_ascii_lowercase_def
        ascii_lower_def Let_def)
  have "v_tls ?cfg" "\<not> v_skip_cert_verify ?cfg" "v_host ?cfg = []"
    using flags by (simp_all add: pairs v2ray_spec_def last_value_def)
  then have run: "dial sample_transport (\<lambda>_ _. Ok []) (\<lambda>_. []) ?cfg ''srv'' 443 = Ok [''srv'']"
    by (simp add: dial_def sample_transport_def)
  have "''srv'' \<in> set [''srv'']"
    using v2ray_dial_authenticates[of sample_transport "\<lambda>n s. n \<in> set s", OF _ _ parsed flags run]
      \<open>v_host ?cfg = []\<close> by (auto simp: sample_transport_def split: prod.splits)
  with run show ?thesis by blast
qed

end
