(* ===== verification/Plugin.thy ===== *)
theory Plugin
  imports V2ray_Plugin Obfs_Http Obfs_Tls
begin

text \<open>
  \<open>src/native/sslocal-ffi/src/plugin.rs\<close>: parsing a SIP003 plugin, wrapping a connection with it,
  and the loopback forwarder with its accept loop. The TCP connect, \<open>bind\<close>, the outcomes of
  \<open>accept\<close> and \<open>copy_bidirectional\<close> are parameters; the forwarder's loop is a function of the
  list of accept outcomes, to a list of what it does. Log output is not modelled.
\<close>

section \<open>Parsing\<close>

datatype plugin_kind =
    SimpleObfsHttp string
  | SimpleObfsTls string
  | V2ray v2ray_config

definition quoted :: "string \<Rightarrow> string" where
  "quoted s = [CHR 0x27] @ s @ [CHR 0x27]"

definition unknown_obfs_mode_message :: "string \<Rightarrow> string" where
  "unknown_obfs_mode_message other =
     ''simple-obfs: unknown obfs mode '' @ quoted other @ '' (expected '' @ quoted ''http'' @ '' or '' @
     quoted ''tls'' @ '')''"

definition missing_obfs_mode_message :: string where
  "missing_obfs_mode_message = ''simple-obfs: missing '' @ quoted ''obfs=http|tls'' @ '' option''"

text \<open>One turn of the loop of \<open>parse_simple_obfs_opts\<close>, on its variables \<open>mode\<close> and \<open>host\<close>.\<close>

definition simple_obfs_opt :: "string option \<times> string \<Rightarrow> string \<times> string \<Rightarrow> string option \<times> string" where
  "simple_obfs_opt st kv =
     (case st of (mode, host) \<Rightarrow> case kv of (key, value) \<Rightarrow>
        if key = ''obfs'' then (Some value, host)
        else if key = ''obfs-host'' then (mode, value)
        else (mode, host))"

definition parse_simple_obfs_opts :: "string \<Rightarrow> 'e plugin_error + plugin_kind" where
  "parse_simple_obfs_opts opts =
     (case foldl simple_obfs_opt (None, []) (opt_pairs [] opts) of (mode, host) \<Rightarrow>
        (case mode of
           Some m \<Rightarrow>
             if m = ''http'' then Ok (SimpleObfsHttp host)
             else if m = ''tls'' then Ok (SimpleObfsTls host)
             else Err (InvalidOptions (unknown_obfs_mode_message m))
         | None \<Rightarrow> Err (InvalidOptions missing_obfs_mode_message)))"

definition map_ok :: "('a \<Rightarrow> 'b) \<Rightarrow> 'e + 'a \<Rightarrow> 'e + 'b" where
  "map_ok f r = (case r of Inl e \<Rightarrow> Inl e | Inr x \<Rightarrow> Inr (f x))"

definition parse_plugin :: "string \<Rightarrow> string \<Rightarrow> 'e plugin_error + plugin_kind" where
  "parse_plugin name opts =
     (if name \<in> {''obfs-local'', ''simple-obfs'', ''obfs''} then parse_simple_obfs_opts opts
      else if name = ''v2ray-plugin'' then map_ok V2ray (parse_opts opts)
      else Err (Unsupported name))"

text \<open>\<open>Display\<close>; the messages of the errors below are parameters.\<close>

fun show_plugin_error :: "(io_error \<Rightarrow> string) \<Rightarrow> ('e \<Rightarrow> string) \<Rightarrow> 'e plugin_error \<Rightarrow> string" where
  "show_plugin_error io_msg transport_msg (Unsupported name) =
     ''plugin '' @ [CHR 0x22] @ name @ [CHR 0x22] @ '' is not supported: spawning external plugin '' @
     ''processes is impossible on HarmonyOS; built-in plugins are '' @
     ''obfs-local (simple-obfs) and v2ray-plugin''"
| "show_plugin_error io_msg transport_msg (InvalidOptions message) = message"
| "show_plugin_error io_msg transport_msg (Io e) = ''io: '' @ io_msg e"
| "show_plugin_error io_msg transport_msg (Transport e) = ''transport: '' @ transport_msg e"

section \<open>Accept errors\<close>

text \<open>
  \<open>std::io::Error::kind\<close> and \<open>raw_os_error\<close>; on Linux, whose error numbers HarmonyOS has, the
  standard library gives these codes the kinds the crate distinguishes.
\<close>

definition decode_error_kind :: "int \<Rightarrow> error_kind" where
  "decode_error_kind errno =
     (if errno = 98 then AddrInUse
      else if errno = 99 then AddrNotAvailable
      else if errno = 103 then ConnectionAborted
      else if errno = 111 then ConnectionRefused
      else if errno = 104 then ConnectionReset
      else if errno = 4 then Interrupted
      else if errno = 22 then InvalidInput
      else if errno = 12 then OutOfMemory
      else if errno = 107 then NotConnected
      else if errno = 32 then BrokenPipe
      else if errno = 1 \<or> errno = 13 then PermissionDenied
      else if errno = 110 then TimedOut
      else if errno = 11 then WouldBlock
      else OtherKind)"

fun io_kind :: "io_error \<Rightarrow> error_kind" where
  "io_kind (Os errno) = decode_error_kind errno"
| "io_kind (Simple k) = k"
| "io_kind (Custom k _) = k"

fun raw_os_error :: "io_error \<Rightarrow> int option" where
  "raw_os_error (Os errno) = Some errno"
| "raw_os_error _ = None"

text \<open>\<open>libc::EMFILE\<close>, \<open>ENFILE\<close>, \<open>ENOBUFS\<close> and \<open>ENOMEM\<close>.\<close>

definition EMFILE :: int where "EMFILE = 24"
definition ENFILE :: int where "ENFILE = 23"
definition ENOBUFS :: int where "ENOBUFS = 105"
definition ENOMEM :: int where "ENOMEM = 12"

definition is_transient_accept_error :: "io_error \<Rightarrow> bool" where
  "is_transient_accept_error e \<longleftrightarrow>
     io_kind e \<in> {ConnectionAborted, ConnectionReset, Interrupted, WouldBlock, TimedOut} \<or>
     raw_os_error e \<in> {Some EMFILE, Some ENFILE, Some ENOBUFS, Some ENOMEM}"

section \<open>The forwarder\<close>

text \<open>A \<open>Box<dyn Stream>\<close> of one of the three plugins.\<close>

datatype 's wrapped_stream =
    Http_Stream "'s http_obfs"
  | Tls_Stream "'s tls_obfs"
  | V2ray_Stream 's

fun wrap_stream ::
  "('s, 'e, 'tc, 'tl, 'wc, 'wl) meow_transport \<Rightarrow> (string \<Rightarrow> u16 \<Rightarrow> 's io_result) \<Rightarrow>
   ((string \<rightharpoonup> string) \<Rightarrow> (string \<times> string) list) \<Rightarrow> plugin_kind \<Rightarrow> string \<Rightarrow> u16 \<Rightarrow>
   'e plugin_error + 's wrapped_stream" where
  "wrap_stream mt connect iter (SimpleObfsHttp host) server_host server_port =
     and_then (map_err Io (connect server_host server_port)) (\<lambda>tcp.
       Ok (Http_Stream (http_new tcp (if host = [] then server_host else host) server_port)))"
| "wrap_stream mt connect iter (SimpleObfsTls host) server_host server_port =
     and_then (map_err Io (connect server_host server_port)) (\<lambda>tcp.
       Ok (Tls_Stream (tls_new tcp (if host = [] then server_host else host))))"
| "wrap_stream mt connect iter (V2ray cfg) server_host server_port =
     map_ok V2ray_Stream (dial mt connect iter cfg server_host server_port)"

text \<open>
  What the accept loop does, in order: hand a connection to a task of its own, sleep for so
  many milliseconds, or give up.
\<close>

datatype 'c forwarder_action = Spawn_Relay 'c | Sleep nat | Give_Up io_error

definition ACCEPT_RETRY_DELAY :: nat where
  "ACCEPT_RETRY_DELAY = 100"

fun accept_loop :: "'c io_result list \<Rightarrow> 'c forwarder_action list" where
  "accept_loop [] = []"
| "accept_loop (Inr conn # rest) = Spawn_Relay conn # accept_loop rest"
| "accept_loop (Inl e # rest) =
     (if is_transient_accept_error e then Sleep ACCEPT_RETRY_DELAY # accept_loop rest
      else [Give_Up e])"

text \<open>What a relay task comes to: \<open>copy\<close> is \<open>tokio::io::copy_bidirectional\<close>.\<close>

datatype 'e relay_outcome = Relay_Ended "unit io_result" | Connect_Failed "'e plugin_error"

definition relay_task ::
  "(plugin_kind \<Rightarrow> string \<Rightarrow> u16 \<Rightarrow> 'e plugin_error + 's wrapped_stream) \<Rightarrow>
   ('c \<Rightarrow> 's wrapped_stream \<Rightarrow> unit io_result) \<Rightarrow> plugin_kind \<Rightarrow> string \<Rightarrow> u16 \<Rightarrow> 'c \<Rightarrow> 'e relay_outcome" where
  "relay_task wrap copy kind server_host server_port inbound =
     (case wrap kind server_host server_port of
        Inr wrapped \<Rightarrow> Relay_Ended (copy inbound wrapped)
      | Inl e \<Rightarrow> Connect_Failed e)"

text \<open>
  \<open>start_forwarder\<close>: the port, and the loop it leaves running. \<open>bind\<close> and \<open>local_port\<close> are those of
  \<open>TcpListener\<close>, \<open>accepts\<close> the outcomes of \<open>accept\<close> on a listener.
\<close>

definition start_forwarder ::
  "(string \<Rightarrow> u16 \<Rightarrow> 'l io_result) \<Rightarrow> ('l \<Rightarrow> u16 io_result) \<Rightarrow> ('l \<Rightarrow> 'c io_result list) \<Rightarrow>
   (u16 \<times> 'c forwarder_action list) io_result" where
  "start_forwarder bind local_port accepts =
     and_then (bind ''127.0.0.1'' 0) (\<lambda>listener.
     and_then (local_port listener) (\<lambda>port.
       Ok (port, accept_loop (accepts listener))))"

section \<open>What the parsers compute\<close>

lemma simple_obfs_fold:
  "foldl simple_obfs_opt (None, []) kvs =
     (last_value kvs ''obfs'', case last_value kvs ''obfs-host'' of Some h \<Rightarrow> h | None \<Rightarrow> [])"
proof (induction kvs rule: rev_induct)
  case (snoc kv kvs)
  obtain k v where "kv = (k, v)" by (cases kv)
  with snoc show ?case by (simp add: simple_obfs_opt_def)
qed simp

definition is_fatal :: "'c io_result \<Rightarrow> bool" where
  "is_fatal r = (case r of Inl e \<Rightarrow> \<not> is_transient_accept_error e | Inr _ \<Rightarrow> False)"

definition action_of :: "'c io_result \<Rightarrow> 'c forwarder_action" where
  "action_of r =
     (case r of
        Inr conn \<Rightarrow> Spawn_Relay conn
      | Inl e \<Rightarrow> if is_transient_accept_error e then Sleep 100 else Give_Up e)"

text \<open>
  C23: \<open>parse_simple_obfs_opts\<close> fails exactly if the last \<open>obfs\<close> option is missing or neither \<open>http\<close>
  nor \<open>tls\<close>; otherwise it chooses that plugin with the last \<open>obfs-host\<close>, empty by default, and
  ignores every other option.
\<close>

theorem parse_simple_obfs_opts_spec:
  "parse_simple_obfs_opts opts =
     (let kvs = opt_pairs [] opts;
          host = (case last_value kvs ''obfs-host'' of Some h \<Rightarrow> h | None \<Rightarrow> [])
      in case last_value kvs ''obfs'' of
           None \<Rightarrow> Err (InvalidOptions missing_obfs_mode_message)
         | Some m \<Rightarrow>
             if m = ''http'' then Ok (SimpleObfsHttp host)
             else if m = ''tls'' then Ok (SimpleObfsTls host)
             else Err (InvalidOptions (unknown_obfs_mode_message m)))"
  by (simp add: parse_simple_obfs_opts_def simple_obfs_fold Let_def)

lemma plain_obfs_keys:
  "plain_key ''obfs''" "plain_key ''obfs-host''" "plain_value ''http''" "plain_value ''tls''"
  by (auto simp: plain_key_def plain_value_def not_white_def white_space_def intro!: trimmed_ascii)

text \<open>
  C22: round trip. Options written for a simple-obfs plugin are read back, under each of the three
  names of the plugin, if the host has no semicolon and no white space around it.
\<close>

theorem parse_plugin_simple_obfs:
  assumes "name \<in> {''obfs-local'', ''simple-obfs'', ''obfs''}" and "plain_value host"
  shows "parse_plugin name (show_opts [(''obfs'', ''http''), (''obfs-host'', host)])
      = (Ok (SimpleObfsHttp host) :: 'e plugin_error + plugin_kind) \<and>
    parse_plugin name (show_opts [(''obfs'', ''tls''), (''obfs-host'', host)])
      = (Ok (SimpleObfsTls host) :: 'e plugin_error + plugin_kind)"
proof -
  have pairs: "opt_pairs [] (show_opts [(''obfs'', m), (''obfs-host'', host)]) = [(''obfs'', m), (''obfs-host'', host)]"
    if "plain_value m" for m
    by (rule opt_pairs_show) (use that assms(2) plain_obfs_keys in auto)
  show ?thesis
    using assms(1) plain_obfs_keys(3,4)
    by (simp add: parse_plugin_def parse_simple_obfs_opts_spec pairs last_value_Cons)
qed

theorem parse_plugin_simple_obfs_witness:
  "parse_plugin ''obfs-local'' ''obfs=tls;obfs-host=a.b;''
     = (Ok (SimpleObfsTls ''a.b'') :: unit plugin_error + plugin_kind)"
proof -
  have "plain_value ''a.b''"
    by (auto simp: plain_value_def not_white_def white_space_def intro!: trimmed_ascii)
  then show ?thesis
    using parse_plugin_simple_obfs[of "''obfs-local''" "''a.b''", where 'e = unit] by (simp add: show_opts_def)
qed

text \<open>
  Exactly the names of the built-in plugins are supported, and an unsupported one is reported
  by its name, whatever its options are.
\<close>

theorem parse_plugin_unsupported:
  "parse_plugin name opts = Err (Unsupported n) \<longleftrightarrow>
     n = name \<and> name \<notin> {''obfs-local'', ''simple-obfs'', ''obfs'', ''v2ray-plugin''}"
proof -
  have "parse_simple_obfs_opts opts \<noteq> Err (Unsupported n)"
    by (auto simp: parse_simple_obfs_opts_spec Let_def split: option.splits)
  moreover have "map_ok V2ray (parse_opts opts) \<noteq> Err (Unsupported n)"
    by (auto simp: map_ok_def parse_opts_spec split: option.splits sum.splits)
  ultimately show ?thesis by (auto simp: parse_plugin_def)
qed

text \<open>
  C31: of the errors of the operating system, exactly these nine keep the accept loop alive: EINTR,
  EAGAIN, ENOMEM, ENFILE, EMFILE, ECONNABORTED, ECONNRESET, ENOBUFS and ETIMEDOUT. The network
  errors that Linux passes on from the connection that was to be accepted (ENETDOWN, EPROTO,
  ENOPROTOOPT, EHOSTDOWN, ENONET, EHOSTUNREACH, EOPNOTSUPP, ENETUNREACH) are not among them.
\<close>

theorem transient_accept_errors:
  "is_transient_accept_error (Os errno) \<longleftrightarrow> errno \<in> {4, 11, 12, 23, 24, 103, 104, 105, 110}"
  by (auto simp: is_transient_accept_error_def decode_error_kind_def EMFILE_def ENFILE_def
      ENOBUFS_def ENOMEM_def split: if_splits)

text \<open>
  The accept loop hands every accepted connection to a relay, in order and once, sleeps 100 ms
  after each transient error and never otherwise, and stops at the first fatal error, which is
  the last thing it does.
\<close>

theorem accept_loop_spec:
  "accept_loop outcomes =
     map action_of (takeWhile (\<lambda>r. \<not> is_fatal r) outcomes @ take 1 (dropWhile (\<lambda>r. \<not> is_fatal r) outcomes))"
  by (induction outcomes rule: accept_loop.induct)
    (auto simp: action_of_def is_fatal_def ACCEPT_RETRY_DELAY_def)

end
