(* ===== verification/Ffi_State.thy ===== *)
theory Ffi_State
  imports Rust_Str
begin

text \<open>
  The statics of \<open>src/native/sslocal-ffi/src/lib.rs\<close> and the life of the error messages: which
  buffers are allocated, which one \<open>LAST_ERROR\<close> and which one \<open>LAST_ERROR_HANDED_OUT\<close> owns, and
  which pointers a caller may still read. A C string is its bytes before the terminating NUL.
\<close>

section \<open>Error codes\<close>

definition SSLOCAL_OK :: int where "SSLOCAL_OK = 0"
definition SSLOCAL_ERR_INVALID_ARG :: int where "SSLOCAL_ERR_INVALID_ARG = - 1"
definition SSLOCAL_ERR_BAD_CONFIG :: int where "SSLOCAL_ERR_BAD_CONFIG = - 2"
definition SSLOCAL_ERR_ALREADY_RUNNING :: int where "SSLOCAL_ERR_ALREADY_RUNNING = - 3"
definition SSLOCAL_ERR_NOT_RUNNING :: int where "SSLOCAL_ERR_NOT_RUNNING = - 4"
definition SSLOCAL_ERR_RUNTIME :: int where "SSLOCAL_ERR_RUNTIME = - 5"

lemmas ffi_codes = SSLOCAL_OK_def SSLOCAL_ERR_INVALID_ARG_def SSLOCAL_ERR_BAD_CONFIG_def
  SSLOCAL_ERR_ALREADY_RUNNING_def SSLOCAL_ERR_NOT_RUNNING_def SSLOCAL_ERR_RUNTIME_def

section \<open>The statics\<close>

text \<open>
  \<open>'rt\<close> is what an \<open>Instance\<close> holds, \<open>'a\<close> a \<open>SocketAddr\<close>. \<open>heap\<close> maps the buffers that are
  allocated to their contents. \<open>duped\<close> lists the descriptors \<open>libc::dup\<close> has created.
\<close>

record ('rt, 'a) ffi =
  INSTANCE :: "'rt option"
  LAST_ERROR :: "nat option"
  LAST_ERROR_HANDED_OUT :: "nat option"
  STAT_ADDR :: "'a option"
  heap :: "nat \<rightharpoonup> string"
  next_buffer :: nat
  duped :: "int list"

definition ffi_initial :: "('rt, 'a) ffi" where
  "ffi_initial =
     \<lparr>INSTANCE = None, LAST_ERROR = None, LAST_ERROR_HANDED_OUT = None, STAT_ADDR = None,
      heap = Map.empty, next_buffer = 0, duped = []\<rparr>"

section \<open>Messages\<close>

text \<open>\<open>CString::new(message).unwrap_or_default()\<close>.\<close>

definition c_string_new :: "string \<Rightarrow> string" where
  "c_string_new message = (if CHR 0x00 \<in> set message then [] else message)"

definition alloc :: "string \<Rightarrow> ('rt, 'a) ffi \<Rightarrow> nat \<times> ('rt, 'a) ffi" where
  "alloc text s = (next_buffer s,
     s\<lparr>heap := (heap s)(next_buffer s \<mapsto> text), next_buffer := Suc (next_buffer s)\<rparr>)"

definition free :: "nat option \<Rightarrow> ('rt, 'a) ffi \<Rightarrow> ('rt, 'a) ffi" where
  "free slot s = (case slot of None \<Rightarrow> s | Some p \<Rightarrow> s\<lparr>heap := (heap s)(p := None)\<rparr>)"

text \<open>Assigning a slot drops its old value.\<close>

definition set_last_error :: "string \<Rightarrow> ('rt, 'a) ffi \<Rightarrow> ('rt, 'a) ffi" where
  "set_last_error message s =
     (case alloc (c_string_new message) s of (p, s') \<Rightarrow>
        (free (LAST_ERROR s') s')\<lparr>LAST_ERROR := Some p\<rparr>)"

definition sslocal_last_error :: "('rt, 'a) ffi \<Rightarrow> nat option \<times> ('rt, 'a) ffi" where
  "sslocal_last_error s =
     (case Option.bind (LAST_ERROR s) (heap s) of
        None \<Rightarrow> (None, (free (LAST_ERROR_HANDED_OUT s) s)\<lparr>LAST_ERROR_HANDED_OUT := None\<rparr>)
      | Some text \<Rightarrow>
          (case alloc text s of (p, s') \<Rightarrow>
             (Some p, (free (LAST_ERROR_HANDED_OUT s') s')\<lparr>LAST_ERROR_HANDED_OUT := Some p\<rparr>)))"

text \<open>The message a call to \<open>sslocal_last_error\<close> would hand out now.\<close>

definition last_message :: "('rt, 'a) ffi \<Rightarrow> string option" where
  "last_message s = Option.bind (LAST_ERROR s) (heap s)"

text \<open>
  The invariant of the statics: the two slots own different buffers, these are the only ones
  allocated, and no message contains a NUL.
\<close>

definition slots :: "('rt, 'a) ffi \<Rightarrow> nat set" where
  "slots s = set_option (LAST_ERROR s) \<union> set_option (LAST_ERROR_HANDED_OUT s)"

definition ffi_wf :: "('rt, 'a) ffi \<Rightarrow> bool" where
  "ffi_wf s \<longleftrightarrow>
     dom (heap s) = slots s \<and> (\<forall>p\<in>slots s. p < next_buffer s) \<and>
     (LAST_ERROR s = None \<or> LAST_ERROR s \<noteq> LAST_ERROR_HANDED_OUT s) \<and>
     (\<forall>p t. heap s p = Some t \<longrightarrow> CHR 0x00 \<notin> set t)"

lemma ffi_initial_wf: "ffi_wf ffi_initial"
  by (simp add: ffi_wf_def ffi_initial_def slots_def)

lemma c_string_new_no_nul [simp]: "CHR 0x00 \<notin> set (c_string_new m)"
  by (simp add: c_string_new_def)

lemma set_last_error_frame [simp]:
  "INSTANCE (set_last_error m s) = INSTANCE s"
  "LAST_ERROR_HANDED_OUT (set_last_error m s) = LAST_ERROR_HANDED_OUT s"
  "STAT_ADDR (set_last_error m s) = STAT_ADDR s" "duped (set_last_error m s) = duped s"
  by (simp_all add: set_last_error_def alloc_def free_def split: option.split)

lemma last_error_frame [simp]:
  "INSTANCE (snd (sslocal_last_error s)) = INSTANCE s"
  "LAST_ERROR (snd (sslocal_last_error s)) = LAST_ERROR s"
  "STAT_ADDR (snd (sslocal_last_error s)) = STAT_ADDR s" "duped (snd (sslocal_last_error s)) = duped s"
  by (simp_all add: sslocal_last_error_def alloc_def free_def split: option.split)

lemma set_last_error_message: "ffi_wf s \<Longrightarrow> last_message (set_last_error m s) = Some (c_string_new m)"
  by (auto simp: set_last_error_def alloc_def free_def last_message_def ffi_wf_def slots_def
      split: option.split)

lemma set_last_error_wf: "ffi_wf s \<Longrightarrow> ffi_wf (set_last_error m s)"
  by (cases "LAST_ERROR s"; cases "LAST_ERROR_HANDED_OUT s")
    (auto simp: set_last_error_def alloc_def free_def ffi_wf_def slots_def dom_def
      split: if_splits)

lemma set_last_error_keeps_handed_out:
  "\<lbrakk>ffi_wf s; LAST_ERROR_HANDED_OUT s = Some p\<rbrakk> \<Longrightarrow> heap (set_last_error m s) p = heap s p"
  by (cases "LAST_ERROR s")
    (auto simp: set_last_error_def alloc_def free_def ffi_wf_def slots_def)

lemma last_error_wf: "ffi_wf s \<Longrightarrow> ffi_wf (snd (sslocal_last_error s))"
  by (cases "LAST_ERROR s"; cases "LAST_ERROR_HANDED_OUT s")
    (auto simp: sslocal_last_error_def alloc_def free_def ffi_wf_def slots_def dom_def
      split: if_splits option.splits)

lemma last_error_pointer:
  assumes "ffi_wf s" and "sslocal_last_error s = (q, s')"
  shows "LAST_ERROR_HANDED_OUT s' = q \<and>
    (case q of None \<Rightarrow> last_message s = None | Some p \<Rightarrow> heap s' p = last_message s \<and> last_message s \<noteq> None)"
  using assms
  by (cases "LAST_ERROR_HANDED_OUT s")
    (auto simp: sslocal_last_error_def alloc_def free_def last_message_def ffi_wf_def slots_def
      split: option.splits)

lemma ffi_wf_card:
  assumes "ffi_wf s"
  shows "card (dom (heap s)) \<le> 2"
proof -
  have "card (slots s) \<le> card (set_option (LAST_ERROR s)) + card (set_option (LAST_ERROR_HANDED_OUT s))"
    unfolding slots_def by (rule card_Un_le)
  also have "\<dots> \<le> 2" by (cases "LAST_ERROR s"; cases "LAST_ERROR_HANDED_OUT s") simp_all
  finally show ?thesis using assms by (simp add: ffi_wf_def)
qed

end
