(* ===== verification/Ffi_Config.thy ===== *)
theory Ffi_Config
  imports Plugin Ffi_State "HOL-Library.AList"
begin

text \<open>
  The plugin fields of a config: \<open>extract_plugin_specs\<close> and \<open>apply_plugin_forwarders\<close> of
  \<open>src/native/sslocal-ffi/src/lib.rs\<close>. \<open>serde_json::Value\<close> is a parameter: the operations the
  code uses (\<open>json_ops\<close>), and what its documentation says of them (the locale \<open>json_value\<close>). A
  failure is the code a function returns and the message it records with \<open>set_last_error\<close> just
  before. \<open>None\<close> as the result of a function that indexes a value mutably is a panic.
\<close>

type_synonym failure = "int \<times> string"

section \<open>JSON values\<close>

record 'j json_ops =
  j_get :: "'j \<Rightarrow> string \<Rightarrow> 'j option"
  j_as_str :: "'j \<Rightarrow> string option"
  j_as_array :: "'j \<Rightarrow> 'j list option"
  j_as_u64 :: "'j \<Rightarrow> u64 option"
  j_string :: "string \<Rightarrow> 'j"
  j_number :: "u16 \<Rightarrow> 'j"
  j_array :: "'j list \<Rightarrow> 'j"
  j_set :: "'j \<Rightarrow> string \<Rightarrow> 'j \<Rightarrow> 'j option"
  j_remove :: "'j \<Rightarrow> string \<Rightarrow> 'j"

text \<open>
  \<open>get\<close> looks up a key of an object; \<open>v[k] = x\<close> (\<open>j_set\<close>) inserts or replaces, makes an
  object of a null and panics if \<open>v\<close> is neither; removing a key leaves the others; what \<open>From\<close> builds the accessors read back.
\<close>

locale json_value =
  fixes J :: "'j json_ops"
  assumes set_some: "j_get J v k = Some x \<Longrightarrow> \<exists>v'. j_set J v k' y = Some v'"
    and get_set: "j_set J v k x = Some v' \<Longrightarrow> j_get J v' k' = (if k' = k then Some x else j_get J v k')"
    and get_remove: "j_get J (j_remove J v k) k' = (if k' = k then None else j_get J v k')"
    and str_string: "j_as_str J (j_string J s) = Some s"
    and u64_number: "j_as_u64 J (j_number J n) = Some (ucast n)"
    and array_array: "j_as_array J (j_array J xs) = Some xs"

text \<open>A concrete value type, objects being association lists.\<close>

datatype json = JNull | JString string | JNumber u64 | JArray "json list" | JObject "(string \<times> json) list"

definition json_instance :: "json json_ops" where
  "json_instance =
     \<lparr>j_get = (\<lambda>v k. case v of JObject kvs \<Rightarrow> map_of kvs k | _ \<Rightarrow> None),
      j_as_str = (\<lambda>v. case v of JString s \<Rightarrow> Some s | _ \<Rightarrow> None),
      j_as_array = (\<lambda>v. case v of JArray xs \<Rightarrow> Some xs | _ \<Rightarrow> None),
      j_as_u64 = (\<lambda>v. case v of JNumber n \<Rightarrow> Some n | _ \<Rightarrow> None),
      j_string = JString, j_number = (\<lambda>n. JNumber (ucast n)), j_array = JArray,
      j_set = (\<lambda>v k x. case v of JObject kvs \<Rightarrow> Some (JObject (AList.update k x kvs))
        | JNull \<Rightarrow> Some (JObject [(k, x)]) | _ \<Rightarrow> None),
      j_remove = (\<lambda>v k. case v of JObject kvs \<Rightarrow> JObject (AList.delete k kvs) | _ \<Rightarrow> v)\<rparr>"

interpretation concrete_json: json_value json_instance
  by unfold_locales
    (auto simp: json_instance_def update_conv' delete_conv' split: json.splits)

section \<open>Plugin specs\<close>

datatype plugin_site = TopLevel | Server nat

record plugin_spec =
  spec_site :: plugin_site
  spec_kind :: plugin_kind
  spec_host :: string
  spec_port :: u16

definition dquoted :: "string \<Rightarrow> string" where
  "dquoted s = [CHR 0x22] @ s @ [CHR 0x22]"

text \<open>\<open>u16::try_from\<close> of a \<open>u64\<close>.\<close>

definition u16_try_from :: "u64 \<Rightarrow> u16 option" where
  "u16_try_from n = (if n < 65536 then Some (ucast n) else None)"

definition json_str :: "'j json_ops \<Rightarrow> 'j \<Rightarrow> string \<Rightarrow> string option" where
  "json_str J v k = Option.bind (j_get J v k) (j_as_str J)"

definition json_port :: "'j json_ops \<Rightarrow> 'j \<Rightarrow> u16 option" where
  "json_port J v = Option.bind (Option.bind (j_get J v ''server_port'') (j_as_u64 J)) u16_try_from"

definition extract_one_spec ::
  "'j json_ops \<Rightarrow> (io_error \<Rightarrow> string) \<Rightarrow> ('e \<Rightarrow> string) \<Rightarrow> 'j \<Rightarrow> plugin_site \<Rightarrow> failure + plugin_spec" where
  "extract_one_spec J show_io show_transport entry site =
     (case json_str J entry ''plugin'' of
        None \<Rightarrow> Err (SSLOCAL_ERR_BAD_CONFIG, dquoted ''plugin'' @ '' must be a string'')
      | Some name \<Rightarrow>
          (let opts = (case json_str J entry ''plugin_opts'' of Some opts \<Rightarrow> opts | None \<Rightarrow> [])
           in and_then
             (map_err (\<lambda>e. (SSLOCAL_ERR_BAD_CONFIG, show_plugin_error show_io show_transport e))
                (parse_plugin name opts)) (\<lambda>kind.
             case json_str J entry ''server'' of
               None \<Rightarrow> Err (SSLOCAL_ERR_BAD_CONFIG,
                 ''plugin '' @ dquoted name @ '' requires a '' @ dquoted ''server'' @ '' address'')
             | Some host \<Rightarrow>
                 (case json_port J entry of
                    None \<Rightarrow> Err (SSLOCAL_ERR_BAD_CONFIG,
                      ''plugin '' @ dquoted name @ '' requires a valid '' @ dquoted ''server_port'')
                  | Some port \<Rightarrow>
                      Ok \<lparr>spec_site = site, spec_kind = kind, spec_host = host, spec_port = port\<rparr>))))"

text \<open>The entries of \<open>servers\<close>, from index \<open>i\<close>.\<close>

fun extract_servers ::
  "'j json_ops \<Rightarrow> (io_error \<Rightarrow> string) \<Rightarrow> ('e \<Rightarrow> string) \<Rightarrow> nat \<Rightarrow> 'j list \<Rightarrow> failure + plugin_spec list" where
  "extract_servers J show_io show_transport i [] = Ok []"
| "extract_servers J show_io show_transport i (entry # rest) =
     (if j_get J entry ''plugin'' \<noteq> None then
        and_then (extract_one_spec J show_io show_transport entry (Server i)) (\<lambda>spec.
        and_then (extract_servers J show_io show_transport (Suc i) rest) (\<lambda>specs. Ok (spec # specs)))
      else extract_servers J show_io show_transport (Suc i) rest)"

definition server_entries :: "'j json_ops \<Rightarrow> 'j \<Rightarrow> 'j list" where
  "server_entries J v =
     (case Option.bind (j_get J v ''servers'') (j_as_array J) of None \<Rightarrow> [] | Some xs \<Rightarrow> xs)"

definition extract_plugin_specs ::
  "'j json_ops \<Rightarrow> (io_error \<Rightarrow> string) \<Rightarrow> ('e \<Rightarrow> string) \<Rightarrow> 'j \<Rightarrow> failure + plugin_spec list" where
  "extract_plugin_specs J show_io show_transport v =
     and_then
       (if j_get J v ''plugin'' \<noteq> None
        then map_ok (\<lambda>spec. [spec]) (extract_one_spec J show_io show_transport v TopLevel)
        else Ok []) (\<lambda>top.
     and_then (extract_servers J show_io show_transport 0 (server_entries J v)) (\<lambda>specs.
     Ok (top @ specs)))"

section \<open>Forwarders\<close>

text \<open>
  Pointing an entry at a forwarder, and changing the entry a spec came from. Indexing
  \<open>json["servers"][i]\<close> panics if there is no such entry.
\<close>

definition redirect :: "'j json_ops \<Rightarrow> u16 \<Rightarrow> 'j \<Rightarrow> 'j option" where
  "redirect J local_port entry =
     Option.bind (j_set J entry ''server'' (j_string J ''127.0.0.1'')) (\<lambda>entry.
     Option.bind (j_set J entry ''server_port'' (j_number J local_port)) (\<lambda>entry.
     Some (j_remove J (j_remove J entry ''plugin'') ''plugin_opts'')))"

fun update_site :: "'j json_ops \<Rightarrow> plugin_site \<Rightarrow> ('j \<Rightarrow> 'j option) \<Rightarrow> 'j \<Rightarrow> 'j option" where
  "update_site J TopLevel f v = f v"
| "update_site J (Server i) f v =
     (case Option.bind (j_get J v ''servers'') (j_as_array J) of
        None \<Rightarrow> None
      | Some xs \<Rightarrow>
          if i < length xs
          then Option.bind (f (xs ! i)) (\<lambda>entry. j_set J v ''servers'' (j_array J (xs[i := entry])))
          else None)"

text \<open>
  What the operating system does in one call. The \<open>n\<close>-th forwarder of a call binds with
  \<open>os_bind n\<close>.
\<close>

record ('lis, 'con) os =
  os_runtime :: "io_error option"
  os_bind :: "nat \<Rightarrow> string \<Rightarrow> u16 \<Rightarrow> 'lis io_result"
  os_local_port :: "'lis \<Rightarrow> u16 io_result"
  os_accepts :: "'lis \<Rightarrow> 'con io_result list"
  os_dup :: "int \<Rightarrow> int"
  os_dup_error :: string
  os_tungetiff :: "int \<Rightarrow> string option"

text \<open>The forwarders of a runtime: plugin, server and the local port that stands for it.\<close>

type_synonym forwarder = "plugin_kind \<times> string \<times> u16 \<times> u16"

definition forwarder_failure :: "(io_error \<Rightarrow> string) \<Rightarrow> plugin_spec \<Rightarrow> io_error \<Rightarrow> failure" where
  "forwarder_failure show_io spec e =
     (SSLOCAL_ERR_RUNTIME,
      ''failed to start plugin forwarder for '' @ spec_host spec @ '':'' @ dec (unat (spec_port spec)) @
      '': '' @ show_io e)"

fun apply_plugin_forwarders ::
  "'j json_ops \<Rightarrow> (io_error \<Rightarrow> string) \<Rightarrow> ('lis, 'con) os \<Rightarrow> nat \<Rightarrow> 'j \<Rightarrow> plugin_spec list \<Rightarrow>
   (failure + 'j \<times> forwarder list) option" where
  "apply_plugin_forwarders J show_io os n v [] = Some (Ok (v, []))"
| "apply_plugin_forwarders J show_io os n v (spec # specs) =
     (case start_forwarder (os_bind os n) (os_local_port os) (os_accepts os) of
        Inl e \<Rightarrow> Some (Err (forwarder_failure show_io spec e))
      | Inr (local_port, _) \<Rightarrow>
          Option.bind (update_site J (spec_site spec) (redirect J local_port) v) (\<lambda>v.
          map_option (map_ok (\<lambda>(v, fs). (v, (spec_kind spec, spec_host spec, spec_port spec, local_port) # fs)))
            (apply_plugin_forwarders J show_io os (Suc n) v specs)))"

section \<open>What the two functions do\<close>

text \<open>
  The specification of the rewritten config: an entry with a plugin is at its forwarder, without the
  plugin fields and otherwise as it was, except for the keys \<open>K\<close>; an entry without one is
  unchanged. The forwarder of an entry relays with its plugin to its server.
\<close>

definition redirected :: "'j json_ops \<Rightarrow> string set \<Rightarrow> u16 \<Rightarrow> 'j \<Rightarrow> 'j \<Rightarrow> bool" where
  "redirected J K p old new \<longleftrightarrow>
     j_get J new ''server'' = Some (j_string J ''127.0.0.1'') \<and>
     j_get J new ''server_port'' = Some (j_number J p) \<and>
     j_get J new ''plugin'' = None \<and> j_get J new ''plugin_opts'' = None \<and>
     (\<forall>k. k \<notin> {''server'', ''server_port'', ''plugin'', ''plugin_opts''} \<union> K \<longrightarrow> j_get J new k = j_get J old k)"

definition has_plugin :: "'j json_ops \<Rightarrow> 'j \<Rightarrow> bool" where
  "has_plugin J v \<longleftrightarrow> j_get J v ''plugin'' \<noteq> None"

lemma map_ok_Ok: "map_ok f r = Ok y \<longleftrightarrow> (\<exists>x. r = Ok x \<and> y = f x)"
  by (cases r) (auto simp: map_ok_def)

text \<open>When an entry gives a spec, and which.\<close>

lemma extract_one_spec_Ok:
  "extract_one_spec J show_io show_transport entry site = Ok spec \<longleftrightarrow>
     (\<exists>name kind host port.
        json_str J entry ''plugin'' = Some name \<and>
        parse_plugin name (case json_str J entry ''plugin_opts'' of Some opts \<Rightarrow> opts | None \<Rightarrow> [])
          = (Ok kind :: 'e plugin_error + plugin_kind) \<and>
        json_str J entry ''server'' = Some host \<and> json_port J entry = Some port \<and>
        spec = \<lparr>spec_site = site, spec_kind = kind, spec_host = host, spec_port = port\<rparr>)"
  for show_transport :: "'e \<Rightarrow> string"
  by (cases "json_str J entry ''plugin''"; cases "json_str J entry ''server''"; cases "json_port J entry")
    (auto simp: extract_one_spec_def Let_def and_then_Ok map_err_Ok)

lemma extract_one_site:
  "extract_one_spec J show_io show_transport entry site = Ok spec \<Longrightarrow> spec_site spec = site"
  by (auto simp: extract_one_spec_Ok)

definition entry_forwarded ::
  "'j json_ops \<Rightarrow> (io_error \<Rightarrow> string) \<Rightarrow> ('e \<Rightarrow> string) \<Rightarrow> forwarder list \<Rightarrow> plugin_site \<Rightarrow> string set \<Rightarrow>
   'j \<Rightarrow> 'j \<Rightarrow> bool" where
  "entry_forwarded J show_io show_transport fs site K old new \<longleftrightarrow>
     (\<exists>spec p. extract_one_spec J show_io show_transport old site = Ok spec \<and>
        (spec_kind spec, spec_host spec, spec_port spec, p) \<in> set fs \<and> redirected J K p old new)"

fun entries_forwarded ::
  "'j json_ops \<Rightarrow> (io_error \<Rightarrow> string) \<Rightarrow> ('e \<Rightarrow> string) \<Rightarrow> forwarder list \<Rightarrow> nat \<Rightarrow> 'j list \<Rightarrow> 'j list \<Rightarrow> bool"
where
  "entries_forwarded J show_io show_transport fs i [] [] \<longleftrightarrow> True"
| "entries_forwarded J show_io show_transport fs i (x # xs) (y # ys) \<longleftrightarrow>
     (if has_plugin J x then entry_forwarded J show_io show_transport fs (Server i) {} x y else y = x) \<and>
     entries_forwarded J show_io show_transport fs (Suc i) xs ys"
| "entries_forwarded J show_io show_transport fs i _ _ \<longleftrightarrow> False"

lemma entry_forwarded_mono:
  "\<lbrakk>entry_forwarded J show_io show_transport fs site K x y; set fs \<subseteq> set fs'\<rbrakk>
   \<Longrightarrow> entry_forwarded J show_io show_transport fs' site K x y"
  by (auto simp: entry_forwarded_def)

lemma entries_forwarded_mono:
  "\<lbrakk>entries_forwarded J show_io show_transport fs i xs ys; set fs \<subseteq> set fs'\<rbrakk>
   \<Longrightarrow> entries_forwarded J show_io show_transport fs' i xs ys"
  by (induction J show_io show_transport fs i xs ys rule: entries_forwarded.induct)
    (auto intro: entry_forwarded_mono split: if_splits)

lemma entries_forwarded_length:
  "entries_forwarded J show_io show_transport fs i xs ys \<Longrightarrow> length ys = length xs"
  by (induction J show_io show_transport fs i xs ys rule: entries_forwarded.induct) auto

lemma entries_forwarded_nth:
  "\<lbrakk>entries_forwarded J show_io show_transport fs i xs ys; j < length xs; has_plugin J (xs ! j)\<rbrakk>
   \<Longrightarrow> entry_forwarded J show_io show_transport fs (Server (i + j)) {} (xs ! j) (ys ! j)"
proof (induction J show_io show_transport fs i xs ys arbitrary: j rule: entries_forwarded.induct)
  case (2 J show_io show_transport fs i x xs y ys)
  show ?case
  proof (cases j)
    case 0
    with "2.prems" show ?thesis by simp
  next
    case (Suc k)
    with "2.prems" "2.IH"[of k] show ?thesis by simp
  qed
qed simp_all

lemma redirected_no_plugin: "redirected J K p old new \<Longrightarrow> \<not> has_plugin J new"
  by (simp add: redirected_def has_plugin_def)

lemma entries_forwarded_no_plugin:
  "entries_forwarded J show_io show_transport fs i xs ys \<Longrightarrow> \<forall>y\<in>set ys. \<not> has_plugin J y"
  by (induction J show_io show_transport fs i xs ys rule: entries_forwarded.induct)
    (auto simp: entry_forwarded_def dest: redirected_no_plugin split: if_splits)

context json_value
begin

lemma redirect_redirects:
  assumes "has_plugin J v"
  shows "\<exists>v'. redirect J p v = Some v' \<and> redirected J K p v v'"
proof -
  obtain v1 where v1: "j_set J v ''server'' (j_string J ''127.0.0.1'') = Some v1"
    using assms set_some unfolding has_plugin_def by blast
  then have "j_get J v1 ''plugin'' \<noteq> None" using assms get_set[OF v1] by (simp add: has_plugin_def)
  then obtain v2 where v2: "j_set J v1 ''server_port'' (j_number J p) = Some v2"
    using set_some by blast
  show ?thesis
    by (simp add: redirect_def v1 v2 redirected_def get_remove get_set[OF v1] get_set[OF v2])
qed

text \<open>The array of servers, rewritten from index \<open>length pre\<close> on.\<close>

lemma apply_servers:
  assumes "extract_servers J show_io show_transport i xs = Ok specs"
    and "Option.bind (j_get J v ''servers'') (j_as_array J) = Some (pre @ xs)" and "length pre = i"
  shows "\<exists>r. apply_plugin_forwarders J show_io os n v specs = Some r \<and>
    (\<forall>v' fs. r = Ok (v', fs) \<longrightarrow>
      (\<exists>ys. Option.bind (j_get J v' ''servers'') (j_as_array J) = Some (pre @ ys) \<and>
        entries_forwarded J show_io show_transport fs i xs ys) \<and>
      (\<forall>k. k \<noteq> ''servers'' \<longrightarrow> j_get J v' k = j_get J v k) \<and> length fs = length specs)"
  using assms
proof (induction xs arbitrary: i specs v pre n)
  case Nil
  then show ?case by (auto intro!: exI[of _ "[]"])
next
  case (Cons x xs)
  show ?case
  proof (cases "has_plugin J x")
    case False
    with Cons.prems(1) have rest: "extract_servers J show_io show_transport (Suc i) xs = Ok specs"
      by (simp add: has_plugin_def)
    from Cons.IH[OF rest, of v "pre @ [x]" n] Cons.prems(2,3) False show ?thesis
      by (fastforce intro: exI[of _ "x # _"])
  next
    case True
    with Cons.prems(1) obtain spec rest where spec: "extract_one_spec J show_io show_transport x (Server i) = Ok spec"
      and rest: "extract_servers J show_io show_transport (Suc i) xs = Ok rest" and specs: "specs = spec # rest"
      by (auto simp: has_plugin_def and_then_Ok)
    show ?thesis
    proof (cases "start_forwarder (os_bind os n) (os_local_port os) (os_accepts os)")
      case (Inl e)
      then show ?thesis by (simp add: specs)
    next
      case (Inr res)
      obtain p acts where res: "res = (p, acts)" by (cases res)
      obtain x' where x': "redirect J p x = Some x'" "redirected J {} p x x'"
        using redirect_redirects[OF True] by blast
      obtain v1 where v1: "j_set J v ''servers'' (j_array J ((pre @ [x']) @ xs)) = Some v1"
        using Cons.prems(2) set_some by (metis bind_eq_Some_conv)
      have "update_site J (spec_site spec) (redirect J p) v = Some v1"
        using extract_one_site[OF spec] Cons.prems(2,3) x'(1) v1
        by (simp add: nth_append list_update_append)
      then have step: "apply_plugin_forwarders J show_io os n v specs =
          map_option (map_ok (\<lambda>(v, fs). (v, (spec_kind spec, spec_host spec, spec_port spec, p) # fs)))
            (apply_plugin_forwarders J show_io os (Suc n) v1 rest)"
        by (simp add: specs Inr res)
      have "Option.bind (j_get J v1 ''servers'') (j_as_array J) = Some ((pre @ [x']) @ xs)"
        by (simp add: get_set[OF v1] array_array)
      from Cons.IH[OF rest this, of "Suc n"] Cons.prems(3)
      obtain r where r: "apply_plugin_forwarders J show_io os (Suc n) v1 rest = Some r"
        and fin: "\<And>v' fs. r = Ok (v', fs) \<Longrightarrow>
          (\<exists>ys. Option.bind (j_get J v' ''servers'') (j_as_array J) = Some ((pre @ [x']) @ ys) \<and>
            entries_forwarded J show_io show_transport fs (Suc i) xs ys) \<and>
          (\<forall>k. k \<noteq> ''servers'' \<longrightarrow> j_get J v' k = j_get J v1 k) \<and> length fs = length rest"
        by auto
      let ?f = "(spec_kind spec, spec_host spec, spec_port spec, p)"
      show ?thesis
      proof (intro exI[of _ "map_ok (\<lambda>(v, fs). (v, ?f # fs)) r"] conjI allI impI)
        show "apply_plugin_forwarders J show_io os n v specs =
            Some (map_ok (\<lambda>(v, fs). (v, ?f # fs)) r)" by (simp add: step r)
        fix v' fs'
        assume "map_ok (\<lambda>(v, fs). (v, ?f # fs)) r = Ok (v', fs')"
        then obtain fs where ok: "r = Ok (v', fs)" and fs': "fs' = ?f # fs" by (auto simp: map_ok_Ok)
        from fin[OF ok] obtain ys where ys:
          "Option.bind (j_get J v' ''servers'') (j_as_array J) = Some ((pre @ [x']) @ ys)"
          "entries_forwarded J show_io show_transport fs (Suc i) xs ys" by blast
        have "entry_forwarded J show_io show_transport fs' (Server i) {} x x'"
          using spec x'(2) by (auto simp: entry_forwarded_def fs')
        moreover have "entries_forwarded J show_io show_transport fs' (Suc i) xs ys"
          by (rule entries_forwarded_mono[OF ys(2)]) (auto simp: fs')
        ultimately show "\<exists>ys. Option.bind (j_get J v' ''servers'') (j_as_array J) = Some (pre @ ys) \<and>
            entries_forwarded J show_io show_transport fs' i (x # xs) ys"
          using ys(1) True by (intro exI[of _ "x' # ys"]) simp
        show "j_get J v' k = j_get J v k" if "k \<noteq> ''servers''" for k
          using fin[OF ok] that get_set[OF v1] by simp
        show "length fs' = length specs" using fin[OF ok] by (simp add: fs' specs)
      qed
    qed
  qed
qed

text \<open>The whole config.\<close>

lemma apply_plugin_forwarders_total:
  assumes "extract_plugin_specs J show_io show_transport v = Ok specs"
  shows "\<exists>r. apply_plugin_forwarders J show_io os n v specs = Some r \<and>
    (\<forall>v' fs. r = Ok (v', fs) \<longrightarrow>
      entries_forwarded J show_io show_transport fs 0 (server_entries J v) (server_entries J v') \<and>
      (if has_plugin J v
       then entry_forwarded J show_io show_transport fs TopLevel {''servers''} v v'
       else \<forall>k. k \<noteq> ''servers'' \<longrightarrow> j_get J v' k = j_get J v k) \<and>
      length fs = length specs)"
proof -
  have servers: "\<exists>r. apply_plugin_forwarders J show_io os m w specs = Some r \<and>
    (\<forall>v' fs. r = Ok (v', fs) \<longrightarrow>
      entries_forwarded J show_io show_transport fs 0 (server_entries J w) (server_entries J v') \<and>
      (\<forall>k. k \<noteq> ''servers'' \<longrightarrow> j_get J v' k = j_get J w k) \<and> length fs = length specs)"
    if "extract_servers J show_io show_transport 0 (server_entries J w) = Ok specs" for m w specs
  proof (cases "Option.bind (j_get J w ''servers'') (j_as_array J)")
    case None
    with that show ?thesis by (simp add: server_entries_def)
  next
    case (Some xs)
    with that have "extract_servers J show_io show_transport 0 xs = Ok specs"
      by (simp add: server_entries_def)
    from apply_servers[OF this, of w "[]" os m] Some show ?thesis
      by (fastforce simp: server_entries_def)
  qed
  show ?thesis
  proof (cases "has_plugin J v")
    case False
    with assms have "extract_servers J show_io show_transport 0 (server_entries J v) = Ok specs"
      by (simp add: extract_plugin_specs_def has_plugin_def)
    from servers[OF this, of n] False show ?thesis by simp
  next
    case True
    with assms obtain spec rest where spec: "extract_one_spec J show_io show_transport v TopLevel = Ok spec"
      and rest: "extract_servers J show_io show_transport 0 (server_entries J v) = Ok rest"
      and specs: "specs = spec # rest"
      by (auto simp: extract_plugin_specs_def has_plugin_def and_then_Ok map_ok_Ok)
    show ?thesis
    proof (cases "start_forwarder (os_bind os n) (os_local_port os) (os_accepts os)")
      case (Inl e)
      then show ?thesis by (simp add: specs)
    next
      case (Inr res)
      obtain p acts where res: "res = (p, acts)" by (cases res)
      obtain v1 where v1: "redirect J p v = Some v1" "redirected J {} p v v1"
        using redirect_redirects[OF True] by blast
      have entries: "server_entries J v1 = server_entries J v"
        using v1(2) by (simp add: server_entries_def redirected_def)
      let ?f = "(spec_kind spec, spec_host spec, spec_port spec, p)"
      have step: "apply_plugin_forwarders J show_io os n v specs =
          map_option (map_ok (\<lambda>(v, fs). (v, ?f # fs))) (apply_plugin_forwarders J show_io os (Suc n) v1 rest)"
        using extract_one_site[OF spec] v1(1) by (simp add: specs Inr res)
      obtain r where r: "apply_plugin_forwarders J show_io os (Suc n) v1 rest = Some r"
        and fin: "\<And>v' fs. r = Ok (v', fs) \<Longrightarrow>
          entries_forwarded J show_io show_transport fs 0 (server_entries J v) (server_entries J v') \<and>
          (\<forall>k. k \<noteq> ''servers'' \<longrightarrow> j_get J v' k = j_get J v1 k) \<and> length fs = length rest"
        using servers[of v1 rest "Suc n"] rest entries by auto
      show ?thesis
      proof (intro exI[of _ "map_ok (\<lambda>(v, fs). (v, ?f # fs)) r"] conjI allI impI)
        show "apply_plugin_forwarders J show_io os n v specs = Some (map_ok (\<lambda>(v, fs). (v, ?f # fs)) r)"
          by (simp add: step r)
        fix v' fs'
        assume "map_ok (\<lambda>(v, fs). (v, ?f # fs)) r = Ok (v', fs')"
        then obtain fs where ok: "r = Ok (v', fs)" and fs': "fs' = ?f # fs" by (auto simp: map_ok_Ok)
        show "entries_forwarded J show_io show_transport fs' 0 (server_entries J v) (server_entries J v')"
          by (rule entries_forwarded_mono[OF fin[OF ok, THEN conjunct1]]) (auto simp: fs')
        have "redirected J {''servers''} p v v'"
          using v1(2) fin[OF ok] by (simp add: redirected_def)
        then show "if has_plugin J v
           then entry_forwarded J show_io show_transport fs' TopLevel {''servers''} v v'
           else \<forall>k. k \<noteq> ''servers'' \<longrightarrow> j_get J v' k = j_get J v k"
          using spec True by (auto simp: entry_forwarded_def fs')
        show "length fs' = length specs" using fin[OF ok] by (simp add: fs' specs)
      qed
    qed
  qed
qed

end

end
