(* ===== verification/Ffi.thy ===== *)
theory Ffi
  imports Ffi_Config
begin

text \<open>
  The entry points of \<open>src/native/sslocal-ffi/src/lib.rs\<close> as functions of the statics. The library
  functions they call outside the crate (\<open>serde_json\<close>, \<open>shadowsocks_service::config\<close>, the parser
  of \<open>SocketAddr\<close>, the texts of foreign errors) are the argument \<open>lib\<close>, what the operating system
  answers during one call is the argument \<open>os\<close>. An argument of type \<open>*const c_char\<close> is \<open>None\<close> for a
  null pointer, or the bytes before the NUL. A call is one step: the code holds the lock of
  \<open>INSTANCE\<close> from the check to the end. \<open>None\<close> as a result is a panic.
\<close>

section \<open>Arguments\<close>

record ('j, 'c, 'l, 'a, 'e) ffi_lib =
  lib_json :: "'j json_ops"
  lib_from_str :: "string \<Rightarrow> string + 'j"
  lib_to_string :: "'j \<Rightarrow> string"
  lib_load_config :: "string \<Rightarrow> string + 'c"
  lib_locals :: "'c \<Rightarrow> 'l list"
  lib_set_locals :: "'c \<Rightarrow> 'l list \<Rightarrow> 'c"
  lib_is_tun :: "'l \<Rightarrow> bool"
  lib_set_tun :: "'l \<Rightarrow> 'l"
  lib_set_tun_fd :: "'l \<Rightarrow> int \<Rightarrow> 'l"
  lib_tun_name :: "'l \<Rightarrow> string option"
  lib_set_tun_name :: "'l \<Rightarrow> string \<Rightarrow> 'l"
  lib_set_stat_addr :: "'c \<Rightarrow> 'a \<Rightarrow> 'c"
  lib_parse_addr :: "string \<Rightarrow> string + 'a"
  lib_show_io :: "io_error \<Rightarrow> string"
  lib_show_transport :: "'e \<Rightarrow> string"

text \<open>What an \<open>Instance\<close> keeps alive: the forwarders on its runtime and the core it runs.\<close>

record 'c runtime =
  rt_forwarders :: "forwarder list"
  rt_config :: 'c

definition cstr_arg :: "string option \<Rightarrow> string \<Rightarrow> failure + string" where
  "cstr_arg ptr what =
     (case ptr of
        None \<Rightarrow> Err (SSLOCAL_ERR_INVALID_ARG, what @ '' is null'')
      | Some text \<Rightarrow>
          (case from_utf8_error text of
             None \<Rightarrow> Ok text
           | Some e \<Rightarrow> Err (SSLOCAL_ERR_INVALID_ARG, what @ '' is not valid UTF-8: '' @ show_utf8_error e)))"

definition parse_config_json :: "('j, 'c, 'l, 'a, 'e) ffi_lib \<Rightarrow> string option \<Rightarrow> failure + 'j" where
  "parse_config_json lib config_json =
     and_then (cstr_arg config_json ''config_json'') (\<lambda>text.
       map_err (\<lambda>e. (SSLOCAL_ERR_BAD_CONFIG, ''invalid sslocal config: '' @ e)) (lib_from_str lib text))"

section \<open>Starting\<close>

definition report :: "failure \<Rightarrow> ('rt, 'a) ffi \<Rightarrow> int \<times> ('rt, 'a) ffi" where
  "report f s = (fst f, set_last_error (snd f) s)"

definition attach_stat_address :: "('j, 'c, 'l, 'a, 'e) ffi_lib \<Rightarrow> ('rt, 'a) ffi \<Rightarrow> 'c \<Rightarrow> 'c" where
  "attach_stat_address lib s config =
     (case STAT_ADDR s of Some addr \<Rightarrow> lib_set_stat_addr lib config addr | None \<Rightarrow> config)"

text \<open>
  \<open>prepare\<close> returns its result and the descriptors it has duplicated. A runtime that is not stored
  is dropped, and its forwarders with it.
\<close>

definition start_with_json ::
  "('j, 'c, 'l, 'a, 'e) ffi_lib \<Rightarrow> ('lis, 'con) os \<Rightarrow> ('c \<Rightarrow> (failure + 'c) \<times> int list) \<Rightarrow> 'j \<Rightarrow>
   ('c runtime, 'a) ffi \<Rightarrow> (int \<times> ('c runtime, 'a) ffi) option" where
  "start_with_json lib os prepare v s =
     (case extract_plugin_specs (lib_json lib) (lib_show_io lib) (lib_show_transport lib) v of
        Inl f \<Rightarrow> Some (report f s)
      | Inr specs \<Rightarrow>
          if \<not> Option.is_none (INSTANCE s)
          then Some (report (SSLOCAL_ERR_ALREADY_RUNNING, ''sslocal is already running'') s)
          else (case os_runtime os of
             Some e \<Rightarrow> Some (report (SSLOCAL_ERR_RUNTIME,
               ''failed to create tokio runtime: '' @ lib_show_io lib e) s)
           | None \<Rightarrow>
               (case apply_plugin_forwarders (lib_json lib) (lib_show_io lib) os 0 v specs of
                  None \<Rightarrow> None
                | Some (Inl f) \<Rightarrow> Some (report f s)
                | Some (Inr (v', forwarders)) \<Rightarrow>
                    (case lib_load_config lib (lib_to_string lib v') of
                       Inl e \<Rightarrow> Some (report (SSLOCAL_ERR_BAD_CONFIG, ''invalid sslocal config: '' @ e) s)
                     | Inr config \<Rightarrow>
                         (case prepare (attach_stat_address lib s config) of
                            (Inl f, fds) \<Rightarrow> Some (report f (s\<lparr>duped := duped s @ fds\<rparr>))
                          | (Inr config, fds) \<Rightarrow>
                              Some (SSLOCAL_OK,
                                s\<lparr>duped := duped s @ fds,
                                  INSTANCE := Some \<lparr>rt_forwarders = forwarders, rt_config = config\<rparr>\<rparr>))))))"

definition sslocal_start ::
  "('j, 'c, 'l, 'a, 'e) ffi_lib \<Rightarrow> ('lis, 'con) os \<Rightarrow> string option \<Rightarrow>
   ('c runtime, 'a) ffi \<Rightarrow> (int \<times> ('c runtime, 'a) ffi) option" where
  "sslocal_start lib os config_json s =
     (case parse_config_json lib config_json of
        Inr v \<Rightarrow> start_with_json lib os (\<lambda>config. (Ok config, [])) v s
      | Inl f \<Rightarrow> Some (report f s))"

section \<open>Starting on a tun descriptor\<close>

text \<open>\<open>format!("{}", n)\<close> of a \<open>c_int\<close>.\<close>

definition show_int :: "int \<Rightarrow> string" where
  "show_int n = (if n < 0 then CHR ''-'' # dec (nat (- n)) else dec (nat n))"

text \<open>\<open>os_tungetiff\<close> is the ioctl: the sixteen bytes of \<open>ifr_name\<close>, or \<open>None\<close> if it fails.\<close>

definition recover_tun_name :: "('lis, 'con) os \<Rightarrow> int \<Rightarrow> string option" where
  "recover_tun_name os fd =
     (case os_tungetiff os fd of
        None \<Rightarrow> None
      | Some ifr_name \<Rightarrow>
          (let name = takeWhile (\<lambda>c. c \<noteq> CHR 0x00) ifr_name
           in if from_utf8_error name = None \<and> name \<noteq> [] then Some name else None))"

definition tun_index :: "('j, 'c, 'l, 'a, 'e) ffi_lib \<Rightarrow> 'c \<Rightarrow> nat option" where
  "tun_index lib config =
     (case find (\<lambda>i. lib_is_tun lib (lib_locals lib config ! i)) [0..<length (lib_locals lib config)] of
        Some i \<Rightarrow> Some i
      | None \<Rightarrow> if length (lib_locals lib config) = 1 then Some 0 else None)"

definition attach_tun_fd ::
  "('j, 'c, 'l, 'a, 'e) ffi_lib \<Rightarrow> ('lis, 'con) os \<Rightarrow> int \<Rightarrow> 'c \<Rightarrow> (failure + 'c) \<times> int list" where
  "attach_tun_fd lib os tun_fd config =
     (case tun_index lib config of
        Some i \<Rightarrow>
          (let owned_fd = os_dup os tun_fd in
           if owned_fd < 0 then
             (Err (SSLOCAL_ERR_INVALID_ARG,
                ''failed to duplicate tun file descriptor '' @ show_int tun_fd @ '': '' @ os_dup_error os), [])
           else
             let l = lib_set_tun_fd lib (lib_set_tun lib (lib_locals lib config ! i)) owned_fd;
                 l = (if lib_tun_name lib l = None
                      then (case recover_tun_name os tun_fd of
                              Some name \<Rightarrow> lib_set_tun_name lib l name
                            | None \<Rightarrow> l)
                      else l)
             in (Ok (lib_set_locals lib config ((lib_locals lib config)[i := l])), [owned_fd]))
      | None \<Rightarrow>
          (Err (SSLOCAL_ERR_BAD_CONFIG,
             ''config must contain a local with '' @ dquoted ''protocol'' @ '': '' @ dquoted ''tun''), []))"

definition sslocal_start_tun_fd ::
  "('j, 'c, 'l, 'a, 'e) ffi_lib \<Rightarrow> ('lis, 'con) os \<Rightarrow> string option \<Rightarrow> int \<Rightarrow>
   ('c runtime, 'a) ffi \<Rightarrow> (int \<times> ('c runtime, 'a) ffi) option" where
  "sslocal_start_tun_fd lib os config_json tun_fd s =
     (if tun_fd < 0
      then Some (report (SSLOCAL_ERR_INVALID_ARG, ''invalid tun file descriptor: '' @ show_int tun_fd) s)
      else case parse_config_json lib config_json of
        Inl f \<Rightarrow> Some (report f s)
      | Inr v \<Rightarrow> start_with_json lib os (attach_tun_fd lib os tun_fd) v s)"

section \<open>The other entry points\<close>

definition sslocal_set_stat_address ::
  "('j, 'c, 'l, 'a, 'e) ffi_lib \<Rightarrow> string option \<Rightarrow> ('rt, 'a) ffi \<Rightarrow> int \<times> ('rt, 'a) ffi" where
  "sslocal_set_stat_address lib addr s =
     (if addr = None then (SSLOCAL_OK, s\<lparr>STAT_ADDR := None\<rparr>)
      else case cstr_arg addr ''stat address'' of
        Inl f \<Rightarrow> report f s
      | Inr text \<Rightarrow>
          if text = [] then (SSLOCAL_OK, s\<lparr>STAT_ADDR := None\<rparr>)
          else (case lib_parse_addr lib text of
             Inr socket_addr \<Rightarrow> (SSLOCAL_OK, s\<lparr>STAT_ADDR := Some socket_addr\<rparr>)
           | Inl e \<Rightarrow> report (SSLOCAL_ERR_INVALID_ARG,
               ''invalid stat address '' @ dquoted text @ '': '' @ e) s))"

definition sslocal_stop :: "('rt, 'a) ffi \<Rightarrow> int \<times> ('rt, 'a) ffi" where
  "sslocal_stop s =
     (case INSTANCE s of
        Some instance \<Rightarrow> (SSLOCAL_OK, s\<lparr>INSTANCE := None\<rparr>)
      | None \<Rightarrow> report (SSLOCAL_ERR_NOT_RUNNING, ''sslocal is not running'') s)"

definition sslocal_is_running :: "('rt, 'a) ffi \<Rightarrow> int" where
  "sslocal_is_running s = (if Option.is_none (INSTANCE s) then 0 else 1)"

text \<open>\<open>env!("CARGO_PKG_VERSION")\<close>, of \<open>Cargo.toml\<close>, and the terminating NUL.\<close>

definition sslocal_version :: string where
  "sslocal_version = ''0.1.0'' @ [CHR 0x00]"

text \<open>What the task of the core does when \<open>run_local\<close> returns an error.\<close>

definition core_failed :: "string \<Rightarrow> ('rt, 'a) ffi \<Rightarrow> ('rt, 'a) ffi" where
  "core_failed e s = set_last_error (''sslocal exited with error: '' @ e) s"

section \<open>Sequences of calls\<close>

datatype ('lis, 'con) ffi_call =
    Start "('lis, 'con) os" "string option"
  | Start_Tun_Fd "('lis, 'con) os" "string option" int
  | Set_Stat_Address "string option"
  | Stop
  | Is_Running
  | Last_Error
  | Core_Failed string

datatype reply = Code int | Pointer "nat option" | No_Reply

fun ffi_step ::
  "('j, 'c, 'l, 'a, 'e) ffi_lib \<Rightarrow> ('lis, 'con) ffi_call \<Rightarrow> ('c runtime, 'a) ffi \<Rightarrow>
   (reply \<times> ('c runtime, 'a) ffi) option" where
  "ffi_step lib (Start os config_json) s =
     map_option (\<lambda>(c, s). (Code c, s)) (sslocal_start lib os config_json s)"
| "ffi_step lib (Start_Tun_Fd os config_json tun_fd) s =
     map_option (\<lambda>(c, s). (Code c, s)) (sslocal_start_tun_fd lib os config_json tun_fd s)"
| "ffi_step lib (Set_Stat_Address addr) s =
     (case sslocal_set_stat_address lib addr s of (c, s) \<Rightarrow> Some (Code c, s))"
| "ffi_step lib Stop s = (case sslocal_stop s of (c, s) \<Rightarrow> Some (Code c, s))"
| "ffi_step lib Is_Running s = Some (Code (sslocal_is_running s), s)"
| "ffi_step lib Last_Error s = (case sslocal_last_error s of (p, s) \<Rightarrow> Some (Pointer p, s))"
| "ffi_step lib (Core_Failed e) s = Some (No_Reply, core_failed e s)"

fun ffi_run ::
  "('j, 'c, 'l, 'a, 'e) ffi_lib \<Rightarrow> ('lis, 'con) ffi_call list \<Rightarrow> ('c runtime, 'a) ffi \<Rightarrow>
   (reply list \<times> ('c runtime, 'a) ffi) option" where
  "ffi_run lib [] s = Some ([], s)"
| "ffi_run lib (call # calls) s =
     Option.bind (ffi_step lib call s) (\<lambda>(r, s).
       map_option (\<lambda>(rs, s). (r # rs, s)) (ffi_run lib calls s))"

section \<open>What a start comes to\<close>

text \<open>A start either fails, with a message and nothing else, or stores a new instance.\<close>

definition only_reports :: "('rt, 'a) ffi \<Rightarrow> int \<times> ('rt, 'a) ffi \<Rightarrow> bool" where
  "only_reports s res \<longleftrightarrow> fst res \<noteq> SSLOCAL_OK \<and> (\<exists>m. snd res = set_last_error m s)"

lemma only_reports_report: "fst f \<noteq> SSLOCAL_OK \<Longrightarrow> only_reports s (report f s)"
  by (auto simp: only_reports_def report_def)

lemma extract_one_spec_code:
  "extract_one_spec J show_io show_transport entry site = Err f \<Longrightarrow> fst f = SSLOCAL_ERR_BAD_CONFIG"
  by (auto simp: extract_one_spec_def Let_def and_then_def map_err_def split: option.splits sum.splits)

lemma extract_servers_code:
  "extract_servers J show_io show_transport i xs = Err f \<Longrightarrow> fst f = SSLOCAL_ERR_BAD_CONFIG"
  by (induction J show_io show_transport i xs rule: extract_servers.induct)
    (auto simp: and_then_def extract_one_spec_code split: if_splits sum.splits)

lemma extract_plugin_specs_code:
  "extract_plugin_specs J show_io show_transport v = Err f \<Longrightarrow> fst f = SSLOCAL_ERR_BAD_CONFIG"
  by (auto simp: extract_plugin_specs_def and_then_def map_ok_def
      dest: extract_one_spec_code extract_servers_code split: if_splits sum.splits)

lemma map_ok_Err: "map_ok f r = Err e \<longleftrightarrow> r = Err e"
  by (cases r) (auto simp: map_ok_def)

lemma apply_plugin_forwarders_code:
  "apply_plugin_forwarders J show_io os n v specs = Some (Err f) \<Longrightarrow> fst f = SSLOCAL_ERR_RUNTIME"
  by (induction J show_io os n v specs rule: apply_plugin_forwarders.induct)
    (auto simp: forwarder_failure_def map_ok_Err bind_eq_Some_conv split: sum.splits prod.splits)

lemma parse_config_json_code: "parse_config_json lib arg = Err f \<Longrightarrow> fst f \<noteq> SSLOCAL_OK"
  by (auto simp: parse_config_json_def cstr_arg_def and_then_def map_err_def ffi_codes
      split: option.splits sum.splits)

lemma attach_tun_fd_fails:
  "attach_tun_fd lib os fd config = (Err f, fds) \<Longrightarrow> fst f \<noteq> SSLOCAL_OK \<and> fds = []"
  by (auto simp: attach_tun_fd_def Let_def ffi_codes split: option.splits if_splits)

lemma start_with_jsonE:
  assumes "start_with_json lib os prepare v s = Some res"
    and "\<And>c f fds. prepare c = (Err f, fds) \<Longrightarrow> fst f \<noteq> SSLOCAL_OK \<and> fds = []"
  obtains (fails) "only_reports s res"
  | (runs) specs v' fs config config' fds where
      "extract_plugin_specs (lib_json lib) (lib_show_io lib) (lib_show_transport lib) v = Ok specs"
      "INSTANCE s = None"
      "apply_plugin_forwarders (lib_json lib) (lib_show_io lib) os 0 v specs = Some (Ok (v', fs))"
      "lib_load_config lib (lib_to_string lib v') = Ok config"
      "prepare (attach_stat_address lib s config) = (Ok config', fds)"
      "res = (SSLOCAL_OK, s\<lparr>duped := duped s @ fds,
         INSTANCE := Some \<lparr>rt_forwarders = fs, rt_config = config'\<rparr>\<rparr>)"
proof (cases "extract_plugin_specs (lib_json lib) (lib_show_io lib) (lib_show_transport lib) v")
  case (Inl f)
  with assms(1) extract_plugin_specs_code[OF Inl] show ?thesis
    by (intro fails) (auto simp: start_with_json_def ffi_codes intro!: only_reports_report)
next
  case specs: (Inr specs)
  note run = assms(1)[unfolded start_with_json_def specs sum.case]
  show ?thesis
  proof (cases "\<not> Option.is_none (INSTANCE s)")
    case True
    with run show ?thesis by (intro fails) (auto simp: ffi_codes intro!: only_reports_report)
  next
    case free: False
    show ?thesis
    proof (cases "os_runtime os")
      case (Some e)
      with run free show ?thesis by (intro fails) (auto simp: ffi_codes intro!: only_reports_report)
    next
      case None
      note run = run[unfolded if_not_P[OF free] None option.case]
      show ?thesis
      proof (cases "apply_plugin_forwarders (lib_json lib) (lib_show_io lib) os 0 v specs")
        case None
        with run show ?thesis by simp
      next
        case applied: (Some r)
        show ?thesis
        proof (cases r)
          case (Inl f)
          with run applied apply_plugin_forwarders_code[of "lib_json lib" "lib_show_io lib" os 0 v specs f]
          show ?thesis by (intro fails) (auto simp: ffi_codes intro!: only_reports_report)
        next
          case (Inr p)
          obtain v' fs where p: "p = (v', fs)" by (cases p)
          show ?thesis
          proof (cases "lib_load_config lib (lib_to_string lib v')")
            case loaded: (Inl e)
            with run applied Inr p show ?thesis
              by (intro fails) (auto simp: ffi_codes intro!: only_reports_report)
          next
            case loaded: (Inr config)
            obtain q fds where q: "prepare (attach_stat_address lib s config) = (q, fds)"
              by (cases "prepare (attach_stat_address lib s config)")
            show ?thesis
            proof (cases q)
              case (Inl f)
              with assms(2) q have "fst f \<noteq> SSLOCAL_OK" "fds = []" by auto
              with run applied Inr p loaded q Inl show ?thesis
                by (intro fails) (auto intro!: only_reports_report)
            next
              case prepared: (Inr config')
              with run applied Inr p loaded q specs free show ?thesis
                by (intro runs[of specs v' fs config config' fds]) (auto simp: Option.is_none_def)
            qed
          qed
        qed
      qed
    qed
  qed
qed

end
