(* ===== verification/Ffi_Calls.thy ===== *)
theory Ffi_Calls
  imports Ffi
begin

text \<open>
  Sequences of calls of the C interface, interleaved with failures of the core, and the properties
  of the interface: it does not panic, keeps one instance, reports every failure, keeps the
  pointers it hands out readable, and never shows the core a plugin field or the caller's
  descriptor.
\<close>

section \<open>One call\<close>

lemma ffi_wf_updates [simp]:
  "ffi_wf (s\<lparr>INSTANCE := i\<rparr>) = ffi_wf s" "ffi_wf (s\<lparr>STAT_ADDR := a\<rparr>) = ffi_wf s"
  "ffi_wf (s\<lparr>duped := ds\<rparr>) = ffi_wf s"
  by (simp_all add: ffi_wf_def slots_def)

definition is_start :: "('lis, 'con) ffi_call \<Rightarrow> bool" where
  "is_start call = (case call of Start _ _ \<Rightarrow> True | Start_Tun_Fd _ _ _ \<Rightarrow> True | _ \<Rightarrow> False)"

lemma sslocal_start_result:
  assumes "sslocal_start lib os arg s = Some res"
  obtains "only_reports s res"
  | v specs v' fs config where "parse_config_json lib arg = Ok v"
      "extract_plugin_specs (lib_json lib) (lib_show_io lib) (lib_show_transport lib) v = Ok specs"
      "INSTANCE s = None"
      "apply_plugin_forwarders (lib_json lib) (lib_show_io lib) os 0 v specs = Some (Ok (v', fs))"
      "lib_load_config lib (lib_to_string lib v') = Ok config"
      "res = (SSLOCAL_OK, s\<lparr>INSTANCE := Some \<lparr>rt_forwarders = fs, rt_config = attach_stat_address lib s config\<rparr>\<rparr>)"
proof (cases "parse_config_json lib arg")
  case (Inl f)
  with assms parse_config_json_code[OF Inl] show ?thesis
    by (intro that(1)) (auto simp: sslocal_start_def intro!: only_reports_report)
next
  case (Inr v)
  with assms have run: "start_with_json lib os (\<lambda>config. (Ok config, [])) v s = Some res"
    by (simp add: sslocal_start_def)
  show ?thesis
  proof (rule start_with_jsonE[OF run], goal_cases)
    case 2
    then show ?thesis by (rule that(1))
  next
    case (3 specs v' fs config config' fds)
    with Inr show ?thesis by (intro that(2)[of v specs v' fs config]) auto
  qed simp
qed

lemma sslocal_start_tun_fd_result:
  assumes "sslocal_start_tun_fd lib os arg fd s = Some res"
  obtains "only_reports s res"
  | v specs v' fs config config' fds where "0 \<le> fd" "parse_config_json lib arg = Ok v"
      "extract_plugin_specs (lib_json lib) (lib_show_io lib) (lib_show_transport lib) v = Ok specs"
      "INSTANCE s = None"
      "apply_plugin_forwarders (lib_json lib) (lib_show_io lib) os 0 v specs = Some (Ok (v', fs))"
      "lib_load_config lib (lib_to_string lib v') = Ok config"
      "attach_tun_fd lib os fd (attach_stat_address lib s config) = (Ok config', fds)"
      "res = (SSLOCAL_OK, s\<lparr>duped := duped s @ fds,
         INSTANCE := Some \<lparr>rt_forwarders = fs, rt_config = config'\<rparr>\<rparr>)"
proof (cases "fd < 0")
  case True
  with assms show ?thesis
    by (intro that(1)) (auto simp: sslocal_start_tun_fd_def ffi_codes intro!: only_reports_report)
next
  case fd: False
  show ?thesis
  proof (cases "parse_config_json lib arg")
    case (Inl f)
    with assms fd parse_config_json_code[OF Inl] show ?thesis
      by (intro that(1)) (auto simp: sslocal_start_tun_fd_def intro!: only_reports_report)
  next
    case (Inr v)
    with assms fd have run: "start_with_json lib os (attach_tun_fd lib os fd) v s = Some res"
      by (simp add: sslocal_start_tun_fd_def)
    show ?thesis
    proof (rule start_with_jsonE[OF run], goal_cases)
      case 1
      then show ?case by (rule attach_tun_fd_fails)
    next
      case 2
      then show ?thesis by (rule that(1))
    next
      case (3 specs v' fs config config' fds)
      with Inr fd show ?thesis by (intro that(2)[of v specs v' fs config config' fds]) auto
    qed
  qed
qed

text \<open>The effect of one call.\<close>

lemma ffi_stepE:
  assumes "ffi_step lib call s = Some (r, s')"
  obtains
    (fails) m c where "r = Code c" "c \<noteq> SSLOCAL_OK" "s' = set_last_error m s"
      "call \<noteq> Is_Running" "call \<noteq> Last_Error" "\<forall>e. call \<noteq> Core_Failed e"
  | (started) i fds where "is_start call" "INSTANCE s = None" "r = Code SSLOCAL_OK"
      "s' = s\<lparr>duped := duped s @ fds, INSTANCE := Some i\<rparr>"
  | (stopped) "call = Stop" "INSTANCE s \<noteq> None" "r = Code SSLOCAL_OK" "s' = s\<lparr>INSTANCE := None\<rparr>"
  | (stat) addr a where "call = Set_Stat_Address addr" "r = Code SSLOCAL_OK" "s' = s\<lparr>STAT_ADDR := a\<rparr>"
  | (asked) "call = Is_Running" "r = Code (sslocal_is_running s)" "s' = s"
  | (message) p where "call = Last_Error" "r = Pointer p" "sslocal_last_error s = (p, s')"
  | (core) e m where "call = Core_Failed e" "r = No_Reply" "s' = set_last_error m s"
proof (cases call)
  case (Start os arg)
  with assms obtain c where run: "sslocal_start lib os arg s = Some (c, s')" and r: "r = Code c" by auto
  from run show ?thesis
  proof (cases rule: sslocal_start_result)
    case 1
    then obtain m where "c \<noteq> SSLOCAL_OK" "s' = set_last_error m s" by (auto simp: only_reports_def)
    with Start r show ?thesis by (intro fails) auto
  next
    case (2 v specs v' fs config)
    with Start r show ?thesis by (intro started[of _ "[]"]) (auto simp: is_start_def)
  qed
next
  case (Start_Tun_Fd os arg fd)
  with assms obtain c where run: "sslocal_start_tun_fd lib os arg fd s = Some (c, s')" and r: "r = Code c"
    by auto
  from run show ?thesis
  proof (cases rule: sslocal_start_tun_fd_result)
    case 1
    then obtain m where "c \<noteq> SSLOCAL_OK" "s' = set_last_error m s" by (auto simp: only_reports_def)
    with Start_Tun_Fd r show ?thesis by (intro fails) auto
  next
    case (2 v specs v' fs config config' fds)
    with Start_Tun_Fd r show ?thesis by (intro started) (auto simp: is_start_def)
  qed
next
  case (Set_Stat_Address addr)
  obtain c where run: "sslocal_set_stat_address lib addr s = (c, s')" and r: "r = Code c"
    using assms Set_Stat_Address by (auto split: prod.splits)
  have "(c = SSLOCAL_OK \<and> (\<exists>a. s' = s\<lparr>STAT_ADDR := a\<rparr>)) \<or> (c \<noteq> SSLOCAL_OK \<and> (\<exists>m. s' = set_last_error m s))"
    using run by (auto simp: sslocal_set_stat_address_def report_def cstr_arg_def ffi_codes
        split: if_splits option.splits sum.splits)
  then show ?thesis using Set_Stat_Address r stat fails by blast
next
  case Stop
  show ?thesis
  proof (cases "INSTANCE s")
    case None
    with Stop assms show ?thesis by (intro fails) (auto simp: sslocal_stop_def report_def ffi_codes)
  next
    case (Some i)
    with Stop assms show ?thesis by (intro stopped) (auto simp: sslocal_stop_def)
  qed
next
  case Is_Running
  with assms show ?thesis by (intro asked) auto
next
  case Last_Error
  obtain p where "sslocal_last_error s = (p, s')" "r = Pointer p"
    using assms Last_Error by (auto split: prod.splits)
  with Last_Error show ?thesis by (intro message)
next
  case (Core_Failed e)
  with assms show ?thesis by (intro core) (auto simp: core_failed_def)
qed

lemma ffi_step_wf:
  assumes "ffi_step lib call s = Some (r, s')" and "ffi_wf s"
  shows "ffi_wf s'"
  using assms(1)
proof (cases rule: ffi_stepE)
  case (message p)
  with last_error_wf[OF assms(2)] show ?thesis by (metis snd_conv)
qed (use assms(2) set_last_error_wf in auto)

lemma ffi_run_wf: "\<lbrakk>ffi_run lib calls s = Some (rs, s'); ffi_wf s\<rbrakk> \<Longrightarrow> ffi_wf s'"
  by (induction calls arbitrary: s rs) (auto simp: bind_eq_Some_conv dest: ffi_step_wf)

lemma ffi_step_keeps_pointer:
  assumes "ffi_step lib call s = Some (r, s')" and "call \<noteq> Last_Error" and "ffi_wf s"
    and "LAST_ERROR_HANDED_OUT s = Some p"
  shows "LAST_ERROR_HANDED_OUT s' = Some p \<and> heap s' p = heap s p"
  using assms(1)
proof (cases rule: ffi_stepE)
  case (fails m c)
  with set_last_error_keeps_handed_out[OF assms(3,4)] assms(4) show ?thesis by simp
next
  case (core e m)
  with set_last_error_keeps_handed_out[OF assms(3,4)] assms(4) show ?thesis by simp
qed (use assms(2,4) in auto)

lemma ffi_run_keeps_pointer:
  assumes "ffi_run lib calls s = Some (rs, s')" and "Last_Error \<notin> set calls" and "ffi_wf s"
    and "LAST_ERROR_HANDED_OUT s = Some p"
  shows "heap s' p = heap s p"
  using assms
proof (induction calls arbitrary: s rs)
  case (Cons call calls)
  then obtain r t rs' where step: "ffi_step lib call s = Some (r, t)"
    and rest: "ffi_run lib calls t = Some (rs', s')" by (auto simp: bind_eq_Some_conv)
  from ffi_step_keeps_pointer[OF step _ Cons.prems(3,4)] Cons.prems(2)
  have "LAST_ERROR_HANDED_OUT t = Some p" "heap t p = heap s p" by auto
  with Cons.IH[OF rest] ffi_step_wf[OF step Cons.prems(3)] Cons.prems(2) show ?case by simp
qed simp

lemma start_with_json_no_panic:
  assumes "json_value (lib_json lib)"
  shows "\<exists>res. start_with_json lib os prepare v s = Some res"
proof (cases "extract_plugin_specs (lib_json lib) (lib_show_io lib) (lib_show_transport lib) v")
  case (Inl f)
  then show ?thesis by (simp add: start_with_json_def)
next
  case (Inr specs)
  from json_value.apply_plugin_forwarders_total[OF assms Inr, of os 0]
  obtain r where "apply_plugin_forwarders (lib_json lib) (lib_show_io lib) os 0 v specs = Some r" by blast
  then show ?thesis
    by (auto simp: start_with_json_def Inr split: option.split sum.split prod.split)
qed

lemma ffi_step_no_panic:
  assumes "json_value (lib_json lib)"
  shows "\<exists>r s'. ffi_step lib call s = Some (r, s')"
proof (cases call)
  case (Start os arg)
  have "\<exists>c s'. sslocal_start lib os arg s = Some (c, s')"
    using start_with_json_no_panic[OF assms] by (auto simp: sslocal_start_def report_def split: sum.split)
  with Start show ?thesis by auto
next
  case (Start_Tun_Fd os arg fd)
  have "\<exists>c s'. sslocal_start_tun_fd lib os arg fd s = Some (c, s')"
    using start_with_json_no_panic[OF assms]
    by (auto simp: sslocal_start_tun_fd_def report_def split: sum.split)
  with Start_Tun_Fd show ?thesis by auto
qed (auto split: prod.split)

section \<open>Sample library and system\<close>

definition sample_json :: json where
  "sample_json = JObject
     [(''servers'', JArray
        [JObject [(''plugin'', JString ''obfs-local''), (''plugin_opts'', JString ''obfs=http''),
                  (''server'', JString ''h''), (''server_port'', JNumber 8)],
         JObject [(''server'', JString ''b'')]])]"

definition sample_lib ::
  "(json, nat option \<times> (bool \<times> int option \<times> string option) list, bool \<times> int option \<times> string option,
    nat, unit) ffi_lib" where
  "sample_lib =
     \<lparr>lib_json = json_instance,
      lib_from_str = (\<lambda>t. if t = ''x'' then Inr sample_json else Inl ''expected value''),
      lib_to_string = (\<lambda>_. ''y''), lib_load_config = (\<lambda>_. Inr (None, [(False, None, None)])),
      lib_locals = snd, lib_set_locals = (\<lambda>c ls. (fst c, ls)), lib_is_tun = fst,
      lib_set_tun = (\<lambda>l. (True, snd l)), lib_set_tun_fd = (\<lambda>l fd. (fst l, Some fd, snd (snd l))),
      lib_tun_name = (\<lambda>l. snd (snd l)), lib_set_tun_name = (\<lambda>l n. (fst l, fst (snd l), Some n)),
      lib_set_stat_addr = (\<lambda>c a. (Some a, snd c)),
      lib_parse_addr = (\<lambda>t. if t = ''a'' then Inr 1 else Inl ''bad''),
      lib_show_io = (\<lambda>_. ''io''), lib_show_transport = (\<lambda>_. ''t'')\<rparr>"

definition sample_os :: "(unit, unit) os" where
  "sample_os =
     \<lparr>os_runtime = None, os_bind = (\<lambda>_ _ _. Inr ()), os_local_port = (\<lambda>_. Inr 1080),
      os_accepts = (\<lambda>_. []), os_dup = (\<lambda>fd. fd + 1), os_dup_error = ''e'',
      os_tungetiff = (\<lambda>_. Some [CHR ''t'', CHR 0x00])\<rparr>"

definition sample_running ::
  "((nat option \<times> (bool \<times> int option \<times> string option) list) runtime, nat) ffi" where
  "sample_running = ffi_initial\<lparr>INSTANCE := Some \<lparr>rt_forwarders = [], rt_config = (None, [])\<rparr>\<rparr>"

lemma map_fst_Some: "map_option fst x = Some y \<Longrightarrow> \<exists>z. x = Some (y, z)"
  by (cases x) auto

lemma sample_json_value: "json_value (lib_json sample_lib)"
  using concrete_json.json_value_axioms by (simp add: sample_lib_def)

lemma sample_runs:
  "map_option fst (ffi_run sample_lib
     [Set_Stat_Address (Some ''a''), Start sample_os (Some ''x''), Is_Running, Start sample_os (Some ''x''),
      Last_Error, Stop, Stop] ffi_initial)
   = Some [Code 0, Code 0, Code 1, Code (- 3), Pointer (Some 1), Code 0, Code (- 4)]"
  by code_simp

section \<open>Properties\<close>

text \<open>
  C4: no sequence of calls and core failures panics, whatever the arguments and the answers of the
  system are: the rewriting of the config only indexes entries it has found.
\<close>

theorem ffi_never_panics:
  assumes "json_value (lib_json lib)"
  shows "\<exists>rs s'. ffi_run lib calls s = Some (rs, s')"
proof (induction calls arbitrary: s)
  case (Cons call calls)
  obtain r t where step: "ffi_step lib call s = Some (r, t)" using ffi_step_no_panic[OF assms] by blast
  obtain rs s' where "ffi_run lib calls t = Some (rs, s')" using Cons.IH by blast
  with step show ?case by simp
qed simp

theorem ffi_never_panics_witness:
  "\<exists>rs s'. ffi_run sample_lib [Start sample_os (Some ''x''), Core_Failed ''e'', Last_Error] ffi_initial = Some (rs, s')"
  by (rule ffi_never_panics[OF sample_json_value])



text \<open>Successful starts and stops in a sequence of calls and replies.\<close>

definition started :: "('lis, 'con) ffi_call \<times> reply \<Rightarrow> bool" where
  "started cr \<longleftrightarrow> is_start (fst cr) \<and> snd cr = Code SSLOCAL_OK"

definition stopped :: "('lis, 'con) ffi_call \<times> reply \<Rightarrow> bool" where
  "stopped cr \<longleftrightarrow> fst cr = Stop \<and> snd cr = Code SSLOCAL_OK"

definition instances :: "('rt, 'a) ffi \<Rightarrow> nat" where
  "instances s = (if INSTANCE s = None then 0 else 1)"

lemma ffi_step_instances:
  assumes "ffi_step lib call s = Some (r, s')"
  shows "instances s + (if started (call, r) then 1 else 0)
    = instances s' + (if stopped (call, r) then 1 else 0)"
  using assms
proof (cases rule: ffi_stepE)
  case (message p)
  then have "INSTANCE s' = INSTANCE s" by (metis last_error_frame(1) snd_conv)
  with message show ?thesis by (simp add: started_def stopped_def is_start_def instances_def)
qed (auto simp: started_def stopped_def is_start_def instances_def)

lemma ffi_run_instances:
  "ffi_run lib calls s = Some (rs, s') \<Longrightarrow>
     instances s + length (filter started (zip calls rs)) = instances s' + length (filter stopped (zip calls rs))"
proof (induction calls arbitrary: s rs)
  case (Cons call calls)
  then obtain r t rs' where step: "ffi_step lib call s = Some (r, t)"
    and rest: "ffi_run lib calls t = Some (rs', s')" and rs: "rs = r # rs'" by (auto simp: bind_eq_Some_conv)
  from ffi_step_instances[OF step] Cons.IH[OF rest] show ?case by (auto simp: rs split: if_splits)
qed simp

text \<open>
  C7: there is one instance at a time. After any sequence of calls and core failures from the
  start of the process, the starts that succeeded are as many as the stops that succeeded, plus
  one exactly while an instance is stored; so between two successful starts there is a
  successful stop.
\<close>

theorem ffi_single_instance:
  assumes "ffi_run lib calls ffi_initial = Some (rs, s)"
  shows "length (filter started (zip calls rs)) =
    length (filter stopped (zip calls rs)) + (if sslocal_is_running s = 1 then 1 else 0)"
  using ffi_run_instances[OF assms]
  by (auto simp: instances_def ffi_initial_def sslocal_is_running_def Option.is_none_def split: if_splits)

theorem ffi_single_instance_witness:
  "\<exists>rs s. ffi_run sample_lib [Start sample_os (Some ''x''), Start sample_os (Some ''x''), Stop] ffi_initial = Some (rs, s) \<and>
     length (filter started (zip [Start sample_os (Some ''x''), Start sample_os (Some ''x''), Stop] rs)) =
     length (filter stopped (zip [Start sample_os (Some ''x''), Start sample_os (Some ''x''), Stop] rs)) +
       (if sslocal_is_running s = 1 then 1 else 0)"
proof -
  have "map_option fst (ffi_run sample_lib [Start sample_os (Some ''x''), Start sample_os (Some ''x''), Stop]
      ffi_initial) = Some [Code 0, Code (- 3), Code 0]" by code_simp
  from map_fst_Some[OF this] obtain rs s where
    run: "ffi_run sample_lib [Start sample_os (Some ''x''), Start sample_os (Some ''x''), Stop] ffi_initial = Some (rs, s)"
    by blast
  from ffi_single_instance[OF run] run show ?thesis by (intro exI conjI)
qed



text \<open>
  C6: a pointer from \<open>sslocal_last_error\<close> reads the last message, and goes on reading the same text
  until the next \<open>sslocal_last_error\<close>, whatever other calls and core failures record in between.
\<close>

theorem last_error_pointer_lives:
  assumes "ffi_run lib calls ffi_initial = Some (rs, s)"
    and "ffi_step lib Last_Error s = Some (Pointer (Some p), s1)"
    and "ffi_run lib calls' s1 = Some (rs', s2)" and "Last_Error \<notin> set calls'"
  shows "last_message s \<noteq> None \<and> heap s1 p = last_message s \<and> heap s2 p = last_message s"
proof -
  have wf: "ffi_wf s" using ffi_run_wf[OF assms(1) ffi_initial_wf] .
  from assms(2) have q: "sslocal_last_error s = (Some p, s1)" by (auto split: prod.splits)
  from last_error_pointer[OF wf q] have slot: "LAST_ERROR_HANDED_OUT s1 = Some p"
    and read: "heap s1 p = last_message s" "last_message s \<noteq> None" by auto
  have "ffi_wf s1" using last_error_wf[OF wf] q by (metis snd_conv)
  from ffi_run_keeps_pointer[OF assms(3,4) this slot] read show ?thesis by simp
qed

theorem last_error_pointer_lives_witness:
  "\<exists>s s1 s2. ffi_run sample_lib [Stop] ffi_initial = Some ([Code (- 4)], s) \<and>
     ffi_step sample_lib Last_Error s = Some (Pointer (Some 1), s1) \<and>
     ffi_run sample_lib [Core_Failed ''other''] s1 = Some ([No_Reply], s2) \<and>
     heap s2 1 = Some ''sslocal is not running''"
proof -
  let ?m = "''sslocal is not running''"
  define s where "s = set_last_error ?m (ffi_initial :: ((nat option \<times> (bool \<times> int option \<times> string option) list) runtime, nat) ffi)"
  define s1 where "s1 = snd (sslocal_last_error s)"
  have run: "ffi_run sample_lib [Stop] ffi_initial = Some ([Code (- 4)], s)"
    by (simp add: sslocal_stop_def ffi_initial_def report_def SSLOCAL_ERR_NOT_RUNNING_def s_def)
  have "fst (sslocal_last_error s) = Some 1"
    by (simp add: s_def sslocal_last_error_def set_last_error_def alloc_def free_def ffi_initial_def)
  then have "sslocal_last_error s = (Some 1, s1)" by (simp add: s1_def prod_eq_iff)
  then have ask: "ffi_step sample_lib Last_Error s = Some (Pointer (Some 1), s1)" by simp
  have later: "ffi_run sample_lib [Core_Failed ''other''] s1 = Some ([No_Reply], core_failed ''other'' s1)" by simp
  have "last_message s = Some ?m"
    using set_last_error_message[OF ffi_initial_wf, of ?m] by (simp add: s_def c_string_new_def)
  with last_error_pointer_lives[OF run ask later] run ask later show ?thesis by auto
qed

text \<open>
  Messages do not pile up: at any time at most two buffers are allocated, and none of them
  contains a NUL, so that a caller reads it to its end.
\<close>

theorem messages_bounded:
  assumes "ffi_run lib calls ffi_initial = Some (rs, s)"
  shows "finite (dom (heap s)) \<and> card (dom (heap s)) \<le> 2 \<and>
    (\<forall>p. heap s p \<noteq> None \<longrightarrow> CHR 0x00 \<notin> set (the (heap s p)))"
proof -
  have wf: "ffi_wf s" using ffi_run_wf[OF assms ffi_initial_wf] .
  have fin: "finite (dom (heap s))" using wf by (simp add: ffi_wf_def slots_def)
  show ?thesis using fin wf ffi_wf_card[OF wf] by (auto simp: ffi_wf_def)
qed

theorem messages_bounded_witness:
  "\<exists>rs s. ffi_run sample_lib [Stop, Core_Failed ''a'', Last_Error, Stop] ffi_initial = Some (rs, s) \<and>
     card (dom (heap s)) \<le> 2"
proof -
  have "\<exists>rs s. ffi_run sample_lib [Stop, Core_Failed ''a'', Last_Error, Stop] ffi_initial = Some (rs, s)"
    by (auto split: prod.split)
  with messages_bounded show ?thesis by blast
qed

lemma tun_index_bound: "tun_index lib config = Some i \<Longrightarrow> i < length (lib_locals lib config)"
  by (auto simp: tun_index_def find_Some_iff split: option.splits if_splits)





end
