(* ===== verification/Ffi_Builds.thy ===== *)
theory Ffi_Builds
  imports Ffi_Calls
begin

text \<open>
  The builds of \<open>src/native/sslocal-ffi/src/lib.rs\<close>: the cargo features \<open>local-tun\<close> and
  \<open>local-flow-stat\<close>, and the operating system, decide which code an entry point consists of. The
  definitions of \<open>Ffi\<close> are those of the build that ships, with both features and on Linux; here
  every entry point is given by the build, and the theorems say what the other builds do.

  A build without \<open>local-flow-stat\<close> has no static \<open>STAT_ADDR\<close> and no call of
  \<open>attach_stat_address\<close>. Here the field stays \<open>None\<close> in such a build, which is shown below.
\<close>

record build =
  local_tun :: bool
  local_flow_stat :: bool
  target_linux :: bool

text \<open>The features of \<open>Cargo.toml\<close> that are on by default.\<close>

definition default_build :: build where
  "default_build = \<lparr>local_tun = True, local_flow_stat = True, target_linux = True\<rparr>"

section \<open>The entry points of a build\<close>

definition missing_feature :: "string \<Rightarrow> failure" where
  "missing_feature feature =
     (SSLOCAL_ERR_RUNTIME, ''sslocal-ffi was built without the '' @ feature @ '' feature'')"

text \<open>\<open>recover_tun_name\<close> outside Linux, and the system as a build sees it.\<close>

definition recover_tun_name_elsewhere :: "int \<Rightarrow> string option" where
  "recover_tun_name_elsewhere fd = None"

definition build_os :: "build \<Rightarrow> ('lis, 'con) os \<Rightarrow> ('lis, 'con) os" where
  "build_os b os = (if target_linux b then os else os\<lparr>os_tungetiff := recover_tun_name_elsewhere\<rparr>)"

definition build_start_tun_fd ::
  "build \<Rightarrow> ('j, 'c, 'l, 'a, 'e) ffi_lib \<Rightarrow> ('lis, 'con) os \<Rightarrow> string option \<Rightarrow> int \<Rightarrow>
   ('c runtime, 'a) ffi \<Rightarrow> (int \<times> ('c runtime, 'a) ffi) option" where
  "build_start_tun_fd b lib os config_json tun_fd s =
     (if local_tun b then sslocal_start_tun_fd lib (build_os b os) config_json tun_fd s
      else Some (report (missing_feature ''local-tun'') s))"

definition build_set_stat_address ::
  "build \<Rightarrow> ('j, 'c, 'l, 'a, 'e) ffi_lib \<Rightarrow> string option \<Rightarrow> ('rt, 'a) ffi \<Rightarrow> int \<times> ('rt, 'a) ffi" where
  "build_set_stat_address b lib addr s =
     (if local_flow_stat b then sslocal_set_stat_address lib addr s
      else report (missing_feature ''local-flow-stat'') s)"

definition build_step ::
  "build \<Rightarrow> ('j, 'c, 'l, 'a, 'e) ffi_lib \<Rightarrow> ('lis, 'con) ffi_call \<Rightarrow> ('c runtime, 'a) ffi \<Rightarrow>
   (reply \<times> ('c runtime, 'a) ffi) option" where
  "build_step b lib call s =
     (case call of
        Start_Tun_Fd os config_json tun_fd \<Rightarrow>
          map_option (\<lambda>(c, s). (Code c, s)) (build_start_tun_fd b lib os config_json tun_fd s)
      | Set_Stat_Address addr \<Rightarrow> (case build_set_stat_address b lib addr s of (c, s) \<Rightarrow> Some (Code c, s))
      | _ \<Rightarrow> ffi_step lib call s)"

fun build_run ::
  "build \<Rightarrow> ('j, 'c, 'l, 'a, 'e) ffi_lib \<Rightarrow> ('lis, 'con) ffi_call list \<Rightarrow> ('c runtime, 'a) ffi \<Rightarrow>
   (reply list \<times> ('c runtime, 'a) ffi) option" where
  "build_run b lib [] s = Some ([], s)"
| "build_run b lib (call # calls) s =
     Option.bind (build_step b lib call s) (\<lambda>(r, s).
       map_option (\<lambda>(rs, s). (r # rs, s)) (build_run b lib calls s))"

section \<open>What the builds have in common\<close>

lemma default_step: "build_step default_build lib call s = ffi_step lib call s"
  by (cases call)
    (simp_all add: build_step_def build_start_tun_fd_def build_set_stat_address_def build_os_def
      default_build_def)

lemma default_run: "build_run default_build lib calls s = ffi_run lib calls s"
  by (induction calls arbitrary: s) (simp_all add: default_step)

text \<open>
  A call of any build is a call of the shipped one on a system of the build, or it reports a
  missing feature.
\<close>

lemma build_stepE:
  fixes call :: "('lis, 'con) ffi_call"
  assumes "build_step b lib call s = Some (r, s')"
  obtains (same) call' :: "('lis, 'con) ffi_call" where "ffi_step lib call' s = Some (r, s')"
      "is_start call' = is_start call" "call' = Last_Error \<longleftrightarrow> call = Last_Error"
      "(\<exists>addr. call' = Set_Stat_Address addr) \<longrightarrow> local_flow_stat b"
      "(\<exists>os arg fd. call' = Start_Tun_Fd os arg fd) \<longrightarrow> local_tun b"
  | (missing) feature where "r = Code SSLOCAL_ERR_RUNTIME" "s' = set_last_error (snd (missing_feature feature)) s"
      "call \<noteq> Last_Error"
      "(\<exists>addr. call = Set_Stat_Address addr) \<and> feature = ''local-flow-stat'' \<and> \<not> local_flow_stat b \<or>
       (\<exists>os arg fd. call = Start_Tun_Fd os arg fd) \<and> feature = ''local-tun'' \<and> \<not> local_tun b"
proof -
  have other: thesis if "build_step b lib call s = ffi_step lib call s"
    "\<forall>os arg fd. call \<noteq> Start_Tun_Fd os arg fd" "\<forall>addr. call \<noteq> Set_Stat_Address addr"
    by (rule same[of call]) (use assms that in auto)
  show ?thesis
  proof (cases call)
    case (Start_Tun_Fd os arg fd)
    show ?thesis
    proof (cases "local_tun b")
      case True
      with assms Start_Tun_Fd have "ffi_step lib (Start_Tun_Fd (build_os b os) arg fd) s = Some (r, s')"
        by (simp add: build_step_def build_start_tun_fd_def)
      with True Start_Tun_Fd show ?thesis
        by (intro same[of "Start_Tun_Fd (build_os b os) arg fd"]) (auto simp: is_start_def)
    next
      case False
      with assms Start_Tun_Fd show ?thesis
        by (intro missing) (auto simp: build_step_def build_start_tun_fd_def report_def missing_feature_def)
    qed
  next
    case (Set_Stat_Address addr)
    show ?thesis
    proof (cases "local_flow_stat b")
      case True
      with assms Set_Stat_Address have "ffi_step lib (Set_Stat_Address addr) s = Some (r, s')"
        by (simp add: build_step_def build_set_stat_address_def)
      with True Set_Stat_Address show ?thesis by (intro same[of "Set_Stat_Address addr"]) auto
    next
      case False
      with assms Set_Stat_Address show ?thesis
        by (intro missing) (auto simp: build_step_def build_set_stat_address_def report_def missing_feature_def)
    qed
  qed (rule other; simp add: build_step_def)+
qed

lemma build_step_wf:
  assumes "build_step b lib call s = Some (r, s')" and "ffi_wf s"
  shows "ffi_wf s'"
  using assms(1)
proof (cases rule: build_stepE)
  case (same call')
  with ffi_step_wf assms(2) show ?thesis by blast
next
  case (missing feature)
  with set_last_error_wf[OF assms(2)] show ?thesis by simp
qed

lemma build_step_no_panic:
  assumes "json_value (lib_json lib)"
  shows "\<exists>r s'. build_step b lib call s = Some (r, s')"
proof (cases call)
  case (Start_Tun_Fd os arg fd)
  obtain r s' where "ffi_step lib (Start_Tun_Fd (build_os b os) arg fd) s = Some (r, s')"
    using ffi_step_no_panic[OF assms] by blast
  with Start_Tun_Fd show ?thesis
    by (auto simp: build_step_def build_start_tun_fd_def report_def)
next
  case (Set_Stat_Address addr)
  then show ?thesis by (auto simp: build_step_def split: prod.split)
qed (use ffi_step_no_panic[OF assms, of call s] in \<open>auto simp: build_step_def split: prod.split\<close>)

text \<open>Without \<open>local-flow-stat\<close> no address is ever stored, and no config is given one.\<close>

lemma no_stat_address:
  assumes "\<not> local_flow_stat b" and "build_step b lib call s = Some (r, s')" and "STAT_ADDR s = None"
  shows "STAT_ADDR s' = None"
  using assms(2)
proof (cases rule: build_stepE)
  case (same call')
  from same(1) show ?thesis
  proof (cases rule: ffi_stepE)
    case (message p)
    then show ?thesis using assms(3) last_error_frame(3)[of s] by simp
  qed (use assms(1,3) same in auto)
next
  case (missing feature)
  with assms(3) show ?thesis by simp
qed

text \<open>Without \<open>local-tun\<close> no descriptor is ever duplicated.\<close>

lemma no_duplicates:
  assumes "\<not> local_tun b" and "build_step b lib call s = Some (r, s')"
  shows "duped s' = duped s"
  using assms(2)
proof (cases rule: build_stepE)
  case (same call')
  show ?thesis
  proof (cases "is_start call'")
    case True
    with same(5) assms(1) obtain os arg where "call' = Start os arg"
      by (cases call') (auto simp: is_start_def)
    with same(1) obtain c where "sslocal_start lib os arg s = Some (c, s')" by auto
    then show ?thesis by (cases rule: sslocal_start_result) (auto simp: only_reports_def)
  next
    case False
    from same(1) show ?thesis
    proof (cases rule: ffi_stepE)
      case (message p)
      then show ?thesis using last_error_frame(4)[of s] by simp
    qed (use False in auto)
  qed
next
  case (missing feature)
  then show ?thesis by simp
qed

section \<open>Properties\<close>

text \<open>
  A build without a feature refuses the entry point that needs it, whatever its arguments are, a
  null pointer or a negative descriptor included: the call returns \<open>SSLOCAL_ERR_RUNTIME\<close> and
  leaves a message that names the feature, and nothing else.
\<close>

theorem missing_feature_refuses:
  assumes "ffi_wf s"
  shows "(\<not> local_tun b \<longrightarrow>
      (\<exists>s'. build_start_tun_fd b lib os config_json tun_fd s = Some (SSLOCAL_ERR_RUNTIME, s') \<and>
         s' = set_last_error (snd (missing_feature ''local-tun'')) s \<and>
         last_message s' = Some ''sslocal-ffi was built without the local-tun feature'')) \<and>
    (\<not> local_flow_stat b \<longrightarrow>
      (\<exists>s'. build_set_stat_address b lib addr s = (SSLOCAL_ERR_RUNTIME, s') \<and>
         s' = set_last_error (snd (missing_feature ''local-flow-stat'')) s \<and>
         last_message s' = Some ''sslocal-ffi was built without the local-flow-stat feature''))"
  by (simp add: build_start_tun_fd_def build_set_stat_address_def report_def missing_feature_def
      set_last_error_message[OF assms] c_string_new_def)

theorem missing_feature_refuses_witness:
  "\<exists>s'. build_set_stat_address \<lparr>local_tun = True, local_flow_stat = False, target_linux = True\<rparr>
      sample_lib None sample_running = (SSLOCAL_ERR_RUNTIME, s') \<and>
    last_message s' = Some ''sslocal-ffi was built without the local-flow-stat feature''"
proof -
  have "ffi_wf sample_running" unfolding sample_running_def ffi_wf_updates by (rule ffi_initial_wf)
  from missing_feature_refuses[OF this, THEN conjunct2,
      of "\<lparr>local_tun = True, local_flow_stat = False, target_linux = True\<rparr>" sample_lib None]
  show ?thesis by auto
qed

text \<open>
  C5: every build is safe in the way the shipped one is: no sequence of calls panics, at most two
  messages are allocated at any time, a build without \<open>local-flow-stat\<close> never tells a core to report anywhere, a
  build without \<open>local-tun\<close> never duplicates a descriptor; and the build with both features on Linux
  is the one all other theorems speak of.
\<close>

theorem builds_safe:
  assumes "json_value (lib_json lib)"
  shows "\<exists>rs s. build_run b lib calls ffi_initial = Some (rs, s) \<and>
    card (dom (heap s)) \<le> 2 \<and>
    (\<not> local_flow_stat b \<longrightarrow> (\<forall>config. attach_stat_address lib s config = config)) \<and>
    (\<not> local_tun b \<longrightarrow> duped s = []) \<and>
    (b = default_build \<longrightarrow> ffi_run lib calls ffi_initial = Some (rs, s))"
proof -
  have run: "\<exists>rs s'. build_run b lib calls s = Some (rs, s') \<and> (ffi_wf s \<longrightarrow> ffi_wf s') \<and>
      (\<not> local_flow_stat b \<longrightarrow> STAT_ADDR s = None \<longrightarrow> STAT_ADDR s' = None) \<and>
      (\<not> local_tun b \<longrightarrow> duped s' = duped s)" for calls and s :: "('b runtime, 'd) ffi"
  proof (induction calls arbitrary: s)
    case (Cons call calls)
    obtain r t where step: "build_step b lib call s = Some (r, t)"
      using build_step_no_panic[OF assms] by blast
    from Cons.IH[of t] build_step_wf[OF step] no_stat_address[OF _ step] no_duplicates[OF _ step]
    show ?case by (auto simp: step)
  qed simp
  obtain rs s where fin: "build_run b lib calls ffi_initial = Some (rs, s)" "ffi_wf s"
    "\<not> local_flow_stat b \<longrightarrow> STAT_ADDR s = None" "\<not> local_tun b \<longrightarrow> duped s = []"
    using run[of calls ffi_initial] ffi_initial_wf by (auto simp: ffi_initial_def)
  have "card (dom (heap s)) \<le> 2" using fin(2) by (rule ffi_wf_card)
  with fin default_run[of lib calls ffi_initial] show ?thesis by (auto simp: attach_stat_address_def)
qed

theorem builds_safe_witness:
  "\<exists>rs s. build_run \<lparr>local_tun = False, local_flow_stat = False, target_linux = False\<rparr> sample_lib
     [Set_Stat_Address (Some ''a''), Start_Tun_Fd sample_os (Some ''x'') 3, Start sample_os (Some ''x''), Last_Error]
     ffi_initial = Some (rs, s) \<and> duped s = []"
  using builds_safe[OF sample_json_value, of "\<lparr>local_tun = False, local_flow_stat = False, target_linux = False\<rparr>"
    "[Set_Stat_Address (Some ''a''), Start_Tun_Fd sample_os (Some ''x'') 3, Start sample_os (Some ''x''), Last_Error]"]
  by auto

end
