(* ===== verification/Ffi_Threads.thy ===== *)
theory Ffi_Threads
  imports Ffi_State
begin

text \<open>
  The error messages of \<open>src/native/sslocal-ffi/src/lib.rs\<close> with threads. \<open>set_last_error\<close> holds
  the lock of \<open>LAST_ERROR\<close> once, so it is one step of any thread, also of the core's tasks.
  \<open>sslocal_last_error\<close> takes two locks, one after the other: it clones the message under the first
  and stores the clone under the second, and other threads may come in between. A state is the
  statics and the clone each thread carries between its two steps.
\<close>

section \<open>The two steps of \<open>sslocal_last_error\<close>\<close>

definition clone_last_error :: "('rt, 'a) ffi \<Rightarrow> nat option \<times> ('rt, 'a) ffi" where
  "clone_last_error s =
     (case last_message s of
        None \<Rightarrow> (None, s)
      | Some text \<Rightarrow> (case alloc text s of (p, s') \<Rightarrow> (Some p, s')))"

definition hand_out :: "nat option \<Rightarrow> ('rt, 'a) ffi \<Rightarrow> ('rt, 'a) ffi" where
  "hand_out message s = (free (LAST_ERROR_HANDED_OUT s) s)\<lparr>LAST_ERROR_HANDED_OUT := message\<rparr>"

lemma last_error_steps:
  "sslocal_last_error s = (case clone_last_error s of (message, s') \<Rightarrow> (message, hand_out message s'))"
  by (simp add: sslocal_last_error_def clone_last_error_def hand_out_def last_message_def
      split: option.split prod.split)

section \<open>Interleavings\<close>

datatype message_event = Record string | Clone nat | Hand_Out nat "nat option"

type_synonym ('rt, 'a) messages = "('rt, 'a) ffi \<times> (nat \<rightharpoonup> nat option)"

inductive message_step :: "('rt, 'a) messages \<Rightarrow> message_event \<Rightarrow> ('rt, 'a) messages \<Rightarrow> bool" where
  recorded: "message_step (s, pc) (Record m) (set_last_error m s, pc)"
| cloned: "\<lbrakk>pc t = None; clone_last_error s = (p, s')\<rbrakk> \<Longrightarrow> message_step (s, pc) (Clone t) (s', pc(t \<mapsto> p))"
| handed: "pc t = Some p \<Longrightarrow> message_step (s, pc) (Hand_Out t p) (hand_out p s, pc(t := None))"

inductive_cases recordE: "message_step c (Record m) c'"
inductive_cases cloneE: "message_step c (Clone t) c'"
inductive_cases handE: "message_step c (Hand_Out t p) c'"

inductive message_run :: "('rt, 'a) messages \<Rightarrow> message_event list \<Rightarrow> ('rt, 'a) messages \<Rightarrow> bool" where
  Nil: "message_run c [] c"
| snoc: "\<lbrakk>message_run c es c'; message_step c' e c''\<rbrakk> \<Longrightarrow> message_run c (es @ [e]) c''"

lemma message_run_single: "message_step c e c' \<Longrightarrow> message_run c [e] c'"
  using snoc[OF Nil, of c e c'] by simp

abbreviation idle :: "('rt, 'a) messages" where
  "idle \<equiv> (ffi_initial, Map.empty)"

section \<open>Ownership of the buffers\<close>

text \<open>Who owns a buffer: one of the two slots, or a thread between its two steps.\<close>

datatype owner = Last_Slot | Handed_Slot | Local nat

fun owned :: "('rt, 'a) messages \<Rightarrow> owner \<Rightarrow> nat option" where
  "owned (s, pc) Last_Slot = LAST_ERROR s"
| "owned (s, pc) Handed_Slot = LAST_ERROR_HANDED_OUT s"
| "owned (s, pc) (Local t) = Option.bind (pc t) (\<lambda>p. p)"

text \<open>
  The invariant: every allocated buffer has exactly one owner and is below the next fresh one,
  and what is owned is allocated. What the steps do with ownership: a fresh buffer for an owner
  that has none, freeing what an owner has, and passing it on.
\<close>

definition own_wf :: "(nat \<rightharpoonup> string) \<Rightarrow> nat \<Rightarrow> (owner \<Rightarrow> nat option) \<Rightarrow> bool" where
  "own_wf h n f \<longleftrightarrow>
     (\<forall>p. h p \<noteq> None \<longleftrightarrow> (\<exists>a. f a = Some p)) \<and>
     (\<forall>a b p. f a = Some p \<longrightarrow> f b = Some p \<longrightarrow> a = b) \<and> (\<forall>a p. f a = Some p \<longrightarrow> p < n)"

abbreviation messages_wf :: "('rt, 'a) messages \<Rightarrow> bool" where
  "messages_wf c \<equiv> own_wf (heap (fst c)) (next_buffer (fst c)) (owned c)"

definition freed :: "nat option \<Rightarrow> (nat \<rightharpoonup> string) \<Rightarrow> (nat \<rightharpoonup> string)" where
  "freed slot h = (case slot of None \<Rightarrow> h | Some p \<Rightarrow> h(p := None))"

lemma heap_free: "heap (free slot s) = freed slot (heap s)" "next_buffer (free slot s) = next_buffer s"
  "LAST_ERROR (free slot s) = LAST_ERROR s" "LAST_ERROR_HANDED_OUT (free slot s) = LAST_ERROR_HANDED_OUT s"
  by (simp_all add: free_def freed_def split: option.split)

lemma own_wf_fresh:
  assumes "own_wf h n f" and "f a = None"
  shows "own_wf (h(n \<mapsto> x)) (Suc n) (f(a \<mapsto> n))"
proof -
  have below: "p < n" if "f b = Some p" for b p
    using assms(1) that unfolding own_wf_def by blast
  have "(h(n \<mapsto> x)) p \<noteq> None \<longleftrightarrow> (\<exists>b. (f(a \<mapsto> n)) b = Some p)" for p
    using assms unfolding own_wf_def by (cases "p = n") (auto, metis option.distinct(1))
  moreover have "b = c" if "(f(a \<mapsto> n)) b = Some p" "(f(a \<mapsto> n)) c = Some p" for b c p
    using that below assms(1) unfolding own_wf_def by (cases "p = n") (auto split: if_splits)
  moreover have "p < Suc n" if "(f(a \<mapsto> n)) b = Some p" for b p
    using that below[of b p] by (simp split: if_splits)
  ultimately show ?thesis unfolding own_wf_def by blast
qed

lemma own_wf_freed:
  assumes "own_wf h n f"
  shows "own_wf (freed (f a) h) n (f(a := None))"
proof (cases "f a")
  case None
  then show ?thesis using assms by (simp add: freed_def fun_upd_idem)
next
  case (Some q)
  have "(h(q := None)) p \<noteq> None \<longleftrightarrow> (\<exists>b. (f(a := None)) b = Some p)" for p
    using assms Some unfolding own_wf_def by (cases "p = q") (auto, metis option.inject)
  then show ?thesis using assms Some by (simp add: own_wf_def freed_def)
qed

lemma own_wf_moved:
  assumes "own_wf h n f" and "f b = None" and "a \<noteq> b"
  shows "own_wf h n (f(b := f a, a := None))"
proof -
  have "(\<exists>c. (f(b := f a, a := None)) c = Some p) \<longleftrightarrow> (\<exists>c. f c = Some p)" for p
  proof
    assume "\<exists>c. f c = Some p"
    then obtain c where "f c = Some p" ..
    with assms(2,3) have "(f(b := f a, a := None)) (if c = a then b else c) = Some p" by auto
    then show "\<exists>c. (f(b := f a, a := None)) c = Some p" ..
  qed (auto split: if_splits)
  moreover have "c = d" if "(f(b := f a, a := None)) c = Some p" "(f(b := f a, a := None)) d = Some p" for c d p
    using that assms unfolding own_wf_def by (simp split: if_splits)
  ultimately show ?thesis using assms(1) unfolding own_wf_def by metis
qed

text \<open>The steps in these terms.\<close>

lemma owned_record:
  "owned (set_last_error m s, pc) = (owned (s, pc))(Last_Slot \<mapsto> next_buffer s)"
  "heap (set_last_error m s) = freed (LAST_ERROR s) ((heap s)(next_buffer s \<mapsto> c_string_new m))"
  "next_buffer (set_last_error m s) = Suc (next_buffer s)"
proof -
  show "owned (set_last_error m s, pc) = (owned (s, pc))(Last_Slot \<mapsto> next_buffer s)"
  proof
    fix x
    show "owned (set_last_error m s, pc) x = ((owned (s, pc))(Last_Slot \<mapsto> next_buffer s)) x"
      by (cases x) (simp_all add: set_last_error_def alloc_def heap_free)
  qed
qed (simp_all add: set_last_error_def alloc_def heap_free)

lemma owned_clone:
  assumes "clone_last_error s = (p, s')"
  shows "owned (s', pc(t \<mapsto> p)) = (owned (s, pc))(Local t := p)"
    and "(p = None \<and> last_message s = None \<and> s' = s) \<or>
      (\<exists>text. p = Some (next_buffer s) \<and> last_message s = Some text \<and>
         heap s' = (heap s)(next_buffer s \<mapsto> text) \<and> next_buffer s' = Suc (next_buffer s))"
proof -
  have slots: "LAST_ERROR s' = LAST_ERROR s" "LAST_ERROR_HANDED_OUT s' = LAST_ERROR_HANDED_OUT s"
    using assms by (auto simp: clone_last_error_def alloc_def split: option.splits)
  show "owned (s', pc(t \<mapsto> p)) = (owned (s, pc))(Local t := p)"
  proof
    fix x
    show "owned (s', pc(t \<mapsto> p)) x = ((owned (s, pc))(Local t := p)) x"
      by (cases x) (simp_all add: slots)
  qed
  show "(p = None \<and> last_message s = None \<and> s' = s) \<or>
      (\<exists>text. p = Some (next_buffer s) \<and> last_message s = Some text \<and>
         heap s' = (heap s)(next_buffer s \<mapsto> text) \<and> next_buffer s' = Suc (next_buffer s))"
    using assms by (auto simp: clone_last_error_def alloc_def split: option.splits)
qed

lemma owned_hand:
  "owned (hand_out p s, pc(t := None)) = (owned (s, pc))(Handed_Slot := p, Local t := None)"
  "heap (hand_out p s) = freed (LAST_ERROR_HANDED_OUT s) (heap s)"
  "next_buffer (hand_out p s) = next_buffer s"
proof -
  show "owned (hand_out p s, pc(t := None)) = (owned (s, pc))(Handed_Slot := p, Local t := None)"
  proof
    fix x
    show "owned (hand_out p s, pc(t := None)) x = ((owned (s, pc))(Handed_Slot := p, Local t := None)) x"
      by (cases x) (simp_all add: hand_out_def heap_free)
  qed
qed (simp_all add: hand_out_def heap_free)

lemma idle_wf: "messages_wf (idle :: ('rt, 'a) messages)"
proof -
  have "owned (idle :: ('rt, 'a) messages) x = None" for x by (cases x) (simp_all add: ffi_initial_def)
  moreover have "heap (fst (idle :: ('rt, 'a) messages)) = Map.empty" by (simp add: ffi_initial_def)
  ultimately show ?thesis unfolding own_wf_def by simp
qed

lemma message_step_wf:
  assumes "message_step c e c'" and "messages_wf c"
  shows "messages_wf c'"
  using assms
proof cases
  case (recorded s pc m)
  let ?f = "owned (s, pc)" and ?h = "heap s" and ?n = "next_buffer s"
  have "own_wf ((freed (?f Last_Slot) ?h)(?n \<mapsto> c_string_new m)) (Suc ?n) ((?f(Last_Slot := None))(Last_Slot \<mapsto> ?n))"
    using assms(2) recorded by (intro own_wf_fresh own_wf_freed) simp_all
  moreover have "p \<noteq> ?n" if "LAST_ERROR s = Some p" for p
    using assms(2) recorded(1) that unfolding own_wf_def by (metis fst_conv less_irrefl owned.simps(1))
  then have "(freed (?f Last_Slot) ?h)(?n \<mapsto> c_string_new m) = heap (set_last_error m s)"
    by (auto simp: owned_record(2) freed_def fun_upd_twist split: option.split)
  ultimately show ?thesis using recorded by (simp add: owned_record)
next
  case (cloned pc t s p s')
  let ?f = "owned (s, pc)"
  have idle: "?f (Local t) = None" using cloned by simp
  from owned_clone(2)[OF cloned(5)] show ?thesis
  proof
    assume "p = None \<and> last_message s = None \<and> s' = s"
    with assms(2) cloned idle owned_clone(1)[OF cloned(5)] show ?thesis by (simp add: fun_upd_idem)
  next
    assume "\<exists>text. p = Some (next_buffer s) \<and> last_message s = Some text \<and>
      heap s' = (heap s)(next_buffer s \<mapsto> text) \<and> next_buffer s' = Suc (next_buffer s)"
    with assms(2) cloned owned_clone(1)[OF cloned(5), of pc t] own_wf_fresh[of "heap s" "next_buffer s" ?f "Local t"] idle
    show ?thesis by auto
  qed
next
  case (handed pc t p s)
  let ?f = "owned (s, pc)"
  have "own_wf (freed (?f Handed_Slot) (heap s)) (next_buffer s)
      ((?f(Handed_Slot := None))(Handed_Slot := (?f(Handed_Slot := None)) (Local t), Local t := None))"
    using assms(2) handed by (intro own_wf_moved own_wf_freed) simp_all
  then show ?thesis using handed by (simp add: owned_hand)
qed

lemma message_run_wf: "\<lbrakk>message_run c es c'; messages_wf c\<rbrakk> \<Longrightarrow> messages_wf c'"
  by (induction rule: message_run.induct) (auto intro: message_step_wf)

section \<open>What an owner keeps\<close>

text \<open>The owners whose buffer an event may replace or free.\<close>

fun touches :: "message_event \<Rightarrow> owner \<Rightarrow> bool" where
  "touches (Record m) x \<longleftrightarrow> x = Last_Slot"
| "touches (Clone t) x \<longleftrightarrow> False"
| "touches (Hand_Out t p) x \<longleftrightarrow> x = Handed_Slot \<or> x = Local t"

lemma freed_other: "slot \<noteq> Some p \<Longrightarrow> freed slot h p = h p"
  by (auto simp: freed_def split: option.split)

lemma message_step_keeps:
  assumes "message_step c e c'" and "messages_wf c" and "owned c x = Some p" and "\<not> touches e x"
  shows "owned c' x = Some p \<and> heap (fst c') p = heap (fst c) p"
  using assms
proof cases
  case (recorded s pc m)
  have "p < next_buffer s" "LAST_ERROR s \<noteq> Some p"
    using assms(2-4) recorded unfolding own_wf_def by (force, metis owned.simps(1) touches.simps(1))
  then show ?thesis using assms(3,4) recorded by (simp add: owned_record freed_other)
next
  case (cloned pc t s q s')
  have "x \<noteq> Local t" using assms(3) cloned by auto
  moreover have "p < next_buffer s" using assms(2,3) cloned unfolding own_wf_def by force
  ultimately show ?thesis
    using assms(3) cloned owned_clone(1)[OF cloned(5), of pc t] owned_clone(2)[OF cloned(5)] by auto
next
  case (handed pc t q s)
  have "LAST_ERROR_HANDED_OUT s \<noteq> Some p"
    using assms(2-4) handed unfolding own_wf_def by (metis owned.simps(2) touches.simps(3))
  then show ?thesis using assms(3,4) handed by (simp add: owned_hand freed_other)
qed

lemma message_run_keeps:
  assumes "message_run c es c'" and "messages_wf c" and "owned c x = Some p"
    and "\<forall>e\<in>set es. \<not> touches e x"
  shows "owned c' x = Some p \<and> heap (fst c') p = heap (fst c) p"
  using assms
proof induction
  case (snoc c es c' e c'')
  then show ?case using message_step_keeps[OF snoc(2) message_run_wf[OF snoc(1) snoc.prems(1)], of x p] by simp
qed simp

text \<open>A thread keeps its clone, or the knowledge that there was none, until it hands it out.\<close>

lemma message_run_pc:
  assumes "message_run c es c'" and "snd c t = Some r" and "\<forall>q. Hand_Out t q \<notin> set es"
  shows "snd c' t = Some r"
  using assms
proof induction
  case (snoc c es c' e c'')
  then have "snd c' t = Some r" by simp
  with snoc(2) snoc.prems(2) show ?case by (cases rule: message_step.cases) auto
qed simp

lemma message_run_finite: "\<lbrakk>message_run c es c'; finite (dom (snd c))\<rbrakk> \<Longrightarrow> finite (dom (snd c'))"
proof (induction rule: message_run.induct)
  case (snoc c es c' e c'')
  from snoc(2) snoc.IH[OF snoc.prems] show ?case
    by (cases rule: message_step.cases) (simp_all add: dom_fun_upd del: fun_upd_apply)
qed simp

section \<open>Properties\<close>

text \<open>
  C32: with any number of threads that record errors and ask for the last one, in any
  interleaving: what \<open>sslocal_last_error\<close> returns to a thread reads the message that was the last
  one when the thread looked, from the moment it is returned until some thread's
  \<open>sslocal_last_error\<close> stores the next one; recording errors does not disturb it.
\<close>

theorem reader_pointer_lives:
  assumes "message_run idle es (s, pc)" and "message_step (s, pc) (Clone t) c1"
    and "message_run c1 es1 c2" and "\<forall>q. Hand_Out t q \<notin> set es1"
    and "message_step c2 (Hand_Out t (Some p)) c3"
    and "message_run c3 es2 c4" and "\<forall>u q. Hand_Out u q \<notin> set es2"
  shows "last_message s \<noteq> None \<and> heap (fst c4) p = last_message s"
proof -
  note wf = message_run_wf[OF assms(1) idle_wf]
  note wf1 = message_step_wf[OF assms(2) wf]
  note wf3 = message_step_wf[OF assms(5) message_run_wf[OF assms(3) wf1]]
  from assms(2) obtain r s' where r: "clone_last_error s = (r, s')" and c1: "c1 = (s', pc(t \<mapsto> r))"
    by (auto elim: cloneE)
  have "snd c2 t = Some r" by (rule message_run_pc[OF assms(3) _ assms(4)]) (simp add: c1)
  with assms(5) have p: "r = Some p" by (auto elim: handE)
  have at1: "last_message s \<noteq> None" "heap (fst c1) p = last_message s" "owned c1 (Local t) = Some p"
    using owned_clone(1)[OF r, of pc t] owned_clone(2)[OF r] by (auto simp: c1 p)
  have "\<not> touches e (Local t)" if "e \<in> set es1" for e
    using that assms(4) by (cases e rule: message_event.exhaust) auto
  then have at2: "owned c2 (Local t) = Some p" "heap (fst c2) p = last_message s"
    using message_run_keeps[OF assms(3) wf1 at1(3)] at1(2) by auto
  obtain s2 pc2 where c2: "c2 = (s2, pc2)" by (cases c2)
  have "LAST_ERROR_HANDED_OUT s2 \<noteq> Some p"
    using message_run_wf[OF assms(3) wf1] at2(1) c2 unfolding own_wf_def
    by (metis owned.simps(2) owner.distinct(5))
  with assms(5) at2(2) have "owned c3 Handed_Slot = Some p" "heap (fst c3) p = last_message s"
    by (auto simp: c2 owned_hand freed_other elim!: handE)
  moreover have "\<not> touches e Handed_Slot" if "e \<in> set es2" for e
    using that assms(7) by (cases e rule: message_event.exhaust) auto
  ultimately show ?thesis using message_run_keeps[OF assms(6) wf3] at1(1) by metis
qed

theorem reader_pointer_lives_witness:
  "\<exists>(c :: ('rt, 'a) messages) p.
     message_run idle ([Record ''e''] @ [Clone 0] @ [Record ''f''] @ [Hand_Out 0 (Some p)] @ [Record ''g'']) c \<and>
     heap (fst c) p = Some ''e''"
proof -
  let ?s1 = "set_last_error ''e'' ffi_initial :: ('rt, 'a) ffi"
  have last: "last_message ?s1 = Some ''e''"
    by (simp add: set_last_error_message[OF ffi_initial_wf] c_string_new_def)
  then obtain p s2 where clone: "clone_last_error ?s1 = (Some p, s2)"
    by (simp add: clone_last_error_def alloc_def)
  let ?s3 = "set_last_error ''f'' s2" and ?pc = "[0 \<mapsto> Some p]"
  let ?s4 = "hand_out (Some p) ?s3" and ?after = "?pc(0 := None)"
  note steps = recorded[of "ffi_initial :: ('rt, 'a) ffi" Map.empty "''e''"] cloned[of Map.empty 0, OF _ clone]
    recorded[of s2 ?pc "''f''"] handed[of ?pc 0 "Some p" ?s3] recorded[of ?s4 ?after "''g''"]
  have run: "message_run idle [Record ''e''] (?s1, Map.empty)"
    "message_step (?s1, Map.empty) (Clone 0) (s2, ?pc)"
    "message_run (s2, ?pc) [Record ''f''] (?s3, ?pc)"
    "message_step (?s3, ?pc) (Hand_Out 0 (Some p)) (?s4, ?after)"
    "message_run (?s4, ?after) [Record ''g''] (set_last_error ''g'' ?s4, ?after)"
    using steps by (simp_all add: message_run_single)
  have "heap (set_last_error ''g'' ?s4) p = last_message ?s1"
    using reader_pointer_lives[OF run(1,2,3) _ run(4,5)] by simp
  moreover have "message_run idle ([Record ''e''] @ [Clone 0] @ [Record ''f''] @ [Hand_Out 0 (Some p)] @ [Record ''g''])
      (set_last_error ''g'' ?s4, ?after)"
    using snoc[OF snoc[OF snoc[OF snoc[OF run(1,2)] steps(3)] run(4)] steps(5)] by simp
  ultimately show ?thesis using last by (metis fst_conv)
qed

text \<open>
  C33: that other thread's call need not come later. Two threads that ask at the same time may
  both have cloned when the first stores its clone; the second then frees it, and the first
  returns a pointer to a freed buffer although no \<open>sslocal_last_error\<close> was called after its own.
\<close>

theorem two_readers_dangle:
  "\<exists>s p q. message_run (idle :: ('rt, 'a) messages)
      [Record m, Clone 0, Clone 1, Hand_Out 0 (Some p), Hand_Out 1 (Some q)] (s, Map.empty) \<and>
    heap s p = None"
proof -
  let ?s = "\<lambda>h n handed. \<lparr>INSTANCE = None, LAST_ERROR = Some 0, LAST_ERROR_HANDED_OUT = handed,
    STAT_ADDR = None, heap = h, next_buffer = n, duped = []\<rparr> :: ('rt, 'a) ffi"
  let ?m = "c_string_new m"
  let ?h3 = "[0 \<mapsto> ?m, 1 \<mapsto> ?m, 2 \<mapsto> ?m]"
  have "set_last_error m ffi_initial = ?s [0 \<mapsto> ?m] 1 None"
    by (simp add: set_last_error_def alloc_def free_def ffi_initial_def)
  then have s1: "message_step idle (Record m) (?s [0 \<mapsto> ?m] 1 None, Map.empty)"
    by (metis recorded)
  have s2: "message_step (?s [0 \<mapsto> ?m] 1 None, Map.empty) (Clone 0)
      (?s [0 \<mapsto> ?m, 1 \<mapsto> ?m] 2 None, [0 \<mapsto> Some 1])"
    by (intro cloned) (simp_all add: clone_last_error_def last_message_def alloc_def numeral_2_eq_2)
  have s3: "message_step (?s [0 \<mapsto> ?m, 1 \<mapsto> ?m] 2 None, [0 \<mapsto> Some 1]) (Clone 1)
      (?s ?h3 3 None, [0 \<mapsto> Some 1, 1 \<mapsto> Some 2])"
    by (intro cloned) (simp_all add: clone_last_error_def last_message_def alloc_def)
  have s4: "message_step (?s ?h3 3 None, [0 \<mapsto> Some 1, 1 \<mapsto> Some 2]) (Hand_Out 0 (Some 1))
      (hand_out (Some 1) (?s ?h3 3 None), [0 \<mapsto> Some 1, 1 \<mapsto> Some 2](0 := None))"
    by (rule handed) simp
  have s5: "message_step (hand_out (Some 1) (?s ?h3 3 None), [0 \<mapsto> Some 1, 1 \<mapsto> Some 2](0 := None)) (Hand_Out 1 (Some 2))
      (hand_out (Some 2) (hand_out (Some 1) (?s ?h3 3 None)), [0 \<mapsto> Some 1, 1 \<mapsto> Some 2](0 := None, 1 := None))"
    by (rule handed) simp
  have none: "[0 \<mapsto> Some 1, 1 \<mapsto> Some 2](0 := None, 1 := None) = (Map.empty :: nat \<rightharpoonup> nat option)"
    by auto
  have "heap (hand_out (Some 2) (hand_out (Some 1) (?s ?h3 3 None))) 1 = None"
    by (simp add: hand_out_def free_def)
  with snoc[OF snoc[OF snoc[OF snoc[OF snoc[OF Nil s1] s2] s3] s4] s5] show ?thesis
    unfolding none by auto
qed

text \<open>
  Buffers do not pile up with threads either: one for each slot, and one for each thread
  between its two steps.
\<close>

theorem messages_bounded_threads:
  assumes "message_run idle es (s, pc)"
  shows "finite (dom (heap s)) \<and> card (dom (heap s)) \<le> 2 + card (dom pc)"
proof -
  have fin: "finite (dom pc)" using message_run_finite[OF assms] by simp
  let ?owners = "{Last_Slot, Handed_Slot} \<union> Local ` dom pc"
  have "\<forall>p. heap s p \<noteq> None \<longleftrightarrow> (\<exists>a. owned (s, pc) a = Some p)"
    using message_run_wf[OF assms idle_wf] unfolding own_wf_def fst_conv by (elim conjE)
  moreover have "a \<in> ?owners" if "owned (s, pc) a = Some p" for a p
    using that by (cases a rule: owner.exhaust) (auto split: bind_splits)
  ultimately have "\<exists>a\<in>?owners. p = the (owned (s, pc) a)" if "heap s p \<noteq> None" for p
    using that by (metis option.sel)
  then have sub: "dom (heap s) \<subseteq> (\<lambda>a. the (owned (s, pc) a)) ` ?owners"
    unfolding dom_def image_def by blast
  have "card ?owners \<le> card {Last_Slot, Handed_Slot} + card (Local ` dom pc)" by (rule card_Un_le)
  also have "\<dots> \<le> 2 + card (dom pc)" using card_image_le[OF fin, of Local] by simp
  finally have "card ?owners \<le> 2 + card (dom pc)" .
  moreover have "finite ?owners" using fin by simp
  ultimately show ?thesis
    using sub by (meson card_image_le card_mono finite_imageI finite_subset le_trans)
qed

theorem messages_bounded_threads_witness:
  "\<exists>s :: ('rt, 'a) ffi. message_run idle [Record ''e''] (s, Map.empty) \<and> card (dom (heap s)) \<le> 2"
proof -
  have run: "message_run idle ([] @ [Record ''e'']) (set_last_error ''e'' ffi_initial :: ('rt, 'a) ffi, Map.empty)"
    by (rule snoc[OF Nil recorded])
  from messages_bounded_threads[OF run] run show ?thesis by auto
qed

end
