(* ===== verification/Ffi_Locks.thy ===== *)
theory Ffi_Locks
  imports Ffi
begin

text \<open>
  The locks of \<open>src/native/sslocal-ffi/src/lib.rs\<close>: in which order each entry point takes and
  releases the mutexes of the statics on each of its paths, and that no number of threads calling
  them can block each other for ever. A guard that is a temporary is released at the end of its
  statement, the guard of \<open>INSTANCE\<close> at the end of the function.
\<close>

section \<open>What the entry points lock\<close>

datatype lock = Instance_Lock | Stat_Lock | Error_Lock | Handed_Lock

datatype lock_action = Acquire lock | Release lock

datatype entry_point =
    Start_Entry | Start_Tun_Entry | Set_Stat_Entry | Stop_Entry | Is_Running_Entry
  | Last_Error_Entry | Core_Task

definition set_last_error_locks :: "lock_action list" where
  "set_last_error_locks = [Acquire Error_Lock, Release Error_Lock]"

definition attach_stat_address_locks :: "lock_action list" where
  "attach_stat_address_locks = [Acquire Stat_Lock, Release Stat_Lock]"

text \<open>
  The paths of \<open>start_with_json\<close>: a bad plugin entry is reported before \<open>INSTANCE\<close> is locked; an
  instance that runs already, a runtime or forwarder that fails or a bad config is reported under
  that lock; then the stat address is read, \<open>prepare\<close> may fail, or the instance is stored.
\<close>

definition start_with_json_paths :: "lock_action list list" where
  "start_with_json_paths =
     [set_last_error_locks,
      [Acquire Instance_Lock] @ set_last_error_locks @ [Release Instance_Lock],
      [Acquire Instance_Lock] @ attach_stat_address_locks @ set_last_error_locks @ [Release Instance_Lock],
      [Acquire Instance_Lock] @ attach_stat_address_locks @ [Release Instance_Lock]]"

text \<open>The path a start takes, by the branches of \<open>start_with_json\<close>, is one of them.\<close>

definition start_with_json_locks ::
  "('j, 'c, 'l, 'a, 'e) ffi_lib \<Rightarrow> ('lis, 'con) os \<Rightarrow> ('c \<Rightarrow> (failure + 'c) \<times> int list) \<Rightarrow> 'j \<Rightarrow>
   ('c runtime, 'a) ffi \<Rightarrow> lock_action list" where
  "start_with_json_locks lib os prepare v s =
     (case extract_plugin_specs (lib_json lib) (lib_show_io lib) (lib_show_transport lib) v of
        Inl f \<Rightarrow> set_last_error_locks
      | Inr specs \<Rightarrow>
          [Acquire Instance_Lock] @
          (if \<not> Option.is_none (INSTANCE s) then set_last_error_locks
           else if os_runtime os \<noteq> None then set_last_error_locks
           else (case apply_plugin_forwarders (lib_json lib) (lib_show_io lib) os 0 v specs of
               Some (Inr (v', forwarders)) \<Rightarrow>
                 (case lib_load_config lib (lib_to_string lib v') of
                    Inl e \<Rightarrow> set_last_error_locks
                  | Inr config \<Rightarrow>
                      attach_stat_address_locks @
                      (case fst (prepare (attach_stat_address lib s config)) of
                         Inl f \<Rightarrow> set_last_error_locks
                       | Inr config \<Rightarrow> []))
             | _ \<Rightarrow> set_last_error_locks)) @
          [Release Instance_Lock])"

lemma start_with_json_locks_paths:
  "start_with_json_locks lib os prepare v s \<in> set start_with_json_paths"
  by (simp add: start_with_json_locks_def start_with_json_paths_def split: sum.splits option.splits prod.splits)

lemma start_with_json_locks_Ok:
  assumes "start_with_json lib os prepare v s = Some (SSLOCAL_OK, s')"
    and "\<And>c f fds. prepare c = (Err f, fds) \<Longrightarrow> fst f \<noteq> SSLOCAL_OK \<and> fds = []"
  shows "start_with_json_locks lib os prepare v s
    = [Acquire Instance_Lock] @ attach_stat_address_locks @ [Release Instance_Lock]"
proof (rule start_with_jsonE[OF assms])
  assume "only_reports s (SSLOCAL_OK, s')"
  then show ?thesis by (simp add: only_reports_def)
next
  fix specs v' fs config config' fds
  assume runs: "extract_plugin_specs (lib_json lib) (lib_show_io lib) (lib_show_transport lib) v = Ok specs"
    "INSTANCE s = None" "apply_plugin_forwarders (lib_json lib) (lib_show_io lib) os 0 v specs = Some (Ok (v', fs))"
    "lib_load_config lib (lib_to_string lib v') = Ok config"
    "prepare (attach_stat_address lib s config) = (Ok config', fds)"
  have "os_runtime os = None"
    using assms(1) runs by (auto simp: start_with_json_def report_def ffi_codes split: option.splits)
  with runs show ?thesis by (simp add: start_with_json_locks_def)
qed

fun entry_paths :: "entry_point \<Rightarrow> lock_action list list" where
  "entry_paths Start_Entry = set_last_error_locks # start_with_json_paths"
| "entry_paths Start_Tun_Entry = set_last_error_locks # start_with_json_paths"
| "entry_paths Set_Stat_Entry = [[Acquire Stat_Lock, Release Stat_Lock], set_last_error_locks]"
| "entry_paths Stop_Entry =
     [[Acquire Instance_Lock, Release Instance_Lock],
      [Acquire Instance_Lock] @ set_last_error_locks @ [Release Instance_Lock]]"
| "entry_paths Is_Running_Entry = [[Acquire Instance_Lock, Release Instance_Lock]]"
| "entry_paths Last_Error_Entry =
     [[Acquire Error_Lock, Release Error_Lock, Acquire Handed_Lock, Release Handed_Lock]]"
| "entry_paths Core_Task = [set_last_error_locks]"

text \<open>What a thread does that makes these calls, one after the other, on some path each.\<close>

inductive thread_locks :: "entry_point list \<Rightarrow> lock_action list \<Rightarrow> bool" where
  Done: "thread_locks [] []"
| Call: "\<lbrakk>path \<in> set (entry_paths e); thread_locks es acts\<rbrakk> \<Longrightarrow> thread_locks (e # es) (path @ acts)"

section \<open>Threads that share the locks\<close>

text \<open>What each thread has still to do, and which thread holds which lock.\<close>

type_synonym lock_state = "(nat \<Rightarrow> lock_action list) \<times> (lock \<rightharpoonup> nat)"

inductive lock_step :: "lock_state \<Rightarrow> lock_state \<Rightarrow> bool" where
  acquire: "\<lbrakk>todo t = Acquire l # acts; held l = None\<rbrakk>
    \<Longrightarrow> lock_step (todo, held) (todo(t := acts), held(l \<mapsto> t))"
| release: "\<lbrakk>todo t = Release l # acts; held l = Some t\<rbrakk>
    \<Longrightarrow> lock_step (todo, held) (todo(t := acts), held(l := None))"

section \<open>The lock order\<close>

fun rank :: "lock \<Rightarrow> nat" where
  "rank Instance_Lock = 0"
| "rank Stat_Lock = 1"
| "rank Error_Lock = 2"
| "rank Handed_Lock = 3"

lemma rank_inject: "rank a = rank b \<longleftrightarrow> a = b"
  by (cases a; cases b) simp_all

instantiation lock :: linorder
begin

definition less_eq_lock :: "lock \<Rightarrow> lock \<Rightarrow> bool" where
  "less_eq_lock a b \<longleftrightarrow> rank a \<le> rank b"

definition less_lock :: "lock \<Rightarrow> lock \<Rightarrow> bool" where
  "less_lock a b \<longleftrightarrow> rank a < rank b"

instance
  by standard (auto simp: less_eq_lock_def less_lock_def rank_inject)

end

text \<open>
  A thread that holds the locks of a list, latest first, goes on in increasing order, gives back
  the latest lock first and ends holding none.
\<close>

fun disciplined :: "lock list \<Rightarrow> lock_action list \<Rightarrow> bool" where
  "disciplined ls [] \<longleftrightarrow> ls = []"
| "disciplined ls (Acquire l # acts) \<longleftrightarrow> (\<forall>h\<in>set ls. h < l) \<and> disciplined (l # ls) acts"
| "disciplined (h # ls) (Release l # acts) \<longleftrightarrow> h = l \<and> disciplined ls acts"
| "disciplined [] (Release l # acts) \<longleftrightarrow> False"

lemma disciplined_append: "\<lbrakk>disciplined ls acts; disciplined [] acts'\<rbrakk> \<Longrightarrow> disciplined ls (acts @ acts')"
  by (induction ls acts rule: disciplined.induct) auto

lemma entry_paths_disciplined: "path \<in> set (entry_paths e) \<Longrightarrow> disciplined [] path"
  by (cases e) (auto simp: start_with_json_paths_def set_last_error_locks_def attach_stat_address_locks_def less_lock_def)

lemma thread_locks_disciplined: "thread_locks es acts \<Longrightarrow> disciplined [] acts"
  by (induction rule: thread_locks.induct) (auto intro: disciplined_append entry_paths_disciplined)

definition lock_wf :: "lock_state \<Rightarrow> bool" where
  "lock_wf c \<longleftrightarrow>
     (\<forall>t. \<exists>ls. distinct ls \<and> (\<forall>l. l \<in> set ls \<longleftrightarrow> snd c l = Some t) \<and> disciplined ls (fst c t))"

lemma lock_step_wf:
  assumes "lock_step c c'" and "lock_wf c"
  shows "lock_wf c'"
  using assms
proof cases
  case (acquire todo t l acts held)
  show ?thesis unfolding lock_wf_def
  proof
    fix u
    from assms(2) acquire obtain ls where ls: "distinct ls" "\<forall>l. l \<in> set ls \<longleftrightarrow> held l = Some u"
      "disciplined ls (todo u)" unfolding lock_wf_def by force
    show "\<exists>ls. distinct ls \<and> (\<forall>l. l \<in> set ls \<longleftrightarrow> snd c' l = Some u) \<and> disciplined ls (fst c' u)"
      using ls acquire by (intro exI[of _ "if u = t then l # ls else ls"]) auto
  qed
next
  case (release todo t l acts held)
  show ?thesis unfolding lock_wf_def
  proof
    fix u
    from assms(2) release obtain ls where ls: "distinct ls" "\<forall>l. l \<in> set ls \<longleftrightarrow> held l = Some u"
      "disciplined ls (todo u)" unfolding lock_wf_def by force
    show "\<exists>ls. distinct ls \<and> (\<forall>l. l \<in> set ls \<longleftrightarrow> snd c' l = Some u) \<and> disciplined ls (fst c' u)"
    proof (cases "u = t")
      case True
      with ls(3) release(3) obtain ls' where "ls = l # ls'" "disciplined ls' acts"
        by (cases ls) auto
      with True ls(1,2) release show ?thesis by (intro exI[of _ ls']) auto
    next
      case False
      with ls release show ?thesis by (intro exI[of _ ls]) auto
    qed
  qed
qed

lemma lock_steps_wf: "\<lbrakk>lock_step\<^sup>*\<^sup>* c c'; lock_wf c\<rbrakk> \<Longrightarrow> lock_wf c'"
  by (induction rule: rtranclp_induct) (auto intro: lock_step_wf)

text \<open>A thread that cannot go on waits for a lock that another thread holds, above all of its own.\<close>

lemma blocked_waits:
  assumes "lock_wf (todo, held)" and "\<nexists>c'. lock_step (todo, held) c'" and "todo t \<noteq> []"
  obtains l acts u where "todo t = Acquire l # acts" "held l = Some u" "todo u \<noteq> []"
    "\<forall>h. held h = Some t \<longrightarrow> h < l"
proof -
  from assms(1) obtain ls where ls: "\<forall>l. l \<in> set ls \<longleftrightarrow> held l = Some t" "disciplined ls (todo t)"
    unfolding lock_wf_def by force
  from assms(3) obtain a acts where todo: "todo t = a # acts" by (cases "todo t") auto
  show ?thesis
  proof (cases a)
    case (Release l)
    with todo ls have "held l = Some t" by (cases ls) auto
    with assms(2) todo Release show ?thesis by (meson lock_step.release)
  next
    case (Acquire l)
    with assms(2) todo obtain u where u: "held l = Some u" by (metis lock_step.acquire not_None_eq)
    from assms(1) obtain ls' where "\<forall>l. l \<in> set ls' \<longleftrightarrow> held l = Some u" "disciplined ls' (todo u)"
      unfolding lock_wf_def by force
    with u have "todo u \<noteq> []" by (metis disciplined.simps(1) empty_iff list.set(1))
    with that[of l acts u] todo Acquire u ls show ?thesis by simp
  qed
qed

text \<open>
  C34: the entry points cannot deadlock. Whatever calls any number of threads make, on whatever
  paths, and however they are interleaved: as long as some thread has not finished, some thread
  can go on; and when all have finished, no lock is held.
\<close>

theorem no_deadlock:
  assumes "\<forall>t. thread_locks (calls t) (todo t)" and "lock_step\<^sup>*\<^sup>* (todo, Map.empty) (todo', held)"
  shows "if \<exists>t. todo' t \<noteq> [] then \<exists>c'. lock_step (todo', held) c' else held = Map.empty"
proof -
  have "lock_wf (todo, Map.empty)"
    using assms(1) thread_locks_disciplined by (auto simp: lock_wf_def intro!: exI[of _ "[]"])
  note wf = lock_steps_wf[OF assms(2) this]
  show ?thesis
  proof (cases "\<exists>t. todo' t \<noteq> []")
    case True
    have "\<exists>c'. lock_step (todo', held) c'"
    proof (rule ccontr)
      assume stuck: "\<nexists>c'. lock_step (todo', held) c'"
      have "False" if "todo' t \<noteq> []" "todo' t = Acquire l # acts" "4 - rank l = n" for t l acts n
        using that
      proof (induction n arbitrary: t l acts rule: less_induct)
        case (less n)
        obtain u where u: "held l = Some u" "todo' u \<noteq> []"
          using blocked_waits[OF wf stuck less.prems(1)] less.prems(2) by (metis list.inject lock_action.inject(1))
        obtain l' acts' where up: "todo' u = Acquire l' # acts'" "l < l'"
          using blocked_waits[OF wf stuck u(2)] u(1) by metis
        have "rank l < 4" by (cases l) simp_all
        with up(2) less.prems(3) have "4 - rank l' < n" unfolding less_lock_def by arith
        from less.IH[OF this u(2) up(1) refl] show False .
      qed
      with True show False using blocked_waits[OF wf stuck] by metis
    qed
    with True show ?thesis by simp
  next
    case False
    have "held l \<noteq> Some t" for l t
    proof -
      from wf obtain ls where "\<forall>l. l \<in> set ls \<longleftrightarrow> held l = Some t" "disciplined ls (todo' t)"
        unfolding lock_wf_def by force
      with False show ?thesis by auto
    qed
    then have "held l = None" for l by (cases "held l") auto
    then have "held = Map.empty" by (intro ext)
    with False show ?thesis by simp
  qed
qed

text \<open>Two threads that both ask whether an instance runs; the first holds the lock, the second waits.\<close>

theorem no_deadlock_witness:
  "\<exists>todo held c'. todo 1 = Acquire Instance_Lock # [Release Instance_Lock] \<and> held Instance_Lock = Some 0 \<and>
     lock_step (todo, held) c'"
proof -
  let ?path = "[Acquire Instance_Lock, Release Instance_Lock]"
  let ?todo = "\<lambda>t :: nat. if t \<le> 1 then ?path else []"
  let ?todo' = "?todo(0 := [Release Instance_Lock])"
  have "thread_locks [Is_Running_Entry] (?path @ [])" by (intro Call Done) simp
  then have "thread_locks (if t \<le> 1 then [Is_Running_Entry] else []) (?todo t)" for t :: nat
    by (auto intro: Done)
  then have threads: "\<forall>t. thread_locks (if t \<le> 1 then [Is_Running_Entry] else []) (?todo t)" by blast
  have "lock_step\<^sup>*\<^sup>* (?todo, Map.empty) (?todo', [Instance_Lock \<mapsto> 0])"
    by (rule rtranclp.rtrancl_into_rtrancl[OF rtranclp.rtrancl_refl], rule acquire) simp_all
  from no_deadlock[OF threads this] have "\<exists>c'. lock_step (?todo', [Instance_Lock \<mapsto> 0]) c'"
    by (simp split: if_splits)
  then show ?thesis by (intro exI[of _ ?todo'] exI[of _ "[Instance_Lock \<mapsto> 0]"]) simp
qed

end
