(* ===== verification/Std_Net.thy ===== *)
theory Std_Net
  imports Plugin
begin

text \<open>
  Blocking streams as \<open>std::net::TcpStream\<close> is one, for the helper program
  \<open>src/native/sslocal-ffi/examples/net_helper.rs\<close>: the two loops of the standard library it
  calls, \<open>write_all\<close> and \<open>read_exact\<close>, the contract of a stream, and a concrete stream that plays
  a finite input. \<open>None\<close> as a result means that a call does not return.
\<close>

record 's blocking_ops =
  b_read :: "'s \<Rightarrow> nat \<Rightarrow> 's \<times> bytes io_result"
  b_write :: "'s \<Rightarrow> bytes \<Rightarrow> 's \<times> nat io_result"

definition write_all_error :: io_error where
  "write_all_error = Custom WriteZero ''failed to write whole buffer''"

definition read_exact_error :: io_error where
  "read_exact_error = Custom OtherKind ''failed to fill whole buffer''"

text \<open>Both loops go on after \<open>Interrupted\<close>.\<close>

partial_function (option) write_all ::
  "'s blocking_ops \<Rightarrow> 's \<Rightarrow> bytes \<Rightarrow> ('s \<times> unit io_result) option" where
  "write_all io s buf =
     (if buf = [] then Some (s, Ok ())
      else case b_write io s buf of
        (s', Inl e) \<Rightarrow> if io_kind e = Interrupted then write_all io s' buf else Some (s', Err e)
      | (s', Inr n) \<Rightarrow>
          if n = 0 then Some (s', Err write_all_error) else write_all io s' (drop n buf))"

partial_function (option) read_exact ::
  "'s blocking_ops \<Rightarrow> 's \<Rightarrow> nat \<Rightarrow> ('s \<times> bytes io_result) option" where
  "read_exact io s n =
     (if n = 0 then Some (s, Ok [])
      else case b_read io s n of
        (s', Inl e) \<Rightarrow> if io_kind e = Interrupted then read_exact io s' n else Some (s', Err e)
      | (s', Inr bs) \<Rightarrow>
          if bs = [] then Some (s', Err read_exact_error)
          else Option.bind (read_exact io s' (n - length bs)) (\<lambda>(s'', r).
            Some (s'', map_ok (\<lambda>rest. bs @ rest) r)))"

declare write_all.simps [code] read_exact.simps [code]

text \<open>
  The contract: \<open>rcvd\<close> and \<open>sent\<close> are what was read from and written to the stream so far.
\<close>

locale blocking_stream =
  fixes io :: "'s blocking_ops" and rcvd sent :: "'s \<Rightarrow> bytes"
  assumes reads: "b_read io s n = (s', r) \<Longrightarrow>
      sent s' = sent s \<and> (case r of Inr bs \<Rightarrow> rcvd s' = rcvd s @ bs \<and> length bs \<le> n | Inl e \<Rightarrow> rcvd s' = rcvd s)"
    and writes: "b_write io s buf = (s', w) \<Longrightarrow>
      rcvd s' = rcvd s \<and> (case w of Inr n \<Rightarrow> sent s' = sent s @ take n buf | Inl e \<Rightarrow> sent s' = sent s)"
begin

lemma write_all_sends:
  assumes "write_all io s buf = Some (s', r)"
  shows "rcvd s' = rcvd s \<and> (\<exists>rest. sent s' @ rest = sent s @ buf \<and> (r = Ok () \<longrightarrow> rest = []))"
proof -
  let ?P = "\<lambda>io' s buf res. io' = io \<longrightarrow> (case res of (s', r) \<Rightarrow>
    rcvd s' = rcvd s \<and> (\<exists>rest. sent s' @ rest = sent s @ buf \<and> (r = Ok () \<longrightarrow> rest = [])))"
  have "?P io s buf (s', r)"
  proof (rule write_all.raw_induct[where P = ?P, OF _ assms], intro impI)
    fix f io' s buf res
    assume IH: "\<And>io' s buf res. f io' s buf = Some res \<Longrightarrow> ?P io' s buf res" and "io' = io"
      and eq: "(if buf = [] then Some (s, Ok ())
        else case b_write io' s buf of
          (s', Inl e) \<Rightarrow> if io_kind e = Interrupted then f io' s' buf else Some (s', Err e)
        | (s', Inr n) \<Rightarrow> if n = 0 then Some (s', Err write_all_error) else f io' s' (drop n buf)) = Some res"
    obtain t w where w: "b_write io s buf = (t, w)" by (cases "b_write io s buf")
    show "case res of (s', r) \<Rightarrow> rcvd s' = rcvd s \<and>
      (\<exists>rest. sent s' @ rest = sent s @ buf \<and> (r = Ok () \<longrightarrow> rest = []))"
    proof (cases "buf = []")
      case True
      with eq show ?thesis by auto
    next
      case False
      show ?thesis
      proof (cases w)
        case (Inl e)
        with writes[OF w] have keep: "rcvd t = rcvd s" "sent t = sent s" by simp_all
        show ?thesis
        proof (cases "io_kind e = Interrupted")
          case True
          with eq False w Inl \<open>io' = io\<close> have "f io t buf = Some res" by simp
          from IH[OF this] keep show ?thesis by (auto split: prod.splits)
        qed (use eq False w Inl keep \<open>io' = io\<close> in auto)
      next
        case (Inr n)
        with writes[OF w] have keep: "rcvd t = rcvd s" "sent t = sent s @ take n buf" by simp_all
        show ?thesis
        proof (cases "n = 0")
          case False
          with eq \<open>buf \<noteq> []\<close> w Inr \<open>io' = io\<close> have "f io t (drop n buf) = Some res" by simp
          from IH[OF this] keep show ?thesis by (auto split: prod.splits)
        qed (use eq False w Inr keep \<open>io' = io\<close> in auto)
      qed
    qed
  qed
  then show ?thesis by simp
qed

lemma read_exact_reads:
  assumes "read_exact io s n = Some (s', Ok bs)"
  shows "rcvd s' = rcvd s @ bs \<and> sent s' = sent s \<and> length bs = n"
proof -
  let ?P = "\<lambda>io' s n res. io' = io \<longrightarrow> (case res of (s', Inl (e :: io_error)) \<Rightarrow> True
    | (s', Inr bs) \<Rightarrow> rcvd s' = rcvd s @ bs \<and> sent s' = sent s \<and> length bs = n)"
  have "?P io s n (s', Ok bs)"
  proof (rule read_exact.raw_induct[where P = ?P, OF _ assms], intro impI)
    fix f io' s n res
    assume IH: "\<And>io' s n res. f io' s n = Some res \<Longrightarrow> ?P io' s n res" and "io' = io"
      and eq: "(if n = 0 then Some (s, Ok [])
        else case b_read io' s n of
          (s', Inl e) \<Rightarrow> if io_kind e = Interrupted then f io' s' n else Some (s', Err e)
        | (s', Inr bs) \<Rightarrow> if bs = [] then Some (s', Err read_exact_error)
            else Option.bind (f io' s' (n - length bs)) (\<lambda>(s'', r). Some (s'', map_ok (\<lambda>rest. bs @ rest) r))) = Some res"
    obtain t r where r: "b_read io s n = (t, r)" by (cases "b_read io s n")
    show "case res of (s', Inl e) \<Rightarrow> True
      | (s', Inr bs) \<Rightarrow> rcvd s' = rcvd s @ bs \<and> sent s' = sent s \<and> length bs = n"
    proof (cases "n = 0")
      case True
      with eq show ?thesis by auto
    next
      case False
      show ?thesis
      proof (cases r)
        case (Inl e)
        with reads[OF r] have keep: "rcvd t = rcvd s" "sent t = sent s" by simp_all
        show ?thesis
        proof (cases "io_kind e = Interrupted")
          case True
          with eq False r Inl \<open>io' = io\<close> have "f io t n = Some res" by simp
          from IH[OF this] keep show ?thesis by (auto split: prod.splits sum.splits)
        qed (use eq False r Inl keep \<open>io' = io\<close> in auto)
      next
        case (Inr got)
        with reads[OF r] have keep: "rcvd t = rcvd s @ got" "sent t = sent s" "length got \<le> n" by simp_all
        show ?thesis
        proof (cases "got = []")
          case False
          with eq \<open>n \<noteq> 0\<close> r Inr \<open>io' = io\<close> obtain u w where "f io t (n - length got) = Some (u, w)"
            and res: "res = (u, map_ok (\<lambda>rest. got @ rest) w)" by (auto simp: bind_eq_Some_conv)
          from IH[OF this(1)] keep res show ?thesis by (cases w) (auto simp: map_ok_def)
        qed (use eq False r Inr keep \<open>io' = io\<close> in auto)
      qed
    qed
  qed
  then show ?thesis by simp
qed

end

text \<open>
  A stream with a finite number of bytes to come (\<open>avail\<close>), whose writes make progress.
\<close>

locale eager_stream = blocking_stream +
  fixes avail :: "'a \<Rightarrow> nat"
  assumes read_avail: "b_read io s n = (s', Ok bs) \<Longrightarrow> avail s' + length bs \<le> avail s"
    and write_avail: "b_write io s buf = (s', w) \<Longrightarrow> avail s' = avail s"
    and write_some: "buf \<noteq> [] \<Longrightarrow> \<exists>s' n. b_write io s buf = (s', Ok n) \<and> 0 < n"
begin

lemma write_all_completes: "\<exists>s'. write_all io s buf = Some (s', Ok ()) \<and> avail s' = avail s"
proof (induction buf arbitrary: s rule: measure_induct_rule[of length])
  case (less buf)
  show ?case
  proof (cases "buf = []")
    case True
    then show ?thesis by (simp add: write_all.simps)
  next
    case False
    then obtain t n where w: "b_write io s buf = (t, Ok n)" "0 < n" using write_some by blast
    have "length (drop n buf) < length buf" using False w(2) by simp
    from less.IH[OF this, of t] write_avail[OF w(1)] False w show ?thesis
      by (subst write_all.simps) simp
  qed
qed

end

section \<open>A stream in memory\<close>

text \<open>It hands out what is left of its input and takes at most seven bytes of every write.\<close>

record duct =
  d_input :: bytes
  d_rcvd :: bytes
  d_sent :: bytes

definition duct_ops :: "duct blocking_ops" where
  "duct_ops =
     \<lparr>b_read = (\<lambda>s n. (s\<lparr>d_input := drop n (d_input s), d_rcvd := d_rcvd s @ take n (d_input s)\<rparr>,
        Inr (take n (d_input s)))),
      b_write = (\<lambda>s buf. (s\<lparr>d_sent := d_sent s @ take 7 buf\<rparr>, Inr (min 7 (length buf))))\<rparr>"

interpretation duct: eager_stream duct_ops d_rcvd d_sent "\<lambda>s. length (d_input s)"
  by unfold_locales (auto simp: duct_ops_def min_def)

end
