(* ===== verification/Net_Helper.thy ===== *)
theory Net_Helper
  imports Std_Net Ffi_Calls
begin

text \<open>
  \<open>src/native/sslocal-ffi/examples/net_helper.rs\<close>, the program the end-to-end test drops into
  its network namespaces: the echo server, the client that checks it, opening a tun device by
  name, and handing it to the C ABI. The sockets are blocking streams (\<open>Std_Net\<close>), the system calls
  on the tun device are the argument \<open>net\<close>, and \<open>shadowsocks_service\<close> is a parameter.
\<close>

section \<open>The command line\<close>

datatype role =
    Run_Echo string
  | Run_Server string
  | Run_Tun string string
  | Run_Client string string
  | Usage

text \<open>\<open>arg\<close>: \<open>None\<close> is the usage message and exit code 2.\<close>

definition arg :: "string list \<Rightarrow> nat \<Rightarrow> string option" where
  "arg args i = (if i < length args then Some (args ! i) else None)"

definition net_helper_main :: "string list \<Rightarrow> role" where
  "net_helper_main args =
     (let from_args = (\<lambda>r. case r of Some role \<Rightarrow> role | None \<Rightarrow> Usage) in
      if length args < 2 then Usage
      else if args ! 1 = ''echo'' then from_args (map_option Run_Echo (arg args 2))
      else if args ! 1 = ''server'' then from_args (map_option Run_Server (arg args 2))
      else if args ! 1 = ''tun'' then
        from_args (Option.bind (arg args 2) (\<lambda>config. map_option (Run_Tun config) (arg args 3)))
      else if args ! 1 = ''client'' then
        from_args (Option.bind (arg args 2) (\<lambda>target. map_option (Run_Client target) (arg args 3)))
      else Usage)"

section \<open>The echo server\<close>

text \<open>The thread of one connection; a failed accept ends its thread at once (\<open>run_echo\<close>).\<close>

partial_function (option) echo_connection :: "'s blocking_ops \<Rightarrow> 's \<Rightarrow> 's option" where
  "echo_connection io s =
     (case b_read io s 4096 of
        (s', Inl e) \<Rightarrow> Some s'
      | (s', Inr bs) \<Rightarrow>
          if bs = [] then Some s'
          else Option.bind (write_all io s' bs) (\<lambda>(s'', w).
            case w of Inl e \<Rightarrow> Some s'' | Inr _ \<Rightarrow> echo_connection io s''))"

declare echo_connection.simps [code]

text \<open>\<open>bound\<close> is the outcome of \<open>TcpListener::bind\<close> with the connections that come in; \<open>None\<close> is a panic.\<close>

definition run_echo :: "'s blocking_ops \<Rightarrow> 's io_result list io_result \<Rightarrow> 's option list option" where
  "run_echo io bound =
     (case bound of
        Inl e \<Rightarrow> None
      | Inr incoming \<Rightarrow>
          Some (map (\<lambda>stream. case stream of Inl e \<Rightarrow> None | Inr s \<Rightarrow> echo_connection io s) incoming))"

section \<open>The shadowsocks server\<close>

text \<open>
  \<open>load\<close> is \<open>Config::load_from_str\<close>, \<open>runtime\<close> the outcome of \<open>Runtime::new\<close>, \<open>serve\<close> that of
  \<open>block_on\<close> of \<open>shadowsocks_service::run_server\<close>. The result is the exit code, or a panic with the
  message of its \<open>expect\<close>.
\<close>

datatype server_exit = Exit_Code int | Panic string

definition run_server ::
  "(string \<Rightarrow> 'e + 'c) \<Rightarrow> unit io_result \<Rightarrow> ('c \<Rightarrow> unit io_result) \<Rightarrow> string \<Rightarrow> server_exit" where
  "run_server load runtime serve config_json =
     (case load config_json of
        Inl e \<Rightarrow> Panic ''server config''
      | Inr config \<Rightarrow>
          (case runtime of
             Inl e \<Rightarrow> Panic ''runtime''
           | Inr _ \<Rightarrow> (case serve config of Inl e \<Rightarrow> Panic ''run_server'' | Inr _ \<Rightarrow> Exit_Code 0)))"

section \<open>The client\<close>

text \<open>
  One attempt on the outcome of \<open>TcpStream::connect\<close>; \<open>timeouts\<close> are the outcomes of
  \<open>set_read_timeout\<close> and \<open>set_write_timeout\<close> with five seconds.
\<close>

definition try_client ::
  "'s blocking_ops \<Rightarrow> 's io_result \<Rightarrow> unit io_result \<times> unit io_result \<Rightarrow> string \<Rightarrow> bool io_result option" where
  "try_client io connected timeouts message =
     (case connected of
        Inl e \<Rightarrow> Some (Err e)
      | Inr s \<Rightarrow>
          (case and_then (fst timeouts) (\<lambda>_. snd timeouts) of
             Inl e \<Rightarrow> Some (Err e)
           | Inr _ \<Rightarrow>
               Option.bind (write_all io s (as_bytes message)) (\<lambda>(s', w).
                 case w of
                   Inl e \<Rightarrow> Some (Err e)
                 | Inr _ \<Rightarrow>
                     map_option (\<lambda>(_, r). map_ok (\<lambda>buf. buf = as_bytes message) r)
                       (read_exact io s' (length message)))))"

datatype client_action = Print_Ok | Mismatch nat | Failed_Attempt nat io_error | Pause | Give_Up_Retries

text \<open>
  The attempts of a client, given what each comes to, and the exit code. \<open>None\<close> is an attempt
  that does not return.
\<close>

fun client_attempts :: "(nat \<Rightarrow> bool io_result option) \<Rightarrow> nat list \<Rightarrow> (client_action list \<times> int) option" where
  "client_attempts try_nth [] = Some ([Give_Up_Retries], 1)"
| "client_attempts try_nth (attempt # rest) =
     Option.bind (try_nth attempt) (\<lambda>r.
       case r of
         Inr True \<Rightarrow> Some ([Print_Ok], 0)
       | Inr False \<Rightarrow>
           map_option (\<lambda>(acts, code). (Mismatch attempt # Pause # acts, code)) (client_attempts try_nth rest)
       | Inl e \<Rightarrow>
           map_option (\<lambda>(acts, code). (Failed_Attempt attempt e # Pause # acts, code)) (client_attempts try_nth rest))"

definition run_client :: "(nat \<Rightarrow> bool io_result option) \<Rightarrow> (client_action list \<times> int) option" where
  "run_client try_nth = client_attempts try_nth [0..<30]"

section \<open>The tun device\<close>

text \<open>
  What \<open>open_tun\<close> asks of the system: opening \<open>/dev/net/tun\<close>, the ioctl \<open>TUNSETIFF\<close> with the name
  and the flags of the request, and the last error.
\<close>

record tun_os =
  tun_open :: "int io_result"
  tun_setiff :: "int \<Rightarrow> string \<Rightarrow> int \<Rightarrow> int"
  tun_last_error :: io_error

definition IFNAMSIZ :: nat where "IFNAMSIZ = 16"

text \<open>\<open>ifr_name\<close> of a zeroed request: up to fifteen bytes of the name.\<close>

definition ifr_name :: "string \<Rightarrow> string" where
  "ifr_name ifname =
     (let name = take (IFNAMSIZ - 1) ifname in name @ replicate (IFNAMSIZ - length name) (CHR 0x00))"

text \<open>\<open>fds\<close> are the open descriptors.\<close>

definition open_tun :: "tun_os \<Rightarrow> string \<Rightarrow> int list \<Rightarrow> int io_result \<times> int list" where
  "open_tun net ifname fds =
     (case tun_open net of
        Inl e \<Rightarrow> (Err e, fds)
      | Inr fd \<Rightarrow>
          if tun_setiff net fd (ifr_name ifname) (0x0001 + 0x1000) < 0
          then (Err (tun_last_error net), remove1 fd (fd # fds))
          else (Ok fd, fd # fds))"

text \<open>
  \<open>run_tun\<close>. \<open>None\<close> is a panic: no tun device, or a NUL in the config. The message of a failed start
  goes through \<open>to_string_lossy\<close> (\<open>lossy\<close>).
\<close>

datatype tun_outcome = Routing | Tun_Failed int string

definition run_tun ::
  "('j, 'c, 'l, 'a, 'e) ffi_lib \<Rightarrow> ('lis, 'con) os \<Rightarrow> tun_os \<Rightarrow> (string \<Rightarrow> string) \<Rightarrow> string \<Rightarrow> string \<Rightarrow>
   ('c runtime, 'a) ffi \<Rightarrow> (tun_outcome \<times> ('c runtime, 'a) ffi) option" where
  "run_tun lib os net lossy config_json ifname s =
     (case fst (open_tun net ifname []) of
        Inl e \<Rightarrow> None
      | Inr fd \<Rightarrow>
          if CHR 0x00 \<in> set config_json then None
          else Option.bind (sslocal_start_tun_fd lib os (Some config_json) fd s) (\<lambda>(code, s').
            if code \<noteq> 0 then
              (case sslocal_last_error s' of (err, s'') \<Rightarrow>
                 Some (Tun_Failed code
                   (case Option.bind err (heap s'') of None \<Rightarrow> ''<none>'' | Some text \<Rightarrow> lossy text), s''))
            else Some (Routing, s')))"

section \<open>What the client and the server do\<close>

context blocking_stream
begin

text \<open>Whatever happens, the echo server has written back a beginning of what it has read.\<close>

lemma echo_prefix:
  assumes "echo_connection io s = Some s'" and "rcvd s = sent s"
  shows "prefix (sent s') (rcvd s')"
proof -
  let ?P = "\<lambda>io' s s'. io' = io \<longrightarrow> rcvd s = sent s \<longrightarrow> prefix (sent s') (rcvd s')"
  have "?P io s s'"
  proof (rule echo_connection.raw_induct[where P = ?P, OF _ assms(1)], intro impI)
    fix f io' s res
    assume IH: "\<And>io' s res. f io' s = Some res \<Longrightarrow> ?P io' s res" and "io' = io" and same: "rcvd s = sent s"
      and eq: "(case b_read io' s 4096 of
          (s', Inl e) \<Rightarrow> Some s'
        | (s', Inr bs) \<Rightarrow> if bs = [] then Some s'
            else Option.bind (write_all io' s' bs) (\<lambda>(s'', w).
              case w of Inl e \<Rightarrow> Some s'' | Inr _ \<Rightarrow> f io' s'')) = Some res"
    obtain t r where r: "b_read io s 4096 = (t, r)" by (cases "b_read io s 4096")
    show "prefix (sent res) (rcvd res)"
    proof (cases r)
      case (Inl e)
      with reads[OF r] eq r same \<open>io' = io\<close> show ?thesis by auto
    next
      case (Inr bs)
      with reads[OF r] have t: "rcvd t = rcvd s @ bs" "sent t = sent s" by simp_all
      show ?thesis
      proof (cases "bs = []")
        case True
        with eq r Inr t same \<open>io' = io\<close> show ?thesis by auto
      next
        case False
        with eq r Inr \<open>io' = io\<close> obtain u w where w: "write_all io t bs = Some (u, w)"
          and res: "(case w of Inl e \<Rightarrow> Some u | Inr _ \<Rightarrow> f io u) = Some res" by (auto simp: bind_eq_Some_conv)
        from write_all_sends[OF w] obtain rest where u: "rcvd u = rcvd t" "sent u @ rest = sent t @ bs"
          "w = Ok () \<longrightarrow> rest = []" by blast
        show ?thesis
        proof (cases w)
          case (Inl e)
          with res u t same show ?thesis by (metis Inl old.sum.simps(5) option.inject prefixI)
        next
          case (Inr x)
          with res have "f io u = Some res" by simp
          moreover have "rcvd u = sent u" using u t same Inr by simp
          ultimately show ?thesis using IH by blast
        qed
      qed
    qed
  qed
  with assms(2) show ?thesis by simp
qed

end

context eager_stream
begin

lemma echo_completes:
  assumes "rcvd s = sent s"
  shows "\<exists>s'. echo_connection io s = Some s' \<and> sent s' = rcvd s'"
  using assms
proof (induction "avail s" arbitrary: s rule: less_induct)
  case less
  obtain t r where r: "b_read io s 4096 = (t, r)" by (cases "b_read io s 4096")
  show ?case
  proof (cases r)
    case (Inl e)
    with reads[OF r] less.prems r show ?thesis by (subst echo_connection.simps) simp
  next
    case (Inr bs)
    with reads[OF r] have t: "rcvd t = rcvd s @ bs" "sent t = sent s" by simp_all
    show ?thesis
    proof (cases "bs = []")
      case True
      with t less.prems r Inr show ?thesis by (subst echo_connection.simps) simp
    next
      case False
      obtain u where u: "write_all io t bs = Some (u, Ok ())" "avail u = avail t"
        using write_all_completes by blast
      with write_all_sends[OF u(1)] t less.prems have "rcvd u = sent u" by simp
      moreover have "avail u < avail s" using read_avail[of s 4096 t bs] r Inr u(2) False by (cases bs) auto
      ultimately show ?thesis using less.hyps[of u] r Inr False u(1)
        by (subst echo_connection.simps) simp
    qed
  qed
qed

end

section \<open>The tun device keeps its name\<close>

lemma open_tun_Ok:
  "open_tun net ifname fds = (Ok fd, fds') \<longleftrightarrow>
     tun_open net = Ok fd \<and> 0 \<le> tun_setiff net fd (ifr_name ifname) 0x1001 \<and> fds' = fd # fds"
  by (auto simp: open_tun_def not_less split: sum.splits if_splits)

lemma open_tun_Err: "open_tun net ifname fds = (Err e, fds') \<Longrightarrow> fds' = fds"
  by (auto simp: open_tun_def split: sum.splits if_splits)

lemma takeWhile_ifr_name:
  assumes "length ifname < IFNAMSIZ" and "CHR 0x00 \<notin> set ifname"
  shows "takeWhile (\<lambda>c. c \<noteq> CHR 0x00) (ifr_name ifname) = ifname"
proof -
  have "ifr_name ifname = ifname @ CHR 0x00 # replicate (IFNAMSIZ - length ifname - 1) (CHR 0x00)"
    using assms(1) by (simp add: ifr_name_def IFNAMSIZ_def Let_def flip: replicate_Suc)
  moreover have "takeWhile (\<lambda>c. c \<noteq> CHR 0x00) (ifname @ CHR 0x00 # z) = ifname" for z
    using assms(2) by (subst takeWhile_append2) auto
  ultimately show ?thesis by simp
qed

lemma attach_tun_fd_Ok:
  assumes "attach_tun_fd lib os fd config = (Ok config', fds)"
  obtains i l0 where "tun_index lib config = Some i"
    "l0 = lib_set_tun_fd lib (lib_set_tun lib (lib_locals lib config ! i)) (os_dup os fd)"
    "config' = lib_set_locals lib config ((lib_locals lib config)[i :=
       (if lib_tun_name lib l0 = None
        then (case recover_tun_name os fd of Some name \<Rightarrow> lib_set_tun_name lib l0 name | None \<Rightarrow> l0)
        else l0)])"
  using assms by (auto simp: attach_tun_fd_def Let_def split: option.splits if_splits)

text \<open>How a verdict of the client and an outcome of \<open>run_tun\<close> come about.\<close>

lemma try_client_Ok:
  assumes "try_client io (Ok s) timeouts message = Some (Ok verdict)"
  obtains t u buf where "write_all io s (as_bytes message) = Some (t, Ok ())"
    "read_exact io t (length message) = Some (u, Ok buf)" "verdict \<longleftrightarrow> buf = as_bytes message"
proof (cases "and_then (fst timeouts) (\<lambda>_. snd timeouts)")
  case (Inl e)
  with assms show ?thesis by (simp add: try_client_def)
next
  case Inr
  with assms obtain t w where w: "write_all io s (as_bytes message) = Some (t, w)"
    and rest: "(case w of Inl e \<Rightarrow> Some (Err e)
       | Inr _ \<Rightarrow> map_option (\<lambda>(_, r). map_ok (\<lambda>buf. buf = as_bytes message) r)
           (read_exact io t (length message))) = Some (Ok verdict)"
    by (auto simp: try_client_def bind_eq_Some_conv)
  show ?thesis
  proof (cases w)
    case (Inl e)
    with rest show ?thesis by simp
  next
    case (Inr x)
    with rest obtain u r where "read_exact io t (length message) = Some (u, r)"
      and "map_ok (\<lambda>buf. buf = as_bytes message) r = Ok verdict" by auto
    moreover from this(2) obtain buf where "r = Ok buf" "verdict \<longleftrightarrow> buf = as_bytes message"
      by (cases r) (auto simp: map_ok_def)
    ultimately show ?thesis using that w Inr by simp
  qed
qed

lemma run_tun_cases:
  assumes "run_tun lib os net lossy config_json ifname s = Some (outcome, s')"
  obtains fd code s1 where "tun_open net = Ok fd" "0 \<le> tun_setiff net fd (ifr_name ifname) 0x1001"
    "sslocal_start_tun_fd lib os (Some config_json) fd s = Some (code, s1)"
    "if code = 0 then outcome = Routing \<and> s' = s1
     else s' = snd (sslocal_last_error s1) \<and> outcome = Tun_Failed code
       (case Option.bind (fst (sslocal_last_error s1)) (heap s') of None \<Rightarrow> ''<none>'' | Some text \<Rightarrow> lossy text)"
proof -
  obtain fd where "open_tun net ifname [] = (Ok fd, [fd])"
    using assms by (cases "tun_open net") (auto simp: run_tun_def open_tun_def split: if_splits)
  with assms obtain code s1 where open_fd: "fst (open_tun net ifname []) = Ok fd" "tun_open net = Ok fd"
      "0 \<le> tun_setiff net fd (ifr_name ifname) 0x1001"
    and start: "sslocal_start_tun_fd lib os (Some config_json) fd s = Some (code, s1)"
    by (auto simp: run_tun_def open_tun_Ok bind_eq_Some_conv split: if_splits)
  have "if code = 0 then outcome = Routing \<and> s' = s1
     else s' = snd (sslocal_last_error s1) \<and> outcome = Tun_Failed code
       (case Option.bind (fst (sslocal_last_error s1)) (heap s') of None \<Rightarrow> ''<none>'' | Some text \<Rightarrow> lossy text)"
    using assms open_fd(1) start by (simp add: run_tun_def split: if_splits prod.splits)
  with open_fd(2,3) start show ?thesis by (rule that)
qed

section \<open>Properties\<close>

text \<open>
  The echo server answers a client with exactly what it was sent: over a stream with a finite
  input, cut in any way, and writes that make progress, by any amount, its loop returns and has
  written back all it has read.
\<close>

theorem echo_echoes:
  assumes "eager_stream io rcvd sent avail" and "rcvd s = []" and "sent s = []"
  shows "\<exists>s'. echo_connection io s = Some s' \<and> sent s' = rcvd s'"
  using eager_stream.echo_completes[OF assms(1)] assms(2,3) by metis

theorem echo_echoes_witness:
  "\<exists>s'. echo_connection duct_ops \<lparr>d_input = [1, 2, 3, 4, 5, 6, 7, 8, 9], d_rcvd = [], d_sent = []\<rparr> = Some s' \<and>
     d_sent s' = d_rcvd s'"
  by (rule echo_echoes[OF duct.eager_stream_axioms]) simp_all

text \<open>
  The client never reports a mismatch against a peer that echoes, that is one from which never
  anything is read but a beginning of what was sent: if an attempt returns a verdict at all, the
  verdict is that the payload came back.
\<close>

theorem client_accepts_echo:
  assumes "blocking_stream io rcvd sent" and "\<And>s. prefix (rcvd s) (sent s)"
    and "sent s = []" and "try_client io (Ok s) timeouts message = Some (Ok verdict)"
  shows "verdict"
proof -
  obtain t u buf where w: "write_all io s (as_bytes message) = Some (t, Ok ())"
    and r: "read_exact io t (length message) = Some (u, Ok buf)" and v: "verdict \<longleftrightarrow> buf = as_bytes message"
    by (rule try_client_Ok[OF assms(4)])
  have "rcvd s = []" using assms(2)[of s] assms(3) by simp
  with blocking_stream.write_all_sends[OF assms(1) w] blocking_stream.read_exact_reads[OF assms(1) r] assms(3)
  have "rcvd u = buf" "sent u = as_bytes message" "length buf = length message" by auto
  with assms(2)[of u] v show ?thesis by (metis append_eq_conv_conj length_as_bytes prefix_def take_all_iff order_refl)
qed

text \<open>A peer that echoes: the state is what was sent and how much of it was read back.\<close>

definition echo_link :: "(bytes \<times> nat) blocking_ops" where
  "echo_link =
     \<lparr>b_read = (\<lambda>(out, k) n. ((out, min (length out) (k + n)), Inr (take n (drop k out)))),
      b_write = (\<lambda>(out, k) buf. ((out @ take 2 buf, min k (length out)), Inr (min 2 (length buf))))\<rparr>"

interpretation echo_peer: blocking_stream echo_link "\<lambda>(out, k). take k out" fst
  by unfold_locales (auto simp: echo_link_def take_add min_def split: if_splits)

theorem client_accepts_echo_witness:
  "\<exists>v. try_client echo_link (Ok ([], 0)) (Ok (), Ok ()) ''hello'' = Some (Ok v) \<and> v"
proof -
  have "try_client echo_link (Ok ([], 0)) (Ok (), Ok ()) ''hello'' = Some (Ok True)" by code_simp
  with client_accepts_echo[OF echo_peer.blocking_stream_axioms _ _ this] show ?thesis
    by (auto simp: take_is_prefix)
qed


definition sample_net :: tun_os where
  "sample_net =
     \<lparr>tun_open = Inr 5, tun_setiff = (\<lambda>_ name _. if name = ifr_name ''t'' then 0 else - 1),
      tun_last_error = Os 1\<rparr>"

definition sample_tun_os :: "(unit, unit) os" where
  "sample_tun_os = sample_os\<lparr>os_tungetiff := (\<lambda>_. Some (ifr_name ''t''))\<rparr>"


end
