(* ===== verification/Unit_Tests_Plugin.thy ===== *)
theory Unit_Tests_Plugin
  imports Plugin
begin

text \<open>
  The unit tests of \<open>src/native/sslocal-ffi/src/plugin.rs\<close> and \<open>v2ray_plugin.rs\<close>, over the definitions
  of \<open>Plugin\<close> and \<open>V2ray_Plugin\<close>: each test is a Boolean, its assertions in the order of the source.
  They tie the model to what the authors say the code does, on their own samples.
\<close>

text \<open>\<open>Result::expect\<close>, \<open>unwrap\<close> and \<open>unwrap_err\<close>, with the assertions that follow; a panic is \<open>False\<close>.\<close>

definition expects :: "'e + 'a \<Rightarrow> ('a \<Rightarrow> bool) \<Rightarrow> bool" where
  "expects r assertions = (case r of Inl e \<Rightarrow> False | Inr x \<Rightarrow> assertions x)"

definition expects_err :: "'e + 'a \<Rightarrow> ('e \<Rightarrow> bool) \<Rightarrow> bool" where
  "expects_err r assertions = (case r of Inl e \<Rightarrow> assertions e | Inr x \<Rightarrow> False)"

abbreviation parsed_opts :: "string \<Rightarrow> unit plugin_error + v2ray_config" where
  "parsed_opts s \<equiv> parse_opts s"

abbreviation parsed_plugin :: "string \<Rightarrow> string \<Rightarrow> unit plugin_error + plugin_kind" where
  "parsed_plugin name opts \<equiv> parse_plugin name opts"

section \<open>Tests of \<open>v2ray_plugin.rs\<close>\<close>

definition parse_websocket_mux :: bool where
  "parse_websocket_mux =
     expects (parsed_opts ''mode=websocket;mux=1;host=example.com;path=/ws'') (\<lambda>cfg.
       v_mode cfg = Websocket \<and> \<not> v_tls cfg \<and> v_mux cfg \<and> v_host cfg = ''example.com'' \<and>
       v_path cfg = ''/ws'' \<and> \<not> v_skip_cert_verify cfg)"

definition parse_tls_websocket_mux_skip_verify :: bool where
  "parse_tls_websocket_mux_skip_verify =
     expects (parsed_opts ''mode=websocket;tls;mux=1;host=example.com;path=/ws;skip-cert-verify=true'') (\<lambda>cfg.
       v_tls cfg \<and> v_mux cfg \<and> v_skip_cert_verify cfg \<and> v_host cfg = ''example.com'' \<and>
       v_path cfg = ''/ws'')"

definition parse_defaults_on_empty :: bool where
  "parse_defaults_on_empty =
     expects (parsed_opts []) (\<lambda>cfg.
       v_mode cfg = Websocket \<and> \<not> v_tls cfg \<and> v_path cfg = ''/'' \<and> \<not> v_mux cfg \<and> v_host cfg = [])"

definition parse_bare_tls_and_mux :: bool where
  "parse_bare_tls_and_mux = expects (parsed_opts ''tls;mux'') (\<lambda>cfg. v_tls cfg \<and> v_mux cfg)"

definition parse_unknown_key_ignored :: bool where
  "parse_unknown_key_ignored =
     expects (parsed_opts ''mode=websocket;foo=bar;path=/ws'') (\<lambda>cfg. v_path cfg = ''/ws'')"

definition parse_bad_mode_errors :: bool where
  "parse_bad_mode_errors = expects_err (parsed_opts ''mode=quic'') (\<lambda>_. True)"

definition parse_header_opt :: bool where
  "parse_header_opt =
     expects (parsed_opts ''mode=websocket;header=X-Foo:bar;host=example.com'') (\<lambda>cfg.
       v_headers cfg ''X-Foo'' = Some ''bar'')"

section \<open>Tests of \<open>plugin.rs\<close>\<close>

definition parse_obfs_local_http :: bool where
  "parse_obfs_local_http =
     expects (parsed_plugin ''obfs-local'' ''obfs=http;obfs-host=www.example.com'') (\<lambda>kind.
       case kind of SimpleObfsHttp host \<Rightarrow> host = ''www.example.com'' | _ \<Rightarrow> False)"

definition parse_simple_obfs_tls :: bool where
  "parse_simple_obfs_tls =
     expects (parsed_plugin ''simple-obfs'' ''obfs=tls;obfs-host=cdn.example.com'') (\<lambda>kind.
       case kind of SimpleObfsTls host \<Rightarrow> host = ''cdn.example.com'' | _ \<Rightarrow> False)"

definition parse_obfs_missing_mode_errors :: bool where
  "parse_obfs_missing_mode_errors =
     expects_err (parsed_plugin ''obfs-local'' ''obfs-host=www.example.com'') (\<lambda>err.
       case err of InvalidOptions _ \<Rightarrow> True | _ \<Rightarrow> False)"

definition parse_obfs_unknown_mode_errors :: bool where
  "parse_obfs_unknown_mode_errors =
     expects_err (parsed_plugin ''obfs-local'' ''obfs=quic'') (\<lambda>err.
       case err of InvalidOptions _ \<Rightarrow> True | _ \<Rightarrow> False)"

definition parse_v2ray_plugin_opts :: bool where
  "parse_v2ray_plugin_opts =
     expects (parsed_plugin ''v2ray-plugin'' ''tls;host=example.com;path=/ws'') (\<lambda>kind.
       case kind of
         V2ray cfg \<Rightarrow> v_mode cfg = Websocket \<and> v_tls cfg \<and> v_host cfg = ''example.com'' \<and> v_path cfg = ''/ws''
       | _ \<Rightarrow> False)"

text \<open>\<open>libc::EBADF\<close>.\<close>

definition EBADF :: int where "EBADF = 9"

definition accept_errors_are_classified :: bool where
  "accept_errors_are_classified =
     (is_transient_accept_error (Simple ConnectionAborted) \<and>
      is_transient_accept_error (Os EMFILE) \<and>
      \<not> is_transient_accept_error (Os EBADF) \<and>
      \<not> is_transient_accept_error (Simple InvalidInput))"

text \<open>\<open>show_io\<close> and \<open>show_transport\<close> are the texts of foreign errors, which this message does not contain.\<close>

definition parse_unsupported_plugin_errors :: "(io_error \<Rightarrow> string) \<Rightarrow> (unit \<Rightarrow> string) \<Rightarrow> bool" where
  "parse_unsupported_plugin_errors show_io show_transport =
     expects_err (parsed_plugin ''kcptun'' []) (\<lambda>err.
       (case err of Unsupported name \<Rightarrow> name = ''kcptun'' | _ \<Rightarrow> False) \<and>
       sublist ''HarmonyOS'' (show_plugin_error show_io show_transport err))"

lemma v2ray_plugin_tests:
  "parse_websocket_mux" "parse_tls_websocket_mux_skip_verify" "parse_defaults_on_empty"
  "parse_bare_tls_and_mux" "parse_unknown_key_ignored" "parse_bad_mode_errors" "parse_header_opt"
  by code_simp+

lemma plugin_tests:
  "parse_obfs_local_http" "parse_simple_obfs_tls" "parse_obfs_missing_mode_errors"
  "parse_obfs_unknown_mode_errors" "parse_v2ray_plugin_opts" "accept_errors_are_classified"
  by code_simp+

lemma unsupported_plugin_test: "parse_unsupported_plugin_errors show_io show_transport"
proof -
  have split: "show_plugin_error show_io show_transport (Unsupported ''kcptun'') =
      (''plugin '' @ [CHR 0x22] @ ''kcptun'' @ [CHR 0x22] @ '' is not supported: spawning external plugin '' @
       ''processes is impossible on '') @ ''HarmonyOS'' @
      (''; built-in plugins are '' @ ''obfs-local (simple-obfs) and v2ray-plugin'')"
    by simp
  have "sublist ''HarmonyOS'' (show_plugin_error show_io show_transport (Unsupported ''kcptun''))"
    unfolding split by (rule sublist_appendI)
  moreover have "parsed_plugin ''kcptun'' [] = Err (Unsupported ''kcptun'')" by (simp add: parse_plugin_def)
  ultimately show ?thesis by (simp add: parse_unsupported_plugin_errors_def expects_err_def)
qed

section \<open>Properties\<close>


end
