(* ===== verification/Unit_Tests_Ffi.thy ===== *)
theory Unit_Tests_Ffi
  imports Ffi_Calls Checked
begin

text \<open>
  The unit tests of \<open>src/native/sslocal-ffi/src/lib.rs\<close> over the definitions of \<open>Ffi\<close>. A test takes
  the statics to the statics after it, or fails (\<open>None\<close>: an assertion does not hold, or a panic).
  What the tests rely on of \<open>serde_json\<close>, of the core's config and of the parser of \<open>SocketAddr\<close>
  are the hypotheses \<open>test_library\<close>.

  The tests that run one after another pass, in any order. The lock \<open>GLOBAL_STATE\<close>, which is to
  keep them apart when cargo runs them in parallel, is not taken by every test that records an
  error; the last theorem shows what can happen then.
\<close>

section \<open>The tests\<close>

definition CARGO_PKG_VERSION :: string where
  "CARGO_PKG_VERSION = ''0.1.0''"

definition version_is_not_null :: bool where
  "version_is_not_null = (takeWhile (\<lambda>c. c \<noteq> CHR 0x00) sslocal_version = CARGO_PKG_VERSION)"

definition start_rejects_null_and_garbage ::
  "('j, 'c, 'l, 'a, 'e) ffi_lib \<Rightarrow> ('lis, 'con) os \<Rightarrow> ('c runtime, 'a) ffi \<Rightarrow> ('c runtime, 'a) ffi option" where
  "start_rejects_null_and_garbage lib os s = do {
     (code, s) \<leftarrow> sslocal_start lib os None s;
     assert_that (code = SSLOCAL_ERR_INVALID_ARG);
     (code, s) \<leftarrow> sslocal_start lib os (Some ''not json'') s;
     assert_that (code = SSLOCAL_ERR_BAD_CONFIG);
     let (message, s) = sslocal_last_error s;
     assert_that (message \<noteq> None);
     Some s
   }"

definition kcptun_config :: string where
  \<open>kcptun_config =
     ''{"server":"127.0.0.1","server_port":8388,"password":"p","method":"aes-256-gcm","plugin":"kcptun"}''\<close>

definition start_rejects_unsupported_plugin ::
  "('j, 'c, 'l, 'a, 'e) ffi_lib \<Rightarrow> ('lis, 'con) os \<Rightarrow> ('c runtime, 'a) ffi \<Rightarrow> ('c runtime, 'a) ffi option" where
  "start_rejects_unsupported_plugin lib os s = do {
     (code, s) \<leftarrow> sslocal_start lib os (Some kcptun_config) s;
     assert_that (code = SSLOCAL_ERR_BAD_CONFIG);
     let (message, s) = sslocal_last_error s;
     assert_that (message \<noteq> None);
     Some s
   }"

definition stop_without_start_fails :: "('rt, 'a) ffi \<Rightarrow> ('rt, 'a) ffi option" where
  "stop_without_start_fails s = do {
     let (code, s) = sslocal_stop s;
     assert_that (code = SSLOCAL_ERR_NOT_RUNNING);
     Some s
   }"

text \<open>The two halves of the test of the pointer, before and after the second error.\<close>

definition first_error :: string where
  "first_error = ''the first error''"

definition second_error :: string where
  "second_error = ''a second, much longer error message from another thread''"

definition hand_out_first :: "('rt, 'a) ffi \<Rightarrow> (nat option \<times> ('rt, 'a) ffi) option" where
  "hand_out_first s = do {
     let s = set_last_error first_error s;
     let (handed_out, s) = sslocal_last_error s;
     assert_that (handed_out \<noteq> None);
     Some (handed_out, s)
   }"

definition read_first :: "nat option \<Rightarrow> ('rt, 'a) ffi \<Rightarrow> ('rt, 'a) ffi option" where
  "read_first handed_out s = do {
     let s = set_last_error second_error s;
     text \<leftarrow> Option.bind handed_out (heap s);
     assert_that (text = first_error);
     Some s
   }"

definition last_error_pointer_outlives_a_concurrent_error :: "('rt, 'a) ffi \<Rightarrow> ('rt, 'a) ffi option" where
  "last_error_pointer_outlives_a_concurrent_error s = do {
     (handed_out, s) \<leftarrow> hand_out_first s;
     read_first handed_out s
   }"

definition set_stat_address_parses_and_clears ::
  "('j, 'c, 'l, 'a, 'e) ffi_lib \<Rightarrow> ('rt, 'a) ffi \<Rightarrow> ('rt, 'a) ffi option" where
  "set_stat_address_parses_and_clears lib s = do {
     let (code, s) = sslocal_set_stat_address lib (Some ''not an address'') s;
     assert_that (code = SSLOCAL_ERR_INVALID_ARG);
     let (message, s) = sslocal_last_error s;
     assert_that (message \<noteq> None);
     assert_that (Option.is_none (STAT_ADDR s));
     let (code, s) = sslocal_set_stat_address lib (Some ''127.0.0.1:65080'') s;
     assert_that (code = SSLOCAL_OK);
     assert_that (case (STAT_ADDR s, lib_parse_addr lib ''127.0.0.1:65080'') of
                    (Some addr, Inr parsed) \<Rightarrow> addr = parsed | _ \<Rightarrow> False);
     let (code, s) = sslocal_set_stat_address lib (Some ''not an address'') s;
     assert_that (code = SSLOCAL_ERR_INVALID_ARG);
     assert_that (case (STAT_ADDR s, lib_parse_addr lib ''127.0.0.1:65080'') of
                    (Some addr, Inr parsed) \<Rightarrow> addr = parsed | _ \<Rightarrow> False);
     let (code, s) = sslocal_set_stat_address lib (Some []) s;
     assert_that (code = SSLOCAL_OK);
     assert_that (Option.is_none (STAT_ADDR s));
     let (code, s) = sslocal_set_stat_address lib (Some ''127.0.0.1:65080'') s;
     assert_that (code = SSLOCAL_OK);
     let (code, s) = sslocal_set_stat_address lib None s;
     assert_that (code = SSLOCAL_OK);
     assert_that (Option.is_none (STAT_ADDR s));
     Some s
   }"

definition tun_config :: string where
  \<open>tun_config =
     ''{"locals":[{"protocol":"tun","tun_interface_address":"172.19.0.1/30"}],"server":"127.0.0.1","server_port":8388,"password":"p","method":"aes-256-gcm"}''\<close>

definition start_tun_fd_rejects_negative_fd ::
  "('j, 'c, 'l, 'a, 'e) ffi_lib \<Rightarrow> ('lis, 'con) os \<Rightarrow> ('c runtime, 'a) ffi \<Rightarrow> ('c runtime, 'a) ffi option" where
  "start_tun_fd_rejects_negative_fd lib os s = do {
     (code, s) \<leftarrow> sslocal_start_tun_fd lib os (Some tun_config) (- 1) s;
     assert_that (code = SSLOCAL_ERR_INVALID_ARG);
     Some s
   }"

definition no_locals_config :: string where
  \<open>no_locals_config =
     ''{"locals":[],"server":"127.0.0.1","server_port":8388,"password":"p","method":"aes-256-gcm"}''\<close>

definition start_tun_fd_requires_a_local ::
  "('j, 'c, 'l, 'a, 'e) ffi_lib \<Rightarrow> ('lis, 'con) os \<Rightarrow> ('c runtime, 'a) ffi \<Rightarrow> ('c runtime, 'a) ffi option" where
  "start_tun_fd_requires_a_local lib os s = do {
     (code, s) \<leftarrow> sslocal_start_tun_fd lib os (Some no_locals_config) 3 s;
     assert_that (code = SSLOCAL_ERR_BAD_CONFIG);
     Some s
   }"

text \<open>The tests that use the statics, and a run of some of them, one after another.\<close>

definition ffi_tests ::
  "('j, 'c, 'l, 'a, 'e) ffi_lib \<Rightarrow> ('lis, 'con) os \<Rightarrow>
   (('c runtime, 'a) ffi \<Rightarrow> ('c runtime, 'a) ffi option) list" where
  "ffi_tests lib os =
     [start_rejects_null_and_garbage lib os, start_rejects_unsupported_plugin lib os,
      stop_without_start_fails, last_error_pointer_outlives_a_concurrent_error,
      set_stat_address_parses_and_clears lib, start_tun_fd_rejects_negative_fd lib os,
      start_tun_fd_requires_a_local lib os]"

fun run_tests :: "('s \<Rightarrow> 's option) list \<Rightarrow> 's \<Rightarrow> 's option" where
  "run_tests [] s = Some s"
| "run_tests (test # tests) s = do { s \<leftarrow> test s; run_tests tests s }"

section \<open>What the tests rely on\<close>

text \<open>
  The text \<open>not json\<close> is not JSON; the configs of the tests are, with the fields they show; the one
  without locals is refused by the core's config or has no local; and \<open>not an address\<close> is no address,
  \<open>127.0.0.1:65080\<close> is one. The system can create a runtime.
\<close>

definition test_library :: "('j, 'c, 'l, 'a, 'e) ffi_lib \<Rightarrow> ('lis, 'con) os \<Rightarrow> bool" where
  "test_library lib os \<longleftrightarrow>
     (\<exists>e. lib_from_str lib ''not json'' = Inl e) \<and>
     (\<exists>v. lib_from_str lib kcptun_config = Inr v \<and> json_str (lib_json lib) v ''plugin'' = Some ''kcptun'') \<and>
     (\<exists>v. lib_from_str lib no_locals_config = Inr v \<and> \<not> has_plugin (lib_json lib) v \<and>
        server_entries (lib_json lib) v = [] \<and>
        (\<forall>config. lib_load_config lib (lib_to_string lib v) = Inr config \<longrightarrow> lib_locals lib config = [])) \<and>
     (\<exists>e. lib_parse_addr lib ''not an address'' = Inl e) \<and>
     (\<exists>a. lib_parse_addr lib ''127.0.0.1:65080'' = Inr a) \<and>
     os_runtime os = None"

section \<open>The tests pass\<close>

text \<open>What every test finds and leaves: nothing runs and no address is set.\<close>

definition quiet :: "('rt, 'a) ffi \<Rightarrow> bool" where
  "quiet s \<longleftrightarrow> ffi_wf s \<and> INSTANCE s = None \<and> STAT_ADDR s = None"

lemma quiet_initial: "quiet (ffi_initial :: ('rt, 'a) ffi)"
  using ffi_initial_wf by (simp add: quiet_def ffi_initial_def)

lemma quiet_error: "quiet s \<Longrightarrow> quiet (set_last_error m s)"
  by (simp add: quiet_def set_last_error_wf)

lemma quiet_report: "quiet s \<Longrightarrow> quiet (snd (report f s))"
  by (simp add: report_def quiet_error)

lemma quiet_address: "quiet s \<Longrightarrow> s\<lparr>STAT_ADDR := None\<rparr> = s"
  by (cases s) (simp add: quiet_def)

text \<open>After an error a message is handed out, and it is that error.\<close>

lemma message_after_error:
  assumes "ffi_wf s"
  obtains p s' where "sslocal_last_error (set_last_error m s) = (Some p, s')"
    "LAST_ERROR_HANDED_OUT s' = Some p" "heap s' p = Some (c_string_new m)" "ffi_wf s'"
    "INSTANCE s' = INSTANCE s" "STAT_ADDR s' = STAT_ADDR s"
proof -
  let ?t = "set_last_error m s"
  have wf: "ffi_wf ?t" using set_last_error_wf[OF assms] .
  obtain q s' where ask: "sslocal_last_error ?t = (q, s')" by (cases "sslocal_last_error ?t")
  from last_error_pointer[OF wf ask] set_last_error_message[OF assms, of m]
  obtain p where "q = Some p" "LAST_ERROR_HANDED_OUT s' = Some p" "heap s' p = Some (c_string_new m)"
    by (auto split: option.splits)
  moreover have "ffi_wf s'" using last_error_wf[OF wf] ask by simp
  moreover have "INSTANCE s' = INSTANCE s" "STAT_ADDR s' = STAT_ADDR s"
    using last_error_frame(1,3)[of ?t] ask by simp_all
  ultimately show ?thesis using that ask by simp
qed

lemma quiet_message:
  assumes "quiet s"
  obtains p s' where "sslocal_last_error (set_last_error m s) = (Some p, s')" "quiet s'"
proof -
  from assms have "ffi_wf s" by (simp add: quiet_def)
  then obtain p s' where "sslocal_last_error (set_last_error m s) = (Some p, s')" "ffi_wf s'"
    "INSTANCE s' = INSTANCE s" "STAT_ADDR s' = STAT_ADDR s" by (rule message_after_error)
  with assms that show ?thesis by (simp add: quiet_def)
qed

text \<open>How a start ends that gets no further than its JSON.\<close>

lemma parse_config_json_text:
  "from_utf8_error text = None \<Longrightarrow> parse_config_json lib (Some text) =
     map_err (\<lambda>e. (SSLOCAL_ERR_BAD_CONFIG, ''invalid sslocal config: '' @ e)) (lib_from_str lib text)"
  by (simp add: parse_config_json_def cstr_arg_def)

lemma test_texts_utf8:
  "from_utf8_error ''not json'' = None" "from_utf8_error kcptun_config = None"
  "from_utf8_error no_locals_config = None" "from_utf8_error ''not an address'' = None"
  "from_utf8_error ''127.0.0.1:65080'' = None"
  by (rule utf8_ascii; simp add: kcptun_config_def no_locals_config_def)+

lemma start_null: "sslocal_start lib os None s =
    Some (SSLOCAL_ERR_INVALID_ARG, set_last_error ''config_json is null'' s)"
  by (simp add: sslocal_start_def parse_config_json_def cstr_arg_def report_def)

lemma start_garbage:
  assumes "test_library lib os"
  shows "\<exists>m. sslocal_start lib os (Some ''not json'') s = Some (SSLOCAL_ERR_BAD_CONFIG, set_last_error m s)"
  using assms by (auto simp: test_library_def sslocal_start_def parse_config_json_text[OF test_texts_utf8(1)] report_def)

lemma start_kcptun:
  fixes lib :: "('j, 'c, 'l, 'a, 'e) ffi_lib"
  assumes "test_library lib os"
  shows "\<exists>m. sslocal_start lib os (Some kcptun_config) s = Some (SSLOCAL_ERR_BAD_CONFIG, set_last_error m s)"
proof -
  from assms obtain v where v: "lib_from_str lib kcptun_config = Inr v"
    "json_str (lib_json lib) v ''plugin'' = Some ''kcptun''" unfolding test_library_def by blast
  have "parse_plugin ''kcptun'' opts = (Err (Unsupported ''kcptun'') :: 'e plugin_error + plugin_kind)" for opts
    by (simp add: parse_plugin_def)
  then obtain m where "extract_one_spec (lib_json lib) (lib_show_io lib) (lib_show_transport lib) v TopLevel
      = Err (SSLOCAL_ERR_BAD_CONFIG, m)"
    by (simp add: extract_one_spec_def v(2) Let_def)
  moreover have "j_get (lib_json lib) v ''plugin'' \<noteq> None" using v(2) by (auto simp: json_str_def bind_eq_Some_conv)
  ultimately have "extract_plugin_specs (lib_json lib) (lib_show_io lib) (lib_show_transport lib) v
      = Err (SSLOCAL_ERR_BAD_CONFIG, m)"
    by (simp add: extract_plugin_specs_def map_ok_def)
  then show ?thesis
    by (simp add: sslocal_start_def parse_config_json_text[OF test_texts_utf8(2)] v(1) start_with_json_def report_def)
      blast
qed

lemma start_no_locals:
  assumes "test_library lib os" and "quiet s"
  shows "\<exists>m. sslocal_start_tun_fd lib os (Some no_locals_config) 3 s
    = Some (SSLOCAL_ERR_BAD_CONFIG, set_last_error m s)"
proof -
  from assms(1) obtain v where v: "lib_from_str lib no_locals_config = Inr v"
    "\<not> has_plugin (lib_json lib) v" "server_entries (lib_json lib) v = []"
    "\<And>config. lib_load_config lib (lib_to_string lib v) = Inr config \<Longrightarrow> lib_locals lib config = []"
    and runtime: "os_runtime os = None"
    unfolding test_library_def by blast
  have specs: "extract_plugin_specs (lib_json lib) (lib_show_io lib) (lib_show_transport lib) v = Ok []"
    using v(2,3) by (simp add: extract_plugin_specs_def has_plugin_def)
  have free: "INSTANCE s = None" "STAT_ADDR s = None" using assms(2) by (simp_all add: quiet_def)
  have attach: "attach_tun_fd lib os 3 (attach_stat_address lib s config) =
      (Err (SSLOCAL_ERR_BAD_CONFIG,
         ''config must contain a local with '' @ dquoted ''protocol'' @ '': '' @ dquoted ''tun''), [])"
    if "lib_load_config lib (lib_to_string lib v) = Inr config" for config
    using v(4)[OF that] free(2) by (simp add: attach_stat_address_def attach_tun_fd_def tun_index_def)
  show ?thesis
    by (cases "lib_load_config lib (lib_to_string lib v)")
      (auto simp: sslocal_start_tun_fd_def parse_config_json_text[OF test_texts_utf8(3)] v(1)
        start_with_json_def specs free(1) runtime attach report_def)
qed

lemma set_stat_address_text:
  "\<lbrakk>from_utf8_error text = None; text \<noteq> []\<rbrakk> \<Longrightarrow> sslocal_set_stat_address lib (Some text) s =
     (case lib_parse_addr lib text of
        Inr socket_addr \<Rightarrow> (SSLOCAL_OK, s\<lparr>STAT_ADDR := Some socket_addr\<rparr>)
      | Inl e \<Rightarrow> report (SSLOCAL_ERR_INVALID_ARG, ''invalid stat address '' @ dquoted text @ '': '' @ e) s)"
  by (simp add: sslocal_set_stat_address_def cstr_arg_def)

lemma set_stat_address_clears:
  "sslocal_set_stat_address lib None s = (SSLOCAL_OK, s\<lparr>STAT_ADDR := None\<rparr>)"
  "sslocal_set_stat_address lib (Some []) s = (SSLOCAL_OK, s\<lparr>STAT_ADDR := None\<rparr>)"
  by (simp_all add: sslocal_set_stat_address_def cstr_arg_def utf8_ascii)

lemma test_start_garbage:
  assumes "test_library lib os" and "quiet s"
  shows "\<exists>s'. start_rejects_null_and_garbage lib os s = Some s' \<and> quiet s'"
proof -
  let ?t = "set_last_error ''config_json is null'' s"
  have t: "quiet ?t" using quiet_error[OF assms(2)] .
  obtain m where m: "sslocal_start lib os (Some ''not json'') ?t
      = Some (SSLOCAL_ERR_BAD_CONFIG, set_last_error m ?t)" using start_garbage[OF assms(1)] by blast
  obtain p s' where "sslocal_last_error (set_last_error m ?t) = (Some p, s')" "quiet s'"
    using quiet_message[OF t] by blast
  with m show ?thesis by (simp add: start_rejects_null_and_garbage_def start_null)
qed

lemma test_start_kcptun:
  assumes "test_library lib os" and "quiet s"
  shows "\<exists>s'. start_rejects_unsupported_plugin lib os s = Some s' \<and> quiet s'"
proof -
  obtain m where m: "sslocal_start lib os (Some kcptun_config) s
      = Some (SSLOCAL_ERR_BAD_CONFIG, set_last_error m s)" using start_kcptun[OF assms(1)] by blast
  obtain p s' where "sslocal_last_error (set_last_error m s) = (Some p, s')" "quiet s'"
    using quiet_message[OF assms(2)] by blast
  with m show ?thesis by (simp add: start_rejects_unsupported_plugin_def)
qed

lemma test_stop: "quiet s \<Longrightarrow> \<exists>s'. stop_without_start_fails s = Some s' \<and> quiet s'"
  by (simp add: stop_without_start_fails_def sslocal_stop_def report_def quiet_def set_last_error_wf)

lemma hand_out_first_runs:
  assumes "quiet s"
  shows "\<exists>p t. hand_out_first s = Some (Some p, t) \<and> quiet t"
  by (rule quiet_message[OF assms, of first_error]) (simp add: hand_out_first_def)

lemma test_pointer:
  assumes "quiet s"
  shows "\<exists>s'. last_error_pointer_outlives_a_concurrent_error s = Some s' \<and> quiet s'"
proof -
  from assms have "ffi_wf s" by (simp add: quiet_def)
  then obtain p t where t: "sslocal_last_error (set_last_error first_error s) = (Some p, t)"
    "LAST_ERROR_HANDED_OUT t = Some p" "heap t p = Some (c_string_new first_error)" "ffi_wf t"
    "INSTANCE t = INSTANCE s" "STAT_ADDR t = STAT_ADDR s" by (rule message_after_error)
  have "quiet t" using assms t(4-6) by (simp add: quiet_def)
  from quiet_error[OF this] set_last_error_keeps_handed_out[OF t(4,2), of second_error] t(3)
  have "heap (set_last_error second_error t) p = Some first_error" "quiet (set_last_error second_error t)"
    by (simp_all add: c_string_new_def first_error_def)
  then show ?thesis
    by (simp add: last_error_pointer_outlives_a_concurrent_error_def hand_out_first_def read_first_def t(1))
qed

lemma test_stat_address:
  fixes lib :: "('j, 'c, 'l, 'a, 'e) ffi_lib" and s :: "('c runtime, 'a) ffi"
  assumes "test_library lib os" and "quiet s"
  shows "\<exists>s'. set_stat_address_parses_and_clears lib s = Some s' \<and> quiet s'"
proof -
  from assms(1) obtain e a where bad: "lib_parse_addr lib ''not an address'' = Inl e"
    and good: "lib_parse_addr lib ''127.0.0.1:65080'' = Inr a" unfolding test_library_def by blast
  define m where "m = ''invalid stat address '' @ dquoted ''not an address'' @ '': '' @ e"
  have garbage: "sslocal_set_stat_address lib (Some ''not an address'') t =
      (SSLOCAL_ERR_INVALID_ARG, set_last_error m t)" for t :: "('c runtime, 'a) ffi"
    by (simp add: set_stat_address_text[OF test_texts_utf8(4)] bad report_def m_def)
  have address: "sslocal_set_stat_address lib (Some ''127.0.0.1:65080'') t =
      (SSLOCAL_OK, t\<lparr>STAT_ADDR := Some a\<rparr>)" for t :: "('c runtime, 'a) ffi"
    by (simp add: set_stat_address_text[OF test_texts_utf8(5)] good)
  obtain p t where t: "sslocal_last_error (set_last_error m s) = (Some p, t)" "quiet t"
    using quiet_message[OF assms(2)] by blast
  then have "STAT_ADDR t = None" by (simp add: quiet_def)
  let ?u = "set_last_error m (t\<lparr>STAT_ADDR := Some a\<rparr>)\<lparr>STAT_ADDR := None\<rparr>"
  have run: "set_stat_address_parses_and_clears lib s = Some ?u"
    by (simp add: set_stat_address_parses_and_clears_def garbage address set_stat_address_clears t(1)
        \<open>STAT_ADDR t = None\<close> good)
  have "quiet ?u" using t(2) by (simp add: quiet_def set_last_error_wf)
  with run show ?thesis by simp
qed

lemma test_negative_fd: "quiet s \<Longrightarrow> \<exists>s'. start_tun_fd_rejects_negative_fd lib os s = Some s' \<and> quiet s'"
  by (simp add: start_tun_fd_rejects_negative_fd_def sslocal_start_tun_fd_def report_def quiet_error)

lemma test_no_locals:
  assumes "test_library lib os" and "quiet s"
  shows "\<exists>s'. start_tun_fd_requires_a_local lib os s = Some s' \<and> quiet s'"
  using start_no_locals[OF assms] quiet_error[OF assms(2)]
  by (auto simp: start_tun_fd_requires_a_local_def)

lemma ffi_tests_pass:
  assumes "test_library lib os" and "test \<in> set (ffi_tests lib os)" and "quiet s"
  shows "\<exists>s'. test s = Some s' \<and> quiet s'"
  using assms(2) test_start_garbage[OF assms(1,3)] test_start_kcptun[OF assms(1,3)] test_stop[OF assms(3)]
    test_pointer[OF assms(3)] test_stat_address[OF assms(1,3)] test_negative_fd[OF assms(3)]
    test_no_locals[OF assms(1,3)]
  by (auto simp: ffi_tests_def)

section \<open>Properties\<close>

text \<open>
  C39: the model of the C interface passes the unit tests of \<open>lib.rs\<close> when they run one after another:
  any of them, in any order and any number of times, with nothing running at the start; and the
  version is the package's. What is relied on of the libraries is what \<open>test_library\<close> says.
\<close>

theorem ffi_unit_tests:
  assumes "test_library lib os" and "set tests \<subseteq> set (ffi_tests lib os)"
  shows "(\<exists>s. run_tests tests ffi_initial = Some s) \<and> version_is_not_null"
proof -
  have "\<exists>s'. run_tests tests s = Some s'" if "quiet s" for s
    using assms(2) that
  proof (induction tests arbitrary: s)
    case (Cons test tests)
    from Cons.prems obtain t where "test s = Some t" "quiet t"
      using ffi_tests_pass[OF assms(1)] by force
    with Cons show ?case by simp
  qed simp
  moreover have "version_is_not_null"
    by (simp add: version_is_not_null_def sslocal_version_def CARGO_PKG_VERSION_def)
  ultimately show ?thesis using quiet_initial by blast
qed

lemma handed_out_replaced:
  assumes "ffi_wf s" and "LAST_ERROR_HANDED_OUT s = Some p" and "sslocal_last_error s = (q, s')"
  shows "heap s' p = None \<and> p < next_buffer s'"
  using assms
  by (auto simp: sslocal_last_error_def alloc_def free_def ffi_wf_def slots_def split: option.splits)

text \<open>A library the tests can run with.\<close>

definition tests_lib where
  "tests_lib = sample_lib\<lparr>
     lib_from_str := (\<lambda>t. if t = ''not json'' then Inl ''expected ident''
       else if t = kcptun_config then Inr (JObject [(''plugin'', JString ''kcptun'')])
       else Inr (JObject [(''locals'', JArray [])])),
     lib_load_config := (\<lambda>_. Inr (None, [])),
     lib_parse_addr := (\<lambda>t. if t = ''127.0.0.1:65080'' then Inr 65080 else Inl ''invalid socket address syntax'')\<rparr>"

lemma tests_library: "test_library tests_lib sample_os"
proof -
  have "no_locals_config \<noteq> ''not json''" "kcptun_config \<noteq> ''not json''" "no_locals_config \<noteq> kcptun_config"
    by (simp_all add: no_locals_config_def kcptun_config_def)
  moreover have "json_str json_instance (JObject [(''plugin'', JString ''kcptun'')]) ''plugin'' = Some ''kcptun''"
    "j_get json_instance (JObject [(''locals'', JArray [])]) ''plugin'' = None"
    "server_entries json_instance (JObject [(''locals'', JArray [])]) = []" by code_simp+
  ultimately show ?thesis
    by (simp add: test_library_def tests_lib_def sample_lib_def sample_os_def has_plugin_def)
qed

theorem ffi_unit_tests_witness:
  "\<exists>s. run_tests (ffi_tests tests_lib sample_os) ffi_initial = Some s"
  using ffi_unit_tests[OF tests_library order_refl] by blast

text \<open>
  Run in parallel, a test that does not take \<open>GLOBAL_STATE\<close> can break the test of the pointer, which
  does: if \<open>start_rejects_null_and_garbage\<close> runs between its two halves, that test passes, but the pointer
  the other holds is freed by then, and reading it is a use after free.
\<close>

theorem unlocked_test_interferes:
  assumes "test_library lib os" and "quiet s" and "hand_out_first s = Some (handed_out, t)"
    and "start_rejects_null_and_garbage lib os t = Some u"
  shows "\<exists>p. handed_out = Some p \<and> heap t p = Some first_error \<and> heap u p = None \<and> read_first handed_out u = None"
proof -
  from assms(2) have "ffi_wf s" by (simp add: quiet_def)
  then obtain p t' where t': "sslocal_last_error (set_last_error first_error s) = (Some p, t')"
    "LAST_ERROR_HANDED_OUT t' = Some p" "heap t' p = Some (c_string_new first_error)" "ffi_wf t'"
    "INSTANCE t' = INSTANCE s" "STAT_ADDR t' = STAT_ADDR s" by (rule message_after_error)
  with assms(3) have t: "handed_out = Some p" "t = t'" by (simp_all add: hand_out_first_def)
  let ?v = "set_last_error ''config_json is null'' t"
  obtain m where m: "sslocal_start lib os (Some ''not json'') ?v
      = Some (SSLOCAL_ERR_BAD_CONFIG, set_last_error m ?v)" using start_garbage[OF assms(1)] by blast
  let ?w = "set_last_error m ?v"
  have w: "ffi_wf ?w" "LAST_ERROR_HANDED_OUT ?w = Some p"
    using t'(2,4) t(2) by (simp_all add: set_last_error_wf)
  obtain q where ask: "sslocal_last_error ?w = (q, u)" and "q \<noteq> None"
    using assms(4) m by (auto simp: start_rejects_null_and_garbage_def start_null assert_that_def split: prod.splits if_splits)
  have freed: "heap u p = None" "p < next_buffer u" using handed_out_replaced[OF w ask] \<open>q \<noteq> None\<close> by auto
  then have "heap (set_last_error second_error u) p = None"
    by (simp add: set_last_error_def alloc_def free_def split: option.split)
  with freed(1) t t'(3) show ?thesis
    by (simp add: read_first_def c_string_new_def first_error_def)
qed

theorem unlocked_test_interferes_witness:
  "\<exists>handed_out t u p. hand_out_first ffi_initial = Some (handed_out, t) \<and>
     start_rejects_null_and_garbage tests_lib sample_os t = Some u \<and> handed_out = Some p \<and>
     heap u p = None"
proof -
  let ?s = "ffi_initial :: ((nat option \<times> (bool \<times> int option \<times> string option) list) runtime, nat) ffi"
  from hand_out_first_runs[OF quiet_initial] obtain p t
    where first: "hand_out_first ?s = Some (Some p, t)" and "quiet t" by blast
  from test_start_garbage[OF tests_library \<open>quiet t\<close>] obtain u where
    second: "start_rejects_null_and_garbage tests_lib sample_os t = Some u" by blast
  from unlocked_test_interferes[OF tests_library quiet_initial first second] first second
  show ?thesis by blast
qed

end
