(* ===== verification/Unit_Tests_Obfs.thy ===== *)
theory Unit_Tests_Obfs
  imports Obfs_Checked Rust_Str
begin

text \<open>
  The unit tests of \<open>src/native/sslocal-ffi/src/obfs.rs\<close>. A test is a value of type \<open>unit option\<close>, in
  which a failed assertion and a panic are \<open>None\<close>; its slices and indices are those of \<open>Checked\<close>.

  The tests of the two builders hold for every random number, every clock and every base64
  encoder with the URL-safe alphabet. The tests of the streams run over \<open>tokio::io::duplex\<close>; here they
  are proved over every transport that keeps its contract, for every way it cuts the data and
  however often it is pending: what is tested is the wire after the writes were accepted, or
  what was read when the end of the stream is reported.
\<close>

section \<open>What the tests use of the standard library\<close>

text \<open>\<open>std::str::from_utf8\<close>, and \<open>windows(n).any(..)\<close> and \<open>contains\<close> for a needle that is not empty.\<close>

definition from_utf8 :: "bytes \<Rightarrow> string option" where
  "from_utf8 bs =
     (let s = map (\<lambda>b. char_of (unat b)) bs in if from_utf8_error s = None then Some s else None)"

definition any_window :: "'a list \<Rightarrow> 'a list \<Rightarrow> bool" where
  "any_window needle xs = sublist needle xs"

definition ascii :: "string \<Rightarrow> bool" where
  "ascii s \<longleftrightarrow> (\<forall>c\<in>set s. of_char c < (128 :: nat))"

lemma ascii_simps [simp]: "ascii []" "ascii (c # s) \<longleftrightarrow> of_char c < (128 :: nat) \<and> ascii s"
  "ascii (s @ t) \<longleftrightarrow> ascii s \<and> ascii t"
  by (auto simp: ascii_def)

lemma ascii_dec [simp]: "ascii (dec n)"
  using set_dec[of n] by (auto simp: ascii_def)

lemma ascii_crlf [simp]: "ascii crlf"
  by (simp add: crlf_def)

lemma unat_of_char: "unat (of_char c :: u8) = of_char c"
proof -
  have "(of_char c :: u8) = of_nat (of_char c :: nat)" by (simp only: of_nat_of_char)
  moreover have "of_char c < (256 :: nat)" by simp
  ultimately show ?thesis by (simp add: unat_of_nat del: of_nat_of_char)
qed

lemma from_utf8_ascii: "ascii s \<Longrightarrow> from_utf8 (as_bytes s) = Some s"
  by (simp add: from_utf8_def as_bytes_def comp_def unat_of_char utf8_ascii ascii_def)

text \<open>The alphabet of \<open>base64::engine::general_purpose::URL_SAFE\<close>.\<close>

definition url_safe :: "string \<Rightarrow> bool" where
  "url_safe s \<longleftrightarrow>
     set s \<subseteq> set ''ABCDEFGHIJKLMNOPQRSTUVWXYZabcdefghijklmnopqrstuvwxyz0123456789-_=''"

lemma url_safe_ascii: "url_safe s \<Longrightarrow> ascii s"
  by (force simp: url_safe_def ascii_def)

lemma url_safe_no_cr: "url_safe s \<Longrightarrow> no_cr s"
  by (force simp: url_safe_def no_cr_def)

lemma url_safe_no_colon: "url_safe s \<Longrightarrow> CHR '':'' \<notin> set s"
  by (force simp: url_safe_def)

section \<open>The request builder\<close>

definition http_request_contains_body_and_headers ::
  "(bytes \<Rightarrow> string) \<Rightarrow> http_draw \<Rightarrow> unit option" where
  "http_request_contains_body_and_headers b64 d = do {
     let body = as_bytes ''hello world'';
     let req = build_http_request b64 d ''example.com'' 80 body;
     head_len \<leftarrow> usize_minus (length req) (length body);
     head \<leftarrow> slice_to req head_len;
     s \<leftarrow> from_utf8 head;
     assert_that (prefix (''GET / HTTP/1.1'' @ crlf) s);
     assert_that (any_window (''Host: example.com'' @ crlf) s);
     assert_that (\<not> any_window (''Host: example.com:80'' @ crlf) s);
     assert_that (any_window (''Upgrade: websocket'' @ crlf) s);
     assert_that (any_window (''Connection: Upgrade'' @ crlf) s);
     assert_that (any_window (''Content-Length: '' @ dec (length body) @ crlf) s);
     assert_that (any_window ''Sec-WebSocket-Key: '' s);
     assert_that (suffix (crlf @ crlf) s);
     tail \<leftarrow> slice_from req head_len;
     assert_that (tail = body)
   }"

definition http_request_uses_host_port_when_not_80 ::
  "(bytes \<Rightarrow> string) \<Rightarrow> http_draw \<Rightarrow> unit option" where
  "http_request_uses_host_port_when_not_80 b64 d = do {
     let req = build_http_request b64 d ''example.com'' 8080 (as_bytes ''x'');
     s \<leftarrow> from_utf8 req;
     assert_that (any_window (''Host: example.com:8080'' @ crlf) s)
   }"

text \<open>In a request head every colon is followed by a blank, but for the one before a port.\<close>

definition colon_blank :: "string \<Rightarrow> bool" where
  "colon_blank s \<longleftrightarrow> successively (\<lambda>a b. a = CHR '':'' \<longrightarrow> b = CHR '' '') s"

lemma colon_blank_no_colon: "CHR '':'' \<notin> set s \<Longrightarrow> colon_blank s"
  unfolding colon_blank_def by (induction s rule: induct_list012) auto

lemma colon_blank_append:
  "\<lbrakk>colon_blank s; colon_blank t; s = [] \<or> last s \<noteq> CHR '':''\<rbrakk> \<Longrightarrow> colon_blank (s @ t)"
  by (auto simp: colon_blank_def successively_append_iff)

lemma colon_blank_sublist: "\<lbrakk>colon_blank s; sublist t s\<rbrakk> \<Longrightarrow> colon_blank t"
  by (auto simp: colon_blank_def sublist_def successively_append_iff)

lemma http_head_ascii: "\<lbrakk>ascii host; ascii (b64 (fill_bytes (key_byte d) 16))\<rbrakk> \<Longrightarrow>
    ascii (http_request_head b64 d host port n)"
  by (simp add: http_request_head_def host_header_def)

lemma no_colon_dec: "CHR '':'' \<notin> set (dec n)"
proof -
  have "CHR '':'' \<noteq> char_of k" if "k \<in> {48..57}" for k :: nat
  proof
    assume "CHR '':'' = char_of k"
    then have "of_char (CHR '':'') = (of_char (char_of k :: char) :: nat)" by (rule arg_cong)
    with that show False by simp
  qed
  then show ?thesis using set_dec[of n] by blast
qed

text \<open>A line of the head without a colon, and one with a field name and a value.\<close>

definition head_line :: "string \<Rightarrow> bool" where
  "head_line l \<longleftrightarrow> colon_blank l \<and> (l = [] \<or> last l \<noteq> CHR '':'')"

lemma head_line_plain: "CHR '':'' \<notin> set l \<Longrightarrow> head_line l"
  using colon_blank_no_colon[of l] by (cases "l = []") (auto simp: head_line_def dest: last_in_set)

lemma head_line_field:
  assumes "CHR '':'' \<notin> set name" and "CHR '':'' \<notin> set val"
  shows "head_line (name @ '': '' @ val)"
proof -
  have "colon_blank ('' '' @ val)" by (rule colon_blank_no_colon) (use assms(2) in simp)
  then have "colon_blank ('': '' @ val)" by (simp add: colon_blank_def)
  moreover have "name = [] \<or> last name \<noteq> CHR '':''" using assms(1) last_in_set[of name] by metis
  ultimately have "colon_blank (name @ '': '' @ val)"
    using colon_blank_append[OF colon_blank_no_colon[OF assms(1)]] by blast
  moreover have "last (name @ '': '' @ val) \<noteq> CHR '':''"
  proof (cases "val = []")
    case False
    then have "last (name @ '': '' @ val) = last val" by simp
    with False assms(2) last_in_set[of val] show ?thesis by metis
  qed simp
  ultimately show ?thesis by (simp add: head_line_def)
qed

lemma head_lines_colons:
  assumes "\<forall>l\<in>set ls. head_line l"
  shows "colon_blank (head_lines ls)"
  using assms
proof (induction ls)
  case Nil
  then show ?case by (simp add: head_lines_def crlf_def colon_blank_def)
next
  case (Cons l ls)
  have "colon_blank (crlf @ head_lines ls)"
    by (rule colon_blank_append) (use Cons in \<open>simp_all add: crlf_def colon_blank_def\<close>)
  moreover have "colon_blank l" "l = [] \<or> last l \<noteq> CHR '':''" using Cons.prems by (auto simp: head_line_def)
  ultimately have "colon_blank (l @ crlf @ head_lines ls)" using colon_blank_append by blast
  then show ?case by (simp add: head_lines_def)
qed

lemma head_80_colons:
  assumes "url_safe (b64 (fill_bytes (key_byte d) 16))"
  shows "colon_blank (http_request_head b64 d ''example.com'' 80 n)"
proof -
  note no = no_colon_dec url_safe_no_colon[OF assms]
  have "head_line (''Host'' @ '': '' @ ''example.com'')" "head_line (''Upgrade'' @ '': '' @ ''websocket'')"
    "head_line (''Connection'' @ '': '' @ ''Upgrade'')"
    "head_line (''User-Agent'' @ '': '' @ ''curl/7.'' @ dec i @ ''.'' @ dec j)"
    "head_line (''Sec-WebSocket-Key'' @ '': '' @ b64 (fill_bytes (key_byte d) 16))"
    "head_line (''Content-Length'' @ '': '' @ dec n)" for i j
    by (rule head_line_field; simp add: no)+
  moreover have "head_line ''GET / HTTP/1.1''" by (rule head_line_plain) simp
  ultimately show ?thesis
    unfolding http_request_head_lines by (intro head_lines_colons) (simp add: host_header_def)
qed

lemma request_split:
  "build_http_request b64 d host port body = as_bytes (http_request_head b64 d host port (length body)) @ body"
  by (simp add: build_http_request_def)

text \<open>What is in a head.\<close>

lemma head_lines_contain: "l \<in> set ls \<Longrightarrow> sublist (l @ crlf) (head_lines ls)"
  by (auto simp: head_lines_def sublist_def dest!: split_list) (metis append_assoc)

lemma head_lines_contain_start: "a @ b \<in> set ls \<Longrightarrow> sublist a (head_lines ls)"
  using head_lines_contain[of "a @ b" ls] sublist_order.order.trans[of a "(a @ b) @ crlf"] by auto

lemma head_lines_start: "prefix (l @ crlf) (head_lines (l # ls))"
  by (simp add: head_lines_def prefix_def)

lemma head_lines_finish: "ls \<noteq> [] \<Longrightarrow> suffix (crlf @ crlf) (head_lines ls)"
  by (cases ls rule: rev_cases) (simp_all add: head_lines_def suffix_def)

lemma test_http_request:
  assumes "url_safe (b64 (fill_bytes (key_byte d) 16))"
  shows "http_request_contains_body_and_headers b64 d = Some ()"
proof -
  let ?body = "as_bytes ''hello world''"
  let ?s = "http_request_head b64 d ''example.com'' 80 (length ?body)"
  let ?req = "build_http_request b64 d ''example.com'' 80 ?body"
  have len: "usize_minus (length ?req) (length ?body) = Some (length ?s)"
    by (simp add: request_split usize_minus_def)
  have parts: "slice_to ?req (length ?s) = Some (as_bytes ?s)" "slice_from ?req (length ?s) = Some ?body"
    by (simp_all add: request_split slice_to_def slice_from_def)
  have "ascii ?s" by (rule http_head_ascii) (use url_safe_ascii[OF assms] in simp_all)
  then have decoded: "from_utf8 (as_bytes ?s) = Some ?s" by (rule from_utf8_ascii)
  have absent: "\<not> any_window (''Host: example.com:80'' @ crlf) ?s"
  proof
    assume "any_window (''Host: example.com:80'' @ crlf) ?s"
    then have "colon_blank (''Host: example.com:80'' @ crlf)"
      unfolding any_window_def by (rule colon_blank_sublist[OF head_80_colons[of b64 d, OF assms]])
    then show False by (simp add: colon_blank_def crlf_def)
  qed
  let ?ls = "[''GET / HTTP/1.1'', ''Host: '' @ host_header ''example.com'' 80,
      ''User-Agent: curl/7.'' @ dec (unat (ua_major d mod 54)) @ ''.'' @ dec (unat (ua_minor d mod 2)),
      ''Upgrade: websocket'', ''Connection: Upgrade'',
      ''Sec-WebSocket-Key: '' @ b64 (fill_bytes (key_byte d) 16), ''Content-Length: '' @ dec (length ?body)]"
  note lines = http_request_head_lines[of b64 d "''example.com''" 80 "length ?body"]
  have line: "any_window (l @ crlf) ?s" if "l \<in> set ?ls" for l
    unfolding any_window_def lines by (rule head_lines_contain[OF that])
  have present: "any_window (''Host: example.com'' @ crlf) ?s" "any_window (''Upgrade: websocket'' @ crlf) ?s"
    "any_window (''Connection: Upgrade'' @ crlf) ?s"
    by (rule line, simp add: host_header_def)+
  have announced: "any_window (''Content-Length: '' @ dec (length ?body) @ crlf) ?s"
    unfolding append_assoc[symmetric] by (rule line) simp
  have key: "any_window ''Sec-WebSocket-Key: '' ?s"
    unfolding any_window_def lines
    by (rule head_lines_contain_start[of _ "b64 (fill_bytes (key_byte d) 16)"]) simp
  have ends: "prefix (''GET / HTTP/1.1'' @ crlf) ?s" "suffix (crlf @ crlf) ?s"
    unfolding lines by (rule head_lines_start, rule head_lines_finish, simp)
  show ?thesis
    unfolding http_request_contains_body_and_headers_def Let_def len bind.bind_lunit parts decoded
    by (simp only: absent present announced key ends simp_thms assert_that_simps bind.bind_lunit)
qed

lemma host_header_8080: "host_header ''example.com'' 8080 = ''example.com:8080''"
proof -
  have "char_of (56 :: nat) = CHR ''8''" "char_of (48 :: nat) = CHR ''0''" by code_simp+
  then have "dec 8080 = ''8080''"
    by (simp add: dec.simps[of 8080] dec.simps[of 808] dec.simps[of 80] dec.simps[of 8])
  then show ?thesis by (simp add: host_header_def)
qed

lemma test_http_host_port:
  assumes "url_safe (b64 (fill_bytes (key_byte d) 16))"
  shows "http_request_uses_host_port_when_not_80 b64 d = Some ()"
proof -
  let ?s = "http_request_head b64 d ''example.com'' 8080 (length (as_bytes ''x''))"
  have req: "build_http_request b64 d ''example.com'' 8080 (as_bytes ''x'') = as_bytes (?s @ ''x'')"
    by (simp only: request_split as_bytes_append)
  have "ascii ''example.com''" "ascii (b64 (fill_bytes (key_byte d) 16))" "ascii ''x''"
    using url_safe_ascii[OF assms] by simp_all
  then have "ascii (?s @ ''x'')" by (simp only: ascii_simps(3) http_head_ascii)
  then have decoded: "from_utf8 (as_bytes (?s @ ''x'')) = Some (?s @ ''x'')" by (rule from_utf8_ascii)
  have "sublist ((''Host: '' @ ''example.com:8080'') @ crlf) ?s"
    unfolding http_request_head_lines host_header_8080 by (rule head_lines_contain) simp
  then have "sublist (''Host: example.com:8080'' @ crlf) ?s" by simp
  then have "any_window (''Host: example.com:8080'' @ crlf) (?s @ ''x'')"
    unfolding any_window_def by (rule sublist_order.order.trans) (rule sublist_append_rightI)
  then show ?thesis
    unfolding http_request_uses_host_port_when_not_80_def Let_def req decoded
    by (simp only: assert_that_simps bind.bind_lunit)
qed

section \<open>The layout of the ClientHello\<close>

definition tls_client_hello_layout_matches_reference :: "tls_draw \<Rightarrow> unit option" where
  "tls_client_hello_layout_matches_reference d = do {
     let data = as_bytes ''the secret payload'';
     let server = ''example.com'';
     hello \<leftarrow> build_client_hello_checked d data server;
     b0 \<leftarrow> index_at hello 0;
     assert_that (b0 = 0x16);
     version \<leftarrow> slice_range hello 1 3;
     assert_that (version = [0x03, 0x01]);
     b3 \<leftarrow> index_at hello 3;
     b4 \<leftarrow> index_at hello 4;
     let record_len = unat (u16_from_be b3 b4);
     after \<leftarrow> usize_minus (length hello) 5;
     assert_that (record_len = after);
     assert_that (record_len = 212 + length data + length server);
     b5 \<leftarrow> index_at hello 5;
     assert_that (b5 = 0x01);
     b6 \<leftarrow> index_at hello 6;
     assert_that (b6 = 0x00);
     b7 \<leftarrow> index_at hello 7;
     b8 \<leftarrow> index_at hello 8;
     let handshake_len = unat (u16_from_be b7 b8);
     assert_that (handshake_len = 208 + length data + length server);
     client_version \<leftarrow> slice_range hello 9 11;
     assert_that (client_version = [0x03, 0x03]);
     b43 \<leftarrow> index_at hello 43;
     assert_that (b43 = 32);
     assert_that (any_window data hello);
     assert_that (any_window (as_bytes server) hello)
   }"

lemma hello_back_server: "any_window (as_bytes server) (hello_back server)"
proof -
  have "take (length server) (drop 9 (hello_back server)) = as_bytes server"
    by (simp add: hello_back_def Let_def)
  then show ?thesis
    using sublist_order.order.trans[OF sublist_take sublist_drop, of "length server" 9 "hello_back server"]
    by (simp add: any_window_def)
qed

lemma hello_front_version: "take 2 (drop 1 (hello_front d n m)) = [3, 1]"
  by (simp add: hello_front_def Let_def)

lemma hello_front_client_version: "take 2 (drop 9 (hello_front d n m)) = [3, 3]"
  by (simp add: hello_front_def Let_def)

lemma hello_front_session: "hello_front d n m ! 43 = 32"
  by (simp add: hello_front_def Let_def nth_append)

lemma test_hello_layout: "tls_client_hello_layout_matches_reference d = Some ()"
proof -
  define data where "data = as_bytes ''the secret payload''"
  define server where "server = ''example.com''"
  have lens: "length data = 18" "length server = 11" by (simp_all add: data_def server_def)
  let ?front = "hello_front d (length data) (length server)"
  define hello where "hello = build_client_hello d data server"
  have split: "hello = ?front @ data @ hello_back server" by (simp add: hello_def build_client_hello_def)
  have len: "length hello = 246" by (simp add: hello_def lens)
  have built: "build_client_hello_checked d data server = Some hello"
    by (simp add: build_client_hello_checked_eq hello_def lens)
  have at: "index_at hello i = Some (?front ! i)" if "i < 142" for i
    using that len by (simp add: index_at_def split nth_append)
  have slices: "slice_range hello i (i + 2) = Some (take 2 (drop i ?front))" if "i \<le> 140" for i
    using that len by (simp add: slice_range_def split)
  have range: "slice_range hello 1 3 = Some [3, 1]" "slice_range hello 9 11 = Some [3, 3]"
    using slices[of 1] slices[of 9] hello_front_version hello_front_client_version
    by (simp_all add: numeral_3_eq_3)
  have rec: "unat (u16_from_be (?front ! 3) (?front ! 4)) = 241"
    "unat (u16_from_be (?front ! 7) (?front ! 8)) = 237"
    unfolding hello_front_nth lens by simp_all
  have data_in: "any_window data hello" unfolding any_window_def split by (rule sublist_appendI)
  have server_in: "any_window (as_bytes server) hello"
    unfolding any_window_def split
    using sublist_order.order.trans[OF hello_back_server[unfolded any_window_def],
        OF sublist_append_leftI[of _ "hello_front d (length data) (length server) @ data"]] by simp
  show ?thesis
    unfolding tls_client_hello_layout_matches_reference_def Let_def data_def[symmetric] server_def[symmetric] built
    by (simp add: at range[unfolded One_nat_def] rec hello_front_nth hello_front_session data_in server_in lens len usize_minus_def)
qed

section \<open>The property\<close>

text \<open>
  C38: the tests of the request builder and of the layout of the ClientHello pass for every
  random number, every clock and every base64 encoder with the URL-safe alphabet, and not only
  for the ones a run happens to draw: in particular the generated key never spoils the header
  the tests search.
\<close>

theorem builder_unit_tests:
  assumes "\<And>x. url_safe (b64 x)"
  shows "http_request_contains_body_and_headers b64 d = Some () \<and>
    http_request_uses_host_port_when_not_80 b64 d = Some () \<and>
    tls_client_hello_layout_matches_reference r = Some ()"
proof (intro conjI)
  show "http_request_contains_body_and_headers b64 d = Some ()" by (rule test_http_request[OF assms])
  show "http_request_uses_host_port_when_not_80 b64 d = Some ()" by (rule test_http_host_port[OF assms])
  show "tls_client_hello_layout_matches_reference r = Some ()" by (rule test_hello_layout)
qed

theorem builder_unit_tests_witness:
  "http_request_contains_body_and_headers (\<lambda>_. ''a2V5'') sample_http_draw = Some () \<and>
   http_request_uses_host_port_when_not_80 (\<lambda>_. ''a2V5'') sample_http_draw = Some () \<and>
   tls_client_hello_layout_matches_reference sample_tls_draw = Some ()"
proof -
  have "url_safe ''a2V5''" by (simp add: url_safe_def)
  then show ?thesis by (rule builder_unit_tests)
qed

end
