(* ===== verification/Unit_Tests_Streams.thy ===== *)
theory Unit_Tests_Streams
  imports Unit_Tests_Obfs
begin

text \<open>
  The tests of \<open>src/native/sslocal-ffi/src/obfs.rs\<close> that drive a wrapper over \<open>tokio::io::duplex\<close>. A
  test is split where the source awaits for the last time: what the wrapper did is the argument
  of the assertions. The lemmas give that argument for every transport that keeps its contract,
  for every way it cuts the data and however often it is pending.

  One of them is of interest for itself: a chunk of at most 16 KiB that is written with \<open>write_all\<close>
  is one frame on the wire, however often the transport makes the caller try again.
\<close>

section \<open>Calls of a test\<close>

text \<open>
  \<open>write_all(data).await.unwrap()\<close>, in as many polls as there are draws, and \<open>read_to_end\<close>: polls
  with the buffer sizes \<open>ns\<close>, then one with room that returns no byte.
\<close>

definition write_all_unwrap ::
  "('r \<Rightarrow> 's \<Rightarrow> bytes \<Rightarrow> 's \<times> nat io_result poll) \<Rightarrow> 'r list \<Rightarrow> 's \<Rightarrow> bytes \<Rightarrow> 's option" where
  "write_all_unwrap wr rs s data =
     (case poll_writes wr rs s data of (s', rest) \<Rightarrow> if rest = [] then Some s' else None)"

definition unwrap_ok :: "'s \<times> unit io_result poll \<Rightarrow> 's option" where
  "unwrap_ok res = (case res of (s, r) \<Rightarrow> if r = Ready (Ok ()) then Some s else None)"

definition read_to_end ::
  "('s \<Rightarrow> nat \<Rightarrow> ('s \<times> bytes io_result poll) option) \<Rightarrow> nat list \<Rightarrow> nat \<Rightarrow> 's \<Rightarrow> bytes option" where
  "read_to_end rd ns n s = do {
     (s, got) \<leftarrow> poll_reads rd s ns;
     (s, r) \<leftarrow> rd s n;
     (if 0 < n \<and> r = Ready (Ok []) then Some got else None)
   }"

section \<open>Tests of HttpObfs\<close>

definition http_first_writes ::
  "(bytes \<Rightarrow> string) \<Rightarrow> 's stream_ops \<Rightarrow> http_draw list \<Rightarrow> http_draw list \<Rightarrow> 's \<Rightarrow> 's http_obfs option" where
  "http_first_writes b64 io rs1 rs2 client = do {
     let obfs = http_new client ''example.com'' 80;
     obfs \<leftarrow> write_all_unwrap (http_poll_write b64 io) rs1 obfs (as_bytes ''PAYLOAD1'');
     obfs \<leftarrow> write_all_unwrap (http_poll_write b64 io) rs2 obfs (as_bytes ''PAYLOAD2'');
     unwrap_ok (http_poll_flush io obfs)
   }"

definition http_obfs_first_write_then_passthrough :: "bytes \<Rightarrow> unit option" where
  "http_obfs_first_write_then_passthrough received = do {
     let s = (case from_utf8 received of Some s \<Rightarrow> s | None \<Rightarrow> []);
     assert_that (prefix (''GET / HTTP/1.1'' @ crlf) s);
     idx \<leftarrow> find (\<lambda>i. take 4 (drop i received) = double_crlf) [0..<length received - 3];
     after \<leftarrow> slice_from received (idx + 4);
     assert_that (prefix (as_bytes ''PAYLOAD1'') after);
     assert_that (suffix (as_bytes ''PAYLOAD2'') after)
   }"

text \<open>What the server writes before it is dropped, and what the client is to read.\<close>

definition http_response_stream :: bytes where
  "http_response_stream =
     as_bytes (''HTTP/1.1 101 Switching Protocols'' @ crlf @ ''Server: nginx'' @ crlf @
       ''Upgrade: websocket'' @ crlf @ ''Connection: Upgrade'' @ crlf @ crlf @ ''HELLO_BODY_BYTES'') @
     as_bytes ''_AND_MORE''"

definition http_obfs_strips_first_response_headers :: "bytes \<Rightarrow> unit option" where
  "http_obfs_strips_first_response_headers got =
     assert_that (got = as_bytes ''HELLO_BODY_BYTES_AND_MORE'')"

section \<open>Tests of TlsObfs\<close>

definition tls_two_writes ::
  "'s stream_ops \<Rightarrow> bytes \<Rightarrow> bytes \<Rightarrow> tls_draw list \<Rightarrow> tls_draw list \<Rightarrow> 's \<Rightarrow> 's tls_obfs option" where
  "tls_two_writes io data1 data2 rs1 rs2 client = do {
     let obfs = tls_new client ''example.com'';
     obfs \<leftarrow> write_all_unwrap (tls_poll_write io) rs1 obfs data1;
     write_all_unwrap (tls_poll_write io) rs2 obfs data2
   }"

definition tls_first_writes ::
  "'s stream_ops \<Rightarrow> tls_draw list \<Rightarrow> tls_draw list \<Rightarrow> 's \<Rightarrow> 's tls_obfs option" where
  "tls_first_writes io rs1 rs2 client = do {
     obfs \<leftarrow> tls_two_writes io (as_bytes ''FIRST'') (as_bytes ''SECOND'') rs1 rs2 client;
     unwrap_ok (tls_poll_flush io obfs)
   }"

definition tls_obfs_write_first_then_chunks :: "bytes \<Rightarrow> unit option" where
  "tls_obfs_write_first_then_chunks received = do {
     b0 \<leftarrow> index_at received 0;
     assert_that (b0 = 0x16);
     version \<leftarrow> slice_range received 1 3;
     assert_that (version = [0x03, 0x01]);
     b3 \<leftarrow> index_at received 3;
     b4 \<leftarrow> index_at received 4;
     let hello_end = 5 + unat (u16_from_be b3 b4);
     handshake \<leftarrow> slice_to received hello_end;
     assert_that (any_window (as_bytes ''FIRST'') handshake);
     after \<leftarrow> slice_from received hello_end;
     a0 \<leftarrow> index_at after 0;
     assert_that (a0 = 0x17);
     version \<leftarrow> slice_range after 1 3;
     assert_that (version = [0x03, 0x03]);
     a3 \<leftarrow> index_at after 3;
     a4 \<leftarrow> index_at after 4;
     let len = unat (u16_from_be a3 a4);
     assert_that (len = length (as_bytes ''SECOND''));
     chunk \<leftarrow> slice_range after 5 (5 + len);
     assert_that (chunk = as_bytes ''SECOND'')
   }"

definition tls_server_stream :: bytes where
  "tls_server_stream =
     replicate TLS_FIRST_RESPONSE_DISCARD 0xAA @
     u16_to_be (of_nat (length (as_bytes ''hello-from-server''))) @ as_bytes ''hello-from-server'' @
     [0x17, 0x03, 0x03] @ u16_to_be (of_nat (length (as_bytes ''second-frame''))) @ as_bytes ''second-frame''"

definition tls_obfs_read_strips_framing :: "bytes \<Rightarrow> unit option" where
  "tls_obfs_read_strips_framing got =
     assert_that (got = as_bytes ''hello-from-server'' @ as_bytes ''second-frame'')"

definition tls_wrapper_writes ::
  "'s stream_ops \<Rightarrow> tls_draw list \<Rightarrow> tls_draw list \<Rightarrow> 's \<Rightarrow> 's tls_obfs option" where
  "tls_wrapper_writes io rs1 rs2 a = do {
     a_obfs \<leftarrow> tls_two_writes io (as_bytes ''first-msg'') (as_bytes ''second-msg'') rs1 rs2 a;
     unwrap_ok (tls_poll_shutdown io a_obfs)
   }"

definition tls_obfs_round_trip_through_two_wrappers :: "bytes \<Rightarrow> unit option" where
  "tls_obfs_round_trip_through_two_wrappers received = do {
     b0 \<leftarrow> index_at received 0;
     assert_that (b0 = 0x16);
     b3 \<leftarrow> index_at received 3;
     b4 \<leftarrow> index_at received 4;
     let rec_len = unat (u16_from_be b3 b4);
     handshake \<leftarrow> slice_range received 5 (5 + rec_len);
     assert_that (any_window (as_bytes ''first-msg'') handshake);
     app \<leftarrow> slice_from received (5 + rec_len);
     a0 \<leftarrow> index_at app 0;
     assert_that (a0 = 0x17);
     a3 \<leftarrow> index_at app 3;
     a4 \<leftarrow> index_at app 4;
     let len = unat (u16_from_be a3 a4);
     chunk \<leftarrow> slice_range app 5 (5 + len);
     assert_that (chunk = as_bytes ''second-msg'')
   }"

section \<open>A chunk is one frame\<close>

text \<open>
  A wrapper with nothing waiting, whose wire is \<open>w\<close>; and one that holds back a frame for \<open>n\<close> bytes
  of its caller, with which the wire will be \<open>w\<close>.
\<close>

definition tls_rested ::
  "('s \<Rightarrow> bool) \<Rightarrow> ('s \<Rightarrow> bytes) \<Rightarrow> string \<Rightarrow> 's tls_obfs \<Rightarrow> bool \<Rightarrow> bytes \<Rightarrow> bool" where
  "tls_rested good sent server t first w \<longleftrightarrow>
     good (t_inner t) \<and> t_server t = server \<and> t_first_request t = first \<and> t_write_buf t = [] \<and>
     sent (t_inner t) = w"

definition tls_held ::
  "('s \<Rightarrow> bool) \<Rightarrow> ('s \<Rightarrow> bytes) \<Rightarrow> string \<Rightarrow> 's tls_obfs \<Rightarrow> bytes \<Rightarrow> nat \<Rightarrow> bool" where
  "tls_held good sent server t w n \<longleftrightarrow>
     good (t_inner t) \<and> t_server t = server \<and> \<not> t_first_request t \<and> t_write_buf t \<noteq> [] \<and>
     t_pending_input t = n \<and> tls_bound sent t = w"

definition tls_frame :: "bool \<Rightarrow> tls_draw \<Rightarrow> bytes \<Rightarrow> string \<Rightarrow> bytes" where
  "tls_frame first r d server = (if first then build_client_hello r d server else tls_app_record d)"

lemma tls_frame_not_Nil: "tls_frame first r d server \<noteq> []"
  using length_build_client_hello[of r d server]
  by (auto simp: tls_frame_def tls_app_record_def simp del: length_build_client_hello)

context stream_writer
begin

lemma tls_held_drains:
  assumes "tls_poll_drain_write_buf io t = (t1, r1)" and "tls_held good sent server t w n"
    and "(t', p) = (case (t1, r1) of
        (t', Ready (Inr _)) \<Rightarrow> (t'\<lparr>t_pending_input := 0\<rparr>, Ready (Ok (t_pending_input t')))
      | (t', Ready (Inl e)) \<Rightarrow> (t', Ready (Err e))
      | (t', Pending) \<Rightarrow> (t', Pending))"
  shows "case p of Ready (Inr k) \<Rightarrow> k = n \<and> tls_rested good sent server t' False w
    | _ \<Rightarrow> tls_held good sent server t' w n"
proof -
  have good: "good (t_inner t)" using assms(2) by (simp add: tls_held_def)
  note keep = tls_drain_step[OF assms(1) good]
  show ?thesis
  proof (cases r1 rule: poll_cases)
    case (ok u)
    then have buf: "t_write_buf t1 = []" using keep by simp
    then have "sent (t_inner t1) = tls_bound sent t1" by (simp add: tls_bound_def)
    then show ?thesis using keep buf assms(2,3) ok by (simp add: tls_held_def tls_rested_def)
  next
    case (err e)
    then show ?thesis using keep assms(2,3) by (simp add: tls_held_def)
  next
    case pending
    then show ?thesis using keep assms(2,3) by (simp add: tls_held_def)
  qed
qed

lemma tls_held_poll:
  assumes "tls_poll_write io r t d = (t', p)" and "tls_held good sent server t w n"
  shows "case p of Ready (Inr k) \<Rightarrow> k = n \<and> tls_rested good sent server t' False w
    | _ \<Rightarrow> tls_held good sent server t' w n"
proof -
  obtain t1 r1 where step: "tls_poll_drain_write_buf io t = (t1, r1)"
    by (cases "tls_poll_drain_write_buf io t")
  have "t_write_buf t \<noteq> []" using assms(2) by (simp add: tls_held_def)
  with assms(1) step have "(t', p) = (case (t1, r1) of
        (t', Ready (Inr _)) \<Rightarrow> (t'\<lparr>t_pending_input := 0\<rparr>, Ready (Ok (t_pending_input t')))
      | (t', Ready (Inl e)) \<Rightarrow> (t', Ready (Err e))
      | (t', Pending) \<Rightarrow> (t', Pending))"
    by (auto simp: tls_poll_write_def split: poll.splits sum.splits)
  from tls_held_drains[OF step assms(2) this] show ?thesis .
qed

lemma tls_rested_poll:
  assumes "tls_poll_write io r t d = (t', p)" and "tls_rested good sent server t first w"
    and "d \<noteq> []" and "length d \<le> TLS_CHUNK_SIZE"
  shows "case p of Ready (Inr k) \<Rightarrow> k = length d \<and> tls_rested good sent server t' False (w @ tls_frame first r d server)
    | _ \<Rightarrow> tls_held good sent server t' (w @ tls_frame first r d server) (length d)"
proof -
  let ?t = "t\<lparr>t_first_request := False, t_write_buf := tls_frame first r d server, t_write_buf_off := 0,
    t_pending_input := length d\<rparr>"
  have t: "t_first_request t = first" "t_server t = server" "t_write_buf t = []"
    using assms(2) by (simp_all add: tls_rested_def)
  have held: "tls_held good sent server ?t (w @ tls_frame first r d server) (length d)"
    using assms(2) tls_frame_not_Nil by (simp add: tls_rested_def tls_held_def tls_bound_def)
  obtain t1 r1 where step: "tls_poll_drain_write_buf io ?t = (t1, r1)"
    by (cases "tls_poll_drain_write_buf io ?t")
  have chunk: "min (length d) TLS_CHUNK_SIZE = length d" using assms(4) by simp
  have upd: "(if first then t\<lparr>t_first_request := False, t_write_buf := build_client_hello r d server\<rparr>
      else t\<lparr>t_write_buf := tls_app_record d\<rparr>)\<lparr>t_write_buf_off := 0, t_pending_input := length d\<rparr> = ?t"
    using t(1) by (cases first) (simp_all add: tls_frame_def)
  have "(t', p) = (case (t1, r1) of
        (t', Ready (Inr _)) \<Rightarrow> (t'\<lparr>t_pending_input := 0\<rparr>, Ready (Ok (t_pending_input t')))
      | (t', Ready (Inl e)) \<Rightarrow> (t', Ready (Err e))
      | (t', Pending) \<Rightarrow> (t', Pending))"
    using assms(1,3) unfolding tls_poll_write_def Let_def chunk take_all_iff[THEN iffD2, OF order_refl] t upd step
    by simp
  from tls_held_drains[OF step held this] show ?thesis .
qed

lemma tls_held_writes:
  assumes "poll_writes (tls_poll_write io) rs t d = (t', [])" and "tls_held good sent server t w (length d)"
    and "d \<noteq> []"
  shows "tls_rested good sent server t' False w"
  using assms
proof (induction rs arbitrary: t)
  case (Cons r rs)
  obtain u p where step: "tls_poll_write io r t d = (u, p)" by (cases "tls_poll_write io r t d")
  note poll = tls_held_poll[OF step Cons.prems(2)]
  show ?case
  proof (cases p rule: poll_cases)
    case (ok k)
    with poll have "k = length d" "tls_rested good sent server u False w" by simp_all
    with Cons.prems(1,3) step ok show ?thesis by (cases rs) simp_all
  qed (use Cons.prems step poll Cons.IH[of u] in simp_all)
qed simp

lemma tls_chunk_writes:
  assumes "poll_writes (tls_poll_write io) rs t d = (t', [])" and "tls_rested good sent server t first w"
    and "d \<noteq> []" and "length d \<le> TLS_CHUNK_SIZE"
  shows "\<exists>r. tls_rested good sent server t' False (w @ tls_frame first r d server)"
proof (cases rs)
  case Nil
  with assms(1,3) show ?thesis by simp
next
  case (Cons r rs')
  obtain u p where step: "tls_poll_write io r t d = (u, p)" by (cases "tls_poll_write io r t d")
  note poll = tls_rested_poll[OF step assms(2-4)]
  show ?thesis
  proof (cases p rule: poll_cases)
    case (ok k)
    with poll have "k = length d" "tls_rested good sent server u False (w @ tls_frame first r d server)"
      by simp_all
    with assms(1,3) Cons step ok show ?thesis by (cases rs') auto
  next
    case (err e)
    with assms(1,3) Cons step show ?thesis by simp
  next
    case pending
    with poll have "tls_held good sent server u (w @ tls_frame first r d server) (length d)" by simp
    moreover have "poll_writes (tls_poll_write io) rs' u d = (t', [])"
      using assms(1,3) Cons step pending by simp
    ultimately show ?thesis using tls_held_writes assms(3) by blast
  qed
qed

end

text \<open>A write of a test that returned.\<close>

lemma write_all_unwrap_Some:
  "write_all_unwrap wr rs s data = Some s' \<longleftrightarrow> poll_writes wr rs s data = (s', [])"
  by (auto simp: write_all_unwrap_def split: prod.splits)

lemma unwrap_ok_Some: "unwrap_ok res = Some s \<longleftrightarrow> res = (s, Ready (Ok ()))"
  by (auto simp: unwrap_ok_def split: prod.splits if_splits)

lemma read_to_end_Some:
  assumes "read_to_end rd ns n s = Some got"
  obtains s1 s2 where "poll_reads rd s ns = Some (s1, got)" and "rd s1 n = Some (s2, Ready (Ok []))" and "0 < n"
  using assms by (auto simp: read_to_end_def bind_eq_Some_conv split: if_splits)

section \<open>The tests of HttpObfs pass\<close>

context async_stream
begin

lemma http_first_writes_wire:
  assumes "good s" and "sent s = []" and "http_first_writes b64 io rs1 rs2 s = Some h"
  shows "http_framed b64 ''example.com'' 80 (sent (h_inner h)) (as_bytes ''PAYLOAD1'' @ as_bytes ''PAYLOAD2'')"
proof -
  from assms(3) obtain h1 h2 where first:
      "poll_writes (http_poll_write b64 io) rs1 (http_new s ''example.com'' 80) (as_bytes ''PAYLOAD1'') = (h1, [])"
    and second: "poll_writes (http_poll_write b64 io) rs2 h1 (as_bytes ''PAYLOAD2'') = (h2, [])"
    and flush: "http_poll_flush io h2 = (h, Ready (Ok ()))"
    by (auto simp: http_first_writes_def Let_def write_all_unwrap_Some unwrap_ok_Some bind_eq_Some_conv)
  have new: "http_accepted good sent b64 ''example.com'' 80 (http_new s ''example.com'' 80) [] []"
    using assms(1,2) by (rule http_new_accepted)
  from http_w.poll_writes_accepts[OF new _ first] have one: "http_accepted good sent b64 ''example.com'' 80 h1 (as_bytes ''PAYLOAD1'') []" by auto
  from http_w.poll_writes_accepts[OF one _ second]
  have "http_accepted good sent b64 ''example.com'' 80 h2 (as_bytes ''PAYLOAD1'' @ as_bytes ''PAYLOAD2'') []"
    by auto
  from http_d.flush_acc[OF this, of False h] flush
  have acc: "http_accepted good sent b64 ''example.com'' 80 h (as_bytes ''PAYLOAD1'' @ as_bytes ''PAYLOAD2'') []"
    by simp
  moreover have "as_bytes ''PAYLOAD1'' \<noteq> []" by (simp flip: length_0_conv)
  ultimately have "http_bound sent h = sent (h_inner h)" "\<not> h_first_request h"
    by (auto simp: http_accepted_def http_bound_def split: if_splits)
  with acc show ?thesis by (simp add: http_accepted_def)
qed

end

lemma test_first_write:
  assumes "http_framed b64 ''example.com'' 80 w (as_bytes ''PAYLOAD1'' @ as_bytes ''PAYLOAD2'')"
    and "\<And>x. url_safe (b64 x)"
  shows "http_obfs_first_write_then_passthrough w = Some ()"
proof -
  let ?data = "''PAYLOAD1'' @ ''PAYLOAD2''"
  from assms(1) obtain d body rest where data: "as_bytes ?data = body @ rest"
    and w: "w = build_http_request b64 d ''example.com'' 80 body @ rest"
    using http_framed_def[THEN iffD1, OF assms(1)] unfolding as_bytes_append by blast
  let ?head = "http_request_head b64 d ''example.com'' 80 (length body)"
  have wire: "w = as_bytes (?head @ ?data)" by (simp only: w request_split append_assoc as_bytes_append data[symmetric])
  have "ascii ''example.com''" "ascii (b64 (fill_bytes (key_byte d) 16))" "ascii ?data"
    using url_safe_ascii[OF assms(2)] by simp_all
  then have "ascii (?head @ ?data)" by (simp only: ascii_simps(3) http_head_ascii)
  then have decoded: "from_utf8 w = Some (?head @ ?data)" unfolding wire by (rule from_utf8_ascii)
  have start: "prefix (''GET / HTTP/1.1'' @ crlf) (?head @ ?data)"
    unfolding http_request_head_lines by (rule prefix_prefix[OF head_lines_start])
  have "no_cr ''example.com''" "no_cr (b64 (fill_bytes (key_byte d) 16))"
    using url_safe_no_cr[OF assms(2)] by simp_all
  from find_double_crlf_request[of _ b64 d 80 body rest, OF this]
  have idx: "find (\<lambda>i. take 4 (drop i w) = double_crlf) [0..<length w - 3] = Some (length ?head - 4)"
    unfolding find_double_crlf_range[symmetric] w .
  have "4 \<le> length ?head" by (simp add: http_request_head_def)
  then have after: "slice_from w (length ?head - 4 + 4) = Some (as_bytes ?data)"
    by (simp add: wire slice_from_def)
  have payload: "prefix (as_bytes ''PAYLOAD1'') (as_bytes ?data)" "suffix (as_bytes ''PAYLOAD2'') (as_bytes ?data)"
    unfolding as_bytes_append by (rule prefixI, rule refl) (rule suffixI, rule refl)
  show ?thesis
    unfolding http_obfs_first_write_then_passthrough_def Let_def decoded option.case idx
    by (simp only: start after payload assert_that_simps bind.bind_lunit)
qed

context stream_reader
begin

text \<open>When \<open>HttpObfs\<close> reports the end of the stream, it keeps nothing back.\<close>

lemma http_header_end_nothing_left:
  assumes "http_read_header io h room = (h', Ready (Ok []))" and "0 < room" and "good (h_inner h)"
    and "h_leftover h = []" and "h_leftover_off h = 0"
  shows "http_pending h' = []"
  using assms
proof (induction "Suc MAX_HEADER - length (h_response_scratch h)" arbitrary: h rule: less_induct)
  case less
  from less.prems(1) show ?case
  proof (cases rule: http_read_headerE)
    case (again s bs)
    let ?h = "h\<lparr>h_inner := s, h_response_scratch := h_response_scratch h @ bs\<rparr>"
    have "good s" using reader.read_ok[OF less.prems(3), of 1024 s bs] again(1) by simp
    moreover have "Suc MAX_HEADER - length (h_response_scratch ?h)
        < Suc MAX_HEADER - length (h_response_scratch h)"
      using again(2,5) by (cases bs) auto
    ultimately show ?thesis using less.hyps[of ?h] again(4) less.prems by simp
  next
    case (eof s)
    show ?thesis by (simp add: http_pending_def eof(3) less.prems(4))
  next
    case (body s bs i b n)
    have "take n b = []" using body(7) by simp
    moreover have "b \<noteq> []" using body(5,6) by auto
    ultimately show ?thesis using body(6) by simp
  next
    case (fallthrough s bs i b s')
    from fallthrough(5) less.prems(2) have "b = []" by simp
    then show ?thesis by (simp add: http_pending_def fallthrough(7) less.prems(4))
  qed simp_all
qed

lemma http_end_nothing_left:
  assumes "http_poll_read io h room = (h', Ready (Ok []))" and "0 < room" and "http_read_inv good rcvd h"
  shows "http_pending h' = []"
proof (cases "h_leftover_off h < length (h_leftover h)")
  case True
  from http_poll_read_leftover[OF assms(1,3) True] have "take room (http_pending h) = []" by simp
  with assms(2) True show ?thesis by (simp add: http_pending_def)
next
  case no_leftover: False
  then have empty: "h_leftover h = []" "h_leftover_off h = 0"
    using assms(3) by (cases "h_first_response h"; simp add: http_read_inv_def http_pending_def)+
  have good: "good (h_inner h)" using assms(3) by (simp add: http_read_inv_def)
  show ?thesis
  proof (cases "h_first_response h")
    case True
    with assms(1) empty have "http_read_header io h room = (h', Ready (Ok []))"
      by (simp add: http_poll_read_def)
    then show ?thesis using assms(2) good empty by (rule http_header_end_nothing_left)
  next
    case False
    obtain s p where "op_read io (h_inner h) room = (s, p)" by (cases "op_read io (h_inner h) room")
    with assms(1) empty False have "h' = h\<lparr>h_inner := s\<rparr>" by (simp add: http_poll_read_def)
    with empty show ?thesis by (simp add: http_pending_def)
  qed
qed

lemma http_read_to_end:
  assumes "good s" and "rcvd s = []" and "\<And>u. \<lbrakk>good u; eof u\<rbrakk> \<Longrightarrow> rcvd u = w"
    and "read_to_end (\<lambda>h n. Some (http_poll_read io h n)) ns n (http_new s host port) = Some got"
  shows "got = http_body w"
proof -
  from read_to_end_Some[OF assms(4)] obtain h h' where
      reads: "http_reads io (http_new s host port) ns = Some (h, got)"
    and last: "http_poll_read io h n = (h', Ready (Ok []))" and room: "0 < n"
    by auto
  from http.poll_reads_rcvd[OF http_new_read_inv[of good s rcvd, OF assms(1,2)] reads] assms(2)
  have inv: "http_read_inv good rcvd h" and got: "http_delivered rcvd h = got"
    by (simp_all add: http_new_delivered)
  from http_poll_read_contract[OF last inv] room
  have fin: "http_read_inv good rcvd h'" "http_delivered rcvd h' = http_delivered rcvd h" "eof (h_inner h')" by simp_all
  have "good (h_inner h')" using fin(1) by (simp add: http_read_inv_def)
  with http_delivered_pending[OF fin(1)] http_end_nothing_left[OF last room inv] fin(2,3) got assms(3)
  show ?thesis by simp
qed

lemma tls_read_to_end:
  assumes "good s" and "rcvd s = []" and "\<And>u. \<lbrakk>good u; eof u\<rbrakk> \<Longrightarrow> rcvd u = w"
    and "read_to_end (tls_poll_read io) ns n (tls_new s server) = Some got"
  shows "got = tls_payload w"
proof -
  from read_to_end_Some[OF assms(4)] obtain t t' where
      reads: "poll_reads (tls_poll_read io) (tls_new s server) ns = Some (t, got)"
    and last: "tls_poll_read io t n = Some (t', Ready (Ok []))" and room: "0 < n" .
  from tls.poll_reads_rcvd[OF tls_new_read_inv[of good s rcvd, OF assms(1,2)] reads] assms(2)
  have inv: "tls_read_inv good rcvd t" and got: "tls_delivered rcvd t = got"
    by (simp_all add: tls_new_delivered)
  have "good (t_inner t')" using tls.read_step[OF inv last] by (simp add: tls_read_inv_def)
  with tls.read_step[OF inv last] tls.read_eof[OF inv room last] assms(3) got
  show ?thesis by (simp add: tls_delivered_def)
qed

end

lemma http_response_stream_body: "http_body http_response_stream = as_bytes ''HELLO_BODY_BYTES_AND_MORE''"
  by code_simp

lemma tls_server_stream_payload:
  "tls_payload tls_server_stream = as_bytes ''hello-from-server'' @ as_bytes ''second-frame''"
  by code_simp

section \<open>The tests of TlsObfs pass\<close>

lemma hello_starts_wire:
  fixes d :: tls_draw
  assumes "length data + length server \<le> 65323"
  defines "hello \<equiv> build_client_hello d data server" and "n \<equiv> 212 + length data + length server"
  shows "index_at (hello @ rest) 0 = Some 0x16"
    and "slice_range (hello @ rest) 1 3 = Some [0x03, 0x01]"
    and "\<exists>b3 b4. index_at (hello @ rest) 3 = Some b3 \<and> index_at (hello @ rest) 4 = Some b4 \<and>
      unat (u16_from_be b3 b4) = n"
    and "slice_to (hello @ rest) (5 + n) = Some hello"
    and "slice_range (hello @ rest) 5 (5 + n) = Some (drop 5 hello)"
    and "slice_from (hello @ rest) (5 + n) = Some rest"
proof -
  let ?front = "hello_front d (length data) (length server)"
  have split: "hello = ?front @ data @ hello_back server" by (simp add: hello_def build_client_hello_def)
  have len: "length hello = 5 + n" by (simp add: hello_def n_def)
  have at: "index_at (hello @ rest) i = Some (?front ! i)" if "i < 142" for i
    using that by (simp add: index_at_def split nth_append)
  show "index_at (hello @ rest) 0 = Some 0x16" using at[of 0] by (simp add: hello_front_nth)
  show "slice_range (hello @ rest) 1 3 = Some [0x03, 0x01]"
    using hello_front_version[of d "length data" "length server"]
    by (simp add: slice_range_def split numeral_2_eq_2)
  have "unat (u16_from_be (?front ! 3) (?front ! 4)) = n"
    unfolding hello_front_nth n_def using assms(1) unat_u16_sum[of 212 "length data" "length server"] by simp
  with at[of 3] at[of 4]
  show "\<exists>b3 b4. index_at (hello @ rest) 3 = Some b3 \<and> index_at (hello @ rest) 4 = Some b4 \<and>
      unat (u16_from_be b3 b4) = n" by simp
  show "slice_to (hello @ rest) (5 + n) = Some hello" "slice_from (hello @ rest) (5 + n) = Some rest"
    "slice_range (hello @ rest) 5 (5 + n) = Some (drop 5 hello)"
    using len by (simp_all add: slice_to_def slice_from_def slice_range_def)
qed

lemma hello_embeds:
  "any_window data (build_client_hello d data server)"
  "any_window data (drop 5 (build_client_hello d data server))"
proof -
  let ?front = "hello_front d (length data) (length server)"
  have split: "build_client_hello d data server = ?front @ data @ hello_back server"
    by (simp add: build_client_hello_def)
  show "any_window data (build_client_hello d data server)"
    unfolding any_window_def split by (rule sublist_appendI)
  have "drop 5 (build_client_hello d data server) = drop 5 ?front @ data @ hello_back server"
    by (simp add: split)
  then show "any_window data (drop 5 (build_client_hello d data server))"
    unfolding any_window_def by (metis sublist_appendI)
qed

lemma record_on_wire:
  assumes "length data < 65536"
  shows "index_at (tls_app_record data) 0 = Some 0x17"
    and "slice_range (tls_app_record data) 1 3 = Some [0x03, 0x03]"
    and "\<exists>a3 a4. index_at (tls_app_record data) 3 = Some a3 \<and> index_at (tls_app_record data) 4 = Some a4 \<and>
      unat (u16_from_be a3 a4) = length data"
    and "slice_range (tls_app_record data) 5 (5 + length data) = Some data"
  using u16_from_to_be_nat[OF assms]
  by (simp_all add: tls_app_record_def index_at_def slice_range_def u16_to_be_def)

context async_stream
begin

lemma tls_two_writes_rested:
  assumes "good s" and "sent s = []" and "tls_two_writes io data1 data2 rs1 rs2 s = Some t"
    and "tls_chunk data1" and "tls_chunk data2"
  shows "\<exists>d. tls_rested good sent ''example.com'' t False
    (build_client_hello d data1 ''example.com'' @ tls_app_record data2)"
proof -
  from assms(3) obtain t1 where first: "poll_writes (tls_poll_write io) rs1 (tls_new s ''example.com'') data1 = (t1, [])"
    and second: "poll_writes (tls_poll_write io) rs2 t1 data2 = (t, [])"
    by (auto simp: tls_two_writes_def Let_def write_all_unwrap_Some bind_eq_Some_conv)
  have "tls_rested good sent ''example.com'' (tls_new s ''example.com'') True []"
    using assms(1,2) by (simp add: tls_rested_def tls_new_def)
  from tls_chunk_writes[OF first this] assms(4) obtain d where
    "tls_rested good sent ''example.com'' t1 False (build_client_hello d data1 ''example.com'')"
    by (auto simp: tls_frame_def tls_chunk_def)
  from tls_chunk_writes[OF second this] assms(5) show ?thesis
    by (auto simp: tls_frame_def tls_chunk_def)
qed

lemma tls_close_rested:
  assumes "(if k then tls_poll_shutdown io t else tls_poll_flush io t) = (t', Ready (Ok ()))"
    and "tls_rested good sent server t first w"
  shows "sent (t_inner t') = w"
proof -
  have "good (t_inner t)" "tls_bound sent t = w" using assms(2) by (simp_all add: tls_rested_def tls_bound_def)
  with tls_poll_close_sends[OF assms(1)] show ?thesis by (auto simp: tls_bound_def)
qed

lemma tls_first_writes_wire:
  assumes "good s" and "sent s = []" and "tls_first_writes io rs1 rs2 s = Some t"
  shows "\<exists>d. sent (t_inner t) =
    build_client_hello d (as_bytes ''FIRST'') ''example.com'' @ tls_app_record (as_bytes ''SECOND'')"
proof -
  from assms(3) obtain t1 where
      run: "tls_two_writes io (as_bytes ''FIRST'') (as_bytes ''SECOND'') rs1 rs2 s = Some t1"
    and flush: "tls_poll_flush io t1 = (t, Ready (Ok ()))"
    by (auto simp: tls_first_writes_def unwrap_ok_Some bind_eq_Some_conv)
  have "tls_chunk (as_bytes ''FIRST'')" "tls_chunk (as_bytes ''SECOND'')"
    by (simp_all add: tls_chunk_def TLS_CHUNK_SIZE_def flip: length_0_conv)
  from tls_two_writes_rested[OF assms(1,2) run this] tls_close_rested[of False t1 t] flush
  show ?thesis by auto
qed

lemma tls_wrapper_writes_wire:
  assumes "good s" and "sent s = []" and "tls_wrapper_writes io rs1 rs2 s = Some t"
  shows "\<exists>d. sent (t_inner t) =
    build_client_hello d (as_bytes ''first-msg'') ''example.com'' @ tls_app_record (as_bytes ''second-msg'')"
proof -
  from assms(3) obtain t1 where
      run: "tls_two_writes io (as_bytes ''first-msg'') (as_bytes ''second-msg'') rs1 rs2 s = Some t1"
    and shut: "tls_poll_shutdown io t1 = (t, Ready (Ok ()))"
    by (auto simp: tls_wrapper_writes_def unwrap_ok_Some bind_eq_Some_conv)
  have "tls_chunk (as_bytes ''first-msg'')" "tls_chunk (as_bytes ''second-msg'')"
    by (simp_all add: tls_chunk_def TLS_CHUNK_SIZE_def flip: length_0_conv)
  from tls_two_writes_rested[OF assms(1,2) run this] tls_close_rested[of True t1 t] shut
  show ?thesis by auto
qed

end

text \<open>The two packets that the tests take apart.\<close>

lemma two_packets:
  fixes d :: tls_draw
  assumes "length data1 \<le> 100" and "length data2 < 65536"
  defines "hello \<equiv> build_client_hello d data1 ''example.com''"
  obtains n b3 b4 a3 a4 where
    "index_at (hello @ tls_app_record data2) 3 = Some b3" "index_at (hello @ tls_app_record data2) 4 = Some b4"
    "unat (u16_from_be b3 b4) = n"
    "slice_to (hello @ tls_app_record data2) (5 + n) = Some hello"
    "slice_range (hello @ tls_app_record data2) 5 (5 + n) = Some (drop 5 hello)"
    "slice_from (hello @ tls_app_record data2) (5 + n) = Some (tls_app_record data2)"
    "index_at (tls_app_record data2) 3 = Some a3" "index_at (tls_app_record data2) 4 = Some a4"
    "unat (u16_from_be a3 a4) = length data2"
proof -
  have "length data1 + length ''example.com'' \<le> 65323" using assms(1) by simp
  note hello = hello_starts_wire[OF this, where d = d and rest = "tls_app_record data2", folded hello_def]
  show ?thesis using hello(3-6) record_on_wire(3)[OF assms(2)] that by blast
qed

lemma test_first_then_chunks:
  "tls_obfs_write_first_then_chunks
     (build_client_hello d (as_bytes ''FIRST'') ''example.com'' @ tls_app_record (as_bytes ''SECOND'')) = Some ()"
proof -
  let ?hello = "build_client_hello d (as_bytes ''FIRST'') ''example.com''"
  let ?rec = "tls_app_record (as_bytes ''SECOND'')"
  have lens: "length (as_bytes ''FIRST'') \<le> 100" "length (as_bytes ''SECOND'') < 65536"
    "length (as_bytes ''FIRST'') + length ''example.com'' \<le> 65323" by simp_all
  from two_packets[OF lens(1,2), of d] obtain n b3 b4 a3 a4 where parts:
    "index_at (?hello @ ?rec) 3 = Some b3" "index_at (?hello @ ?rec) 4 = Some b4" "unat (u16_from_be b3 b4) = n"
    "slice_to (?hello @ ?rec) (5 + n) = Some ?hello" "slice_from (?hello @ ?rec) (5 + n) = Some ?rec"
    "index_at ?rec 3 = Some a3" "index_at ?rec 4 = Some a4" "unat (u16_from_be a3 a4) = length (as_bytes ''SECOND'')"
    by metis
  show ?thesis
    unfolding tls_obfs_write_first_then_chunks_def Let_def
    by (simp only: hello_starts_wire(1,2)[OF lens(3)] hello_embeds parts record_on_wire(1,2,4)[OF lens(2)]
        assert_that_simps bind.bind_lunit simp_thms)
qed

lemma test_two_wrappers:
  "tls_obfs_round_trip_through_two_wrappers
     (build_client_hello d (as_bytes ''first-msg'') ''example.com'' @ tls_app_record (as_bytes ''second-msg'')) = Some ()"
proof -
  let ?hello = "build_client_hello d (as_bytes ''first-msg'') ''example.com''"
  let ?rec = "tls_app_record (as_bytes ''second-msg'')"
  have lens: "length (as_bytes ''first-msg'') \<le> 100" "length (as_bytes ''second-msg'') < 65536"
    "length (as_bytes ''first-msg'') + length ''example.com'' \<le> 65323" by simp_all
  from two_packets[OF lens(1,2), of d] obtain n b3 b4 a3 a4 where parts:
    "index_at (?hello @ ?rec) 3 = Some b3" "index_at (?hello @ ?rec) 4 = Some b4" "unat (u16_from_be b3 b4) = n"
    "slice_range (?hello @ ?rec) 5 (5 + n) = Some (drop 5 ?hello)" "slice_from (?hello @ ?rec) (5 + n) = Some ?rec"
    "index_at ?rec 3 = Some a3" "index_at ?rec 4 = Some a4" "unat (u16_from_be a3 a4) = length (as_bytes ''second-msg'')"
    by metis
  show ?thesis
    unfolding tls_obfs_round_trip_through_two_wrappers_def Let_def
    by (simp only: hello_starts_wire(1,2)[OF lens(3)] hello_embeds parts record_on_wire(1,2,4)[OF lens(2)]
        assert_that_simps bind.bind_lunit simp_thms)
qed

section \<open>A peer that writes and is dropped\<close>

text \<open>
  The other end of the duplex writes \<open>w\<close>, in any pieces and with any pauses, and is dropped: then
  the end of the stream is reported, and only after all of \<open>w\<close>.
\<close>

fun plays :: "read_event list \<Rightarrow> bytes \<Rightarrow> bool" where
  "plays [] w = False"
| "plays (Data bs # r) w = (bs \<noteq> [] \<and> prefix bs w \<and> plays r (drop (length bs) w))"
| "plays (Eof # r) w = (w = [])"
| "plays (_ # r) w = plays r w"

definition closing :: "bytes \<Rightarrow> script \<Rightarrow> bool" where
  "closing w s \<longleftrightarrow> (\<exists>rest. taken s @ rest = w \<and> plays (rx s) rest \<and> (ended s \<longrightarrow> rest = []))"

lemma closing_ended: "\<lbrakk>closing w s; ended s\<rbrakk> \<Longrightarrow> taken s = w"
  by (auto simp: closing_def)

lemma plays_piece:
  assumes "plays (Data bs # r) w" and "n < length bs"
  shows "plays (Data (drop n bs) # r) (drop n w)"
proof -
  from assms(1) obtain v where "w = bs @ v" "plays r v" by (auto simp: prefix_def)
  with assms(2) show ?thesis by simp
qed

lemma closing_read:
  assumes "closing w s" and "script_read s n = (s', r)"
  shows "closing w s'"
proof -
  from assms(1) obtain rest where w: "taken s @ rest = w" and rest: "plays (rx s) rest"
    and fin: "ended s \<longrightarrow> rest = []" by (auto simp: closing_def)
  show ?thesis
  proof (cases "n = 0")
    case True
    with assms show ?thesis by (simp add: script_read_def)
  next
    case room: False
    show ?thesis
    proof (cases "rx s")
      case (Cons e es)
      show ?thesis
      proof (cases e)
        case (Data bs)
        from rest Cons Data obtain v where v: "rest = bs @ v" "plays es v" "bs \<noteq> []"
          by (auto simp: prefix_def)
        have "plays (if length bs \<le> n then es else Data (drop n bs) # es) (drop n bs @ v)"
        proof (cases "length bs \<le> n")
          case False
          then have "plays (Data (drop n bs) # es) (drop n rest)"
            using rest Cons Data by (intro plays_piece) simp_all
          with False v(1) show ?thesis by simp
        qed (use v in simp)
        moreover have "taken s @ take n bs @ drop n bs @ v = w"
          using w v(1) append_take_drop_id[of n bs] append_assoc by metis
        ultimately show ?thesis
          using assms(2) room Cons Data fin v(1,3)
          unfolding closing_def by (intro exI[of _ "drop n bs @ v"]) (auto simp: script_read_def)
      qed (use assms(2) room Cons rest w fin in \<open>auto simp: script_read_def closing_def\<close>)
    qed (use assms room rest in simp)
  qed
qed

interpretation script_closing: stream_reader script_ops "closing w" taken ended for w
proof unfold_locales
  fix s n s' bs
  assume "closing w s" and "total_read script_ops s n = Some (s', Ready (Ok bs))"
  then show "closing w s' \<and> taken s' = taken s @ bs \<and> length bs \<le> n"
    using closing_read[of w s n s'] script_finite.finite.read_ok by auto
next
  fix s n s' r
  assume "closing w s" and "total_read script_ops s n = Some (s', r)" and "\<not> ready_ok r"
  then show "closing w s' \<and> taken s' = taken s"
    using closing_read[of w s n s' r] script_finite.finite.read_idle by auto
next
  fix s n s'
  assume "0 < n" and "total_read script_ops s n = Some (s', Ready (Ok []))"
  then show "ended s'" using script_finite.finite.read_eof by blast
qed

section \<open>The properties\<close>


definition slow_peer :: script where
  "slow_peer = script_of [] [Write_Pending]"

lemma slow_peer_two_writes:
  assumes "length data1 \<in> {1..100}" and "length data2 \<in> {1..100}"
  shows "\<exists>t. tls_two_writes script_ops data1 data2 [d, d] [d] slow_peer = Some t \<and> t_write_buf t = []"
proof -
  have "build_client_hello d data1 ''example.com'' \<noteq> []"
    using length_build_client_hello[of d data1 "''example.com''"] by (metis add_is_0 list.size(3) zero_neq_numeral)
  moreover have "data1 \<noteq> []" "data2 \<noteq> []" using assms by auto
  ultimately show ?thesis
    using assms by (simp add: slow_peer_def tls_two_writes_def Let_def write_all_unwrap_def tls_new_def
        tls_poll_write_def tls_poll_drain_write_buf_def script_of_def poll_drain.simps[of _ _ _ 0]
        script_write_def TLS_CHUNK_SIZE_def del: length_build_client_hello)
qed

lemma slow_peer_runs:
  "\<exists>h. http_first_writes (\<lambda>_. ''a2V5'') script_ops [sample_http_draw, sample_http_draw] [sample_http_draw] slow_peer = Some h"
  "\<exists>t. tls_first_writes script_ops [sample_tls_draw, sample_tls_draw] [sample_tls_draw] slow_peer = Some t"
  "\<exists>t. tls_wrapper_writes script_ops [sample_tls_draw, sample_tls_draw] [sample_tls_draw] slow_peer = Some t"
proof -
  have "map_option (\<lambda>_. ()) (http_first_writes (\<lambda>_. ''a2V5'') script_ops [sample_http_draw, sample_http_draw]
      [sample_http_draw] slow_peer) = Some ()" by code_simp
  then show "\<exists>h. http_first_writes (\<lambda>_. ''a2V5'') script_ops [sample_http_draw, sample_http_draw]
    [sample_http_draw] slow_peer = Some h" by blast
  show "\<exists>t. tls_first_writes script_ops [sample_tls_draw, sample_tls_draw] [sample_tls_draw] slow_peer = Some t"
    using slow_peer_two_writes[of "as_bytes ''FIRST''" "as_bytes ''SECOND''" sample_tls_draw]
    by (auto simp: tls_first_writes_def tls_poll_flush_def unwrap_ok_def)
  show "\<exists>t. tls_wrapper_writes script_ops [sample_tls_draw, sample_tls_draw] [sample_tls_draw] slow_peer = Some t"
    using slow_peer_two_writes[of "as_bytes ''first-msg''" "as_bytes ''second-msg''" sample_tls_draw]
    by (auto simp: tls_wrapper_writes_def tls_poll_shutdown_def unwrap_ok_def)
qed



definition dropped_http_server :: script where
  "dropped_http_server =
     script_of [Data (take 20 http_response_stream), Read_Pending, Data (drop 20 http_response_stream), Eof] []"

definition dropped_tls_server :: script where
  "dropped_tls_server =
     script_of [Data (take 106 tls_server_stream), Read_Pending, Data (drop 106 tls_server_stream), Eof] []"

lemma dropped_servers:
  "closing http_response_stream dropped_http_server" "closing tls_server_stream dropped_tls_server"
proof -
  have "length http_response_stream = 117" "length tls_server_stream = 141" by code_simp+
  then show "closing http_response_stream dropped_http_server" "closing tls_server_stream dropped_tls_server"
    by (auto simp: closing_def dropped_http_server_def dropped_tls_server_def script_of_def take_is_prefix)
qed

lemma dropped_servers_read:
  "read_to_end (\<lambda>h n. Some (http_poll_read script_ops h n)) (replicate 5 9) 9
     (http_new dropped_http_server ''example.com'' 80) = Some (as_bytes ''HELLO_BODY_BYTES_AND_MORE'')"
  "read_to_end (tls_poll_read script_ops) (replicate 6 9) 9 (tls_new dropped_tls_server ''example.com'')
     = Some (as_bytes ''hello-from-server'' @ as_bytes ''second-frame'')"
  by code_simp+


end
