(* ===== verification/Spec2Isabelle.thy ===== *)
theory Spec2Isabelle
  imports Obfs_Http_Duplex Obfs_Tls_Duplex Obfs_Checked Ffi_Calls Ffi_Builds Ffi_Threads Ffi_Locks Net_Helper
    Unit_Tests_Plugin Unit_Tests_Ffi Unit_Tests_Obfs Unit_Tests_Streams
begin

text \<open>
  A verification development for the native part of shadowsocks-ohos, the crate
  \<open>src/native/sslocal-ffi\<close>: the C interface through which the HarmonyOS application runs the
  shadowsocks client inside its own process, and the SIP003 plugins built into it. The
  application, the NAPI bridge and the shadowsocks core are outside.

  The parts and how they interact. The application calls the exported functions of \<open>lib.rs\<close>. A
  start parses the config, starts a loopback forwarder for every server entry with a plugin,
  points the entry at the forwarder, and runs the core on the rewritten config. A forwarder
  (\<open>plugin.rs\<close>) accepts connections of the core, connects to the real server, wraps that
  connection with the plugin (\<open>obfs.rs\<close> or \<open>v2ray_plugin.rs\<close>), and relays between the two with
  \<open>tokio::io::copy_bidirectional\<close>. Errors leave a message for \<open>sslocal_last_error\<close>.

  The theories.

  \<^item> \<open>Prelude\<close>: machine integers, results, \<open>Poll\<close>, byte strings, decimal printing, list lemmas.

  \<^item> \<open>Stream_Io\<close>: the transport below a wrapper, as a record of its four poll operations, and
  what tokio documents of it, as locales; sequences of polls, in particular the sessions of a
  caller that behaves like \<open>copy_bidirectional\<close> (\<open>poll_session\<close>: any interleaving of reads,
  writes, flushes and shutdowns, except that after a pending write nothing is flushed until the
  write was polled again); an in-memory peer that plays a script, which is an instance of every
  locale.

  \<^item> \<open>Obfs_Drain\<close>, \<open>Obfs_Http\<close>, \<open>Obfs_Http_Fed\<close>, \<open>Obfs_Http_Write\<close>, \<open>Obfs_Http_Duplex\<close>: the loop
  \<open>poll_drain_write_buf\<close> and \<open>HttpObfs\<close>, one definition per poll operation on a record with the
  fields of the struct. The specification is that a wrapped stream is again a stream: what it
  hands out is the body of what was received, what reaches the wire is one request with the
  caller's data as its body. The sublocales carry the contract of the transport through the
  wrapper.

  \<^item> \<open>Obfs_Tls\<close>, \<open>Obfs_Tls_Read\<close>, \<open>Obfs_Tls_Write\<close>, \<open>Obfs_Tls_Duplex\<close>: the same for \<open>TlsObfs\<close>. The
  read loop is one turn (\<open>tls_read_turn\<close>) repeated without a bound, so that not returning is
  \<open>None\<close>; it returns over every transport that has finitely many bytes at hand, and there is a
  transport over which it does not. The specification is the decoder \<open>tls_payload\<close> of a whole
  stream, and the peer's decoder \<open>tls_peer_decode\<close>. Sixteen-bit lengths wrap as in a release
  build; the bound 48939 on the server name is what the fake ClientHello can carry next to a
  chunk of 16 KiB.

  \<^item> \<open>Checked\<close>, \<open>Obfs_Checked\<close>: slices, indices and arithmetic that panic, with the panic as \<open>None\<close>, and the
  routines of both wrappers written with them; they are proved equal to the ones above in every
  state that polls lead to, so that the panics of a debug build are covered too.

  \<^item> \<open>Rust_Str\<close>, \<open>V2ray_Plugin\<close>, \<open>Plugin\<close>: the string functions of the standard library the parsers
  use, the options of the plugins with their specifications (the last value of a key counts),
  \<open>dial\<close> and \<open>wrap_stream\<close>, the accept loop as a function of the outcomes of \<open>accept\<close>.

  \<^item> \<open>Ffi_State\<close>, \<open>Ffi_Config\<close>, \<open>Ffi\<close>, \<open>Ffi_Calls\<close>: the statics of \<open>lib.rs\<close> with the buffers of the
  messages on an explicit heap; the rewriting of the config over a locale of JSON values; the
  exported functions, \<open>None\<close> being a panic; and sequences of calls and core failures.

  \<^item> \<open>Ffi_Builds\<close>: the exported functions of the builds without the cargo features \<open>local-tun\<close> and
  \<open>local-flow-stat\<close>, and for other systems than Linux. All other theories are about the build that
  ships.

  \<^item> \<open>Ffi_Threads\<close>, \<open>Ffi_Locks\<close>: the same functions with threads. The lock sections of
  \<open>set_last_error\<close> and \<open>sslocal_last_error\<close> as interleaved steps, with an ownership invariant of
  the buffers; the order in which every entry point takes its locks, and that it cannot deadlock.

  \<^item> \<open>Std_Net\<close>, \<open>Net_Helper\<close>: blocking streams, and \<open>examples/net_helper.rs\<close>, the program of the
  end-to-end test: echo server, client, shadowsocks server, and the tun role, which goes through
  the C interface.

  \<^item> \<open>Unit_Tests_Plugin\<close>, \<open>Unit_Tests_Ffi\<close>, \<open>Unit_Tests_Obfs\<close>, \<open>Unit_Tests_Streams\<close>: the tests of the four
  modules, one definition per test, and that the model passes them: for all random numbers, all
  transports and all orders where the program runs one sample. They tie the model to what the
  program is tested for.

  \<^item> This theory: whole connections through the obfs plugin, from the application's config through
  the start and the forwarder to the wire.

  What is a parameter. The base64 encoder, random numbers and the clock; TCP, \<open>bind\<close>, \<open>accept\<close>,
  \<open>ioctl\<close> and \<open>dup\<close>; the layers of \<open>meow-transport\<close>; \<open>serde_json\<close> and the config type of
  \<open>shadowsocks_service\<close>; the texts of foreign errors. What is relied on of them is a hypothesis or
  a locale, and has an instance.

  Not modelled. Logging; poisoning of the mutexes, and with it what a panic while a lock is held
  would do to later calls (no panic is reachable); sums of \<open>usize\<close>, which add lengths of buffers
  that exist; wakers (a caller may poll at any time); what happens when a runtime is dropped, beyond
  its forwarders being gone; the lock of the tests, and their use of \<open>tokio::io::duplex\<close>, in whose
  place is any transport that keeps its contract; the end-to-end tests under \<open>tests\<close>, which drive
  the core over the network; and the parts of the repository in other languages, which are user
  interface and glue.

  What the theorems show. The theorems of the last section below, with the session theorems of the two
  \<open>Duplex\<close> theories, are the correctness of the plugins on the client's side; further theorems
  there show that nothing is withheld from the reader, that the
  end of a stream is never reported early, that buffers are bounded, and that a flush between a
  pending write and its retry would send the data twice. \<open>V2ray_Plugin\<close> and \<open>Plugin\<close>
  characterise the parsers. The theorems of \<open>Ffi_Calls\<close> say that no
  call panics, that there is one instance at a time, that a failed call leaves only a message, and
  what a successful start has done to the config and to the tun descriptor. \<open>Ffi_Threads\<close> shows how
  long a message stays readable, and that two threads asking at the same time can lose it.
  \<open>Obfs_Checked\<close> shows that no poll of a wrapper panics, and \<open>Ffi_Builds\<close> that every build is as safe as
  the shipped one. \<open>Unit_Tests_Ffi\<close> also shows how a test without the lock can break another.
\<close>

section \<open>Connections through a plugin\<close>

lemma option_value_no_cr:
  assumes "no_cr opts" and "last_value (opt_pairs [] opts) k = Some v"
  shows "no_cr v"
  using opt_pairs_subseq[OF last_value_in[OF assms(2)]] assms(1) set_subseq[of v opts]
  by (auto simp: no_cr_def)

lemma option_value_length:
  "last_value (opt_pairs [] opts) k = Some v \<Longrightarrow> length v \<le> length opts"
  by (drule last_value_in, drule opt_pairs_subseq) (auto dest: list_emb_length)

text \<open>The host name the obfuscation shows: the option's, or the server's.\<close>

definition obfs_host :: "string \<Rightarrow> string \<Rightarrow> string" where
  "obfs_host opts server =
     (case last_value (opt_pairs [] opts) ''obfs-host'' of
        Some h \<Rightarrow> if h = [] then server else h
      | None \<Rightarrow> server)"

lemma obfs_host_no_cr: "no_cr opts \<Longrightarrow> no_cr server \<Longrightarrow> no_cr (obfs_host opts server)"
  using option_value_no_cr[of opts "''obfs-host''"] by (auto simp: obfs_host_def split: option.split)

lemma obfs_host_length:
  "length opts \<le> n \<Longrightarrow> length server \<le> n \<Longrightarrow> length (obfs_host opts server) \<le> n"
  using option_value_length[of opts "''obfs-host''"] by (auto simp: obfs_host_def split: option.split)

lemma obfs_name:
  assumes "name \<in> {''obfs-local'', ''simple-obfs'', ''obfs''}"
  shows "parse_plugin name opts = parse_simple_obfs_opts opts"
  using assms by (auto simp: parse_plugin_def)

lemma http_wrapped:
  assumes "last_value (opt_pairs [] opts) ''obfs'' = Some ''http''" and "connect server port = Ok s"
  shows "\<exists>kind. parse_simple_obfs_opts opts = (Ok kind :: 'e plugin_error + plugin_kind) \<and>
    wrap_stream mt connect iter kind server port
      = (Ok (Http_Stream (http_new s (obfs_host opts server) port)) :: 'e plugin_error + 's wrapped_stream)"
  using assms
  by (auto simp: parse_simple_obfs_opts_def simple_obfs_fold obfs_host_def split: option.split)

lemma tls_wrapped:
  assumes "last_value (opt_pairs [] opts) ''obfs'' = Some ''tls''" and "connect server port = Ok s"
  shows "\<exists>kind. parse_simple_obfs_opts opts = (Ok kind :: 'e plugin_error + plugin_kind) \<and>
    wrap_stream mt connect iter kind server port
      = (Ok (Tls_Stream (tls_new s (obfs_host opts server))) :: 'e plugin_error + 's wrapped_stream)"
  using assms
  by (auto simp: parse_simple_obfs_opts_def simple_obfs_fold obfs_host_def split: option.split)

text \<open>
  A relayed connection of the obfs plugin in HTTP mode, from its options to the wire. With
  \<open>obfs=http\<close> in the options, and no carriage return in them or in the server's name, the plugin
  parses, wraps a new connection to the server, and the stream it gives to the relay hands out
  the body of what the server sent, and puts on the wire a request with the relay's data as
  its body, over any transport that keeps its contract and in any interleaving of the kind
  \<open>copy_bidirectional\<close> performs.
\<close>

theorem plugin_http_connection:
  assumes "async_stream io good rcvd eof sent" and "good s" and "rcvd s = []" and "sent s = []"
    and "name \<in> {''obfs-local'', ''simple-obfs'', ''obfs''}" and "no_cr opts" and "no_cr server"
    and "last_value (opt_pairs [] opts) ''obfs'' = Some ''http''"
    and "connect server port = Ok s" and "\<And>x. no_cr (b64 x)"
  shows "\<exists>kind h0. parse_plugin name opts = (Ok kind :: 'e plugin_error + plugin_kind) \<and>
    wrap_stream mt connect iter kind server port = (Ok (Http_Stream h0) :: 'e plugin_error + 's wrapped_stream) \<and>
    (\<forall>es data h out rest held.
       http_session b64 io es h0 data False = Some (h, out, rest, held) \<longrightarrow> data \<noteq> [] \<longrightarrow>
       out @ http_pending h = http_body (rcvd (h_inner h)) \<and>
       (rest = [] \<longrightarrow> http_body (sent (h_inner h)) = data))"
proof -
  let ?h0 = "http_new s (obfs_host opts server) port"
  obtain kind where kind: "parse_simple_obfs_opts opts = (Ok kind :: 'e plugin_error + plugin_kind)"
      "wrap_stream mt connect iter kind server port
         = (Ok (Http_Stream ?h0) :: 'e plugin_error + 's wrapped_stream)"
    using http_wrapped[OF assms(8), where connect = connect, OF assms(9)] by blast
  show ?thesis
  proof (intro exI[of _ kind] exI[of _ ?h0] conjI allI)
    fix es data h out rest held
    show "http_session b64 io es ?h0 data False = Some (h, out, rest, held) \<longrightarrow> data \<noteq> [] \<longrightarrow>
       out @ http_pending h = http_body (rcvd (h_inner h)) \<and>
       (rest = [] \<longrightarrow> http_body (sent (h_inner h)) = data)"
      by (intro impI, drule(1) http_session_correct[OF assms(1-4) obfs_host_no_cr[OF assms(6,7)] assms(10), rotated])
        (elim conjE, intro conjI)
  qed (simp_all add: kind obfs_name[OF assms(5)])
qed

theorem plugin_http_connection_witness:
  "\<exists>h :: script http_obfs. [104, 105, 33] @ http_pending h = http_body (taken (h_inner h)) \<and>
     http_body (wire (h_inner h)) = [1, 2, 3]"
proof -
  let ?es = "[Poll_Read 8, Poll_Flush, Poll_Read 1, Poll_Read 8, Poll_Read 8, Poll_Write sample_http_draw,
         Poll_Flush, Poll_Write sample_http_draw]"
  let ?conn = "\<lambda>_ _. Ok sample_http_peer :: script io_result"
  have pairs: "opt_pairs [] ''obfs=http'' = [(''obfs'', ''http'')]" by code_simp
  have parsed: "parse_plugin ''obfs'' ''obfs=http'' = (Ok (SimpleObfsHttp []) :: unit plugin_error + plugin_kind)"
    "last_value (opt_pairs [] ''obfs=http'') ''obfs'' = Some ''http''"
    by (simp_all add: parse_plugin_def parse_simple_obfs_opts_def simple_obfs_opt_def pairs last_value_Cons)
  have clean: "no_cr ''obfs=http''" "no_cr ''h''" "no_cr ''key''" by (simp_all add: no_cr_def)
  from sample_http_run obtain h where run:
    "http_session (\<lambda>_. ''key'') script_ops ?es (http_new sample_http_peer ''h'' 81) [1, 2, 3] False
      = Some (h, [104, 105, 33], [], False)" by auto
  have peer: "True" "taken sample_http_peer = []" "wire sample_http_peer = []"
    and named: "''obfs'' \<in> {''obfs-local'', ''simple-obfs'', ''obfs''}"
    by (simp_all add: sample_http_peer_def script_of_def)
  from plugin_http_connection[OF script_stream.async_stream_axioms peer, of "''obfs''" "''obfs=http''" "''h''" ?conn 81
      "\<lambda>_. ''key''", OF named clean(1,2) parsed(2) refl clean(3), where mt = undefined and iter = "\<lambda>_. []" and 'e = unit]
  obtain kind h0 where "parse_plugin ''obfs'' ''obfs=http'' = (Ok kind :: unit plugin_error + plugin_kind)"
    and wrapped: "wrap_stream undefined ?conn (\<lambda>_. []) kind ''h'' 81
      = (Ok (Http_Stream h0) :: unit plugin_error + script wrapped_stream)"
    and result: "\<forall>es data h out rest held. http_session (\<lambda>_. ''key'') script_ops es h0 data False
        = Some (h, out, rest, held) \<longrightarrow> data \<noteq> [] \<longrightarrow> out @ http_pending h = http_body (taken (h_inner h)) \<and>
          (rest = [] \<longrightarrow> http_body (wire (h_inner h)) = data)"
    by (elim exE conjE) (rule that)
  with parsed(1) have "kind = SimpleObfsHttp []" by simp
  with wrapped have "h0 = http_new sample_http_peer ''h'' 81" by simp
  note result[rule_format, OF run[folded this]]
  then show ?thesis by (intro exI[of _ h]) simp
qed

text \<open>
  The same for TLS mode: with \<open>obfs=tls\<close> in the options, and options and server name short
  enough for the 16-bit lengths of the fake ClientHello, what the relay reads are the payloads of
  the server's records, and the peer that strips the framing recovers what the relay wrote.
\<close>

theorem plugin_tls_connection:
  assumes "async_stream io good rcvd eof sent" and "good s" and "rcvd s = []" and "sent s = []"
    and "name \<in> {''obfs-local'', ''simple-obfs'', ''obfs''}"
    and "length opts \<le> 48939" and "length server \<le> 48939"
    and "last_value (opt_pairs [] opts) ''obfs'' = Some ''tls''"
    and "connect server port = Ok s"
  shows "\<exists>kind t0. parse_plugin name opts = (Ok kind :: 'e plugin_error + plugin_kind) \<and>
    wrap_stream mt connect iter kind server port = (Ok (Tls_Stream t0) :: 'e plugin_error + 's wrapped_stream) \<and>
    (\<forall>es data t out rest held.
       tls_session io es t0 data False = Some (t, out, rest, held) \<longrightarrow> data \<noteq> [] \<longrightarrow>
       out = tls_payload (rcvd (t_inner t)) \<and>
       (rest = [] \<longrightarrow> tls_peer_decode (sent (t_inner t)) = data))"
proof -
  let ?t0 = "tls_new s (obfs_host opts server)"
  obtain kind where kind: "parse_simple_obfs_opts opts = (Ok kind :: 'e plugin_error + plugin_kind)"
      "wrap_stream mt connect iter kind server port
         = (Ok (Tls_Stream ?t0) :: 'e plugin_error + 's wrapped_stream)"
    using tls_wrapped[OF assms(8), where connect = connect, OF assms(9)] by blast
  show ?thesis
  proof (intro exI[of _ kind] exI[of _ ?t0] conjI allI)
    fix es data t out rest held
    show "tls_session io es ?t0 data False = Some (t, out, rest, held) \<longrightarrow> data \<noteq> [] \<longrightarrow>
       out = tls_payload (rcvd (t_inner t)) \<and>
       (rest = [] \<longrightarrow> tls_peer_decode (sent (t_inner t)) = data)"
      by (intro impI, drule(1) tls_session_correct[OF assms(1-4) obfs_host_length[OF assms(6,7)], rotated])
        (elim conjE, intro conjI)
  qed (simp_all add: kind obfs_name[OF assms(5)])
qed

theorem plugin_tls_connection_witness:
  "\<exists>t :: script tls_obfs. [104, 105, 33] = tls_payload (taken (t_inner t)) \<and>
     tls_peer_decode (wire (t_inner t)) = [1, 2, 3]"
proof -
  let ?es = "[Poll_Read 8, Poll_Flush, Poll_Read 1, Poll_Read 8, Poll_Read 8, Poll_Read 8,
         Poll_Write sample_tls_draw, Poll_Flush, Poll_Write sample_tls_draw]"
  let ?conn = "\<lambda>_ _. Ok sample_tls_peer :: script io_result"
  have pairs: "opt_pairs [] ''obfs=tls'' = [(''obfs'', ''tls'')]" by code_simp
  have parsed: "parse_plugin ''obfs'' ''obfs=tls'' = (Ok (SimpleObfsTls []) :: unit plugin_error + plugin_kind)"
    "last_value (opt_pairs [] ''obfs=tls'') ''obfs'' = Some ''tls''"
    by (simp_all add: parse_plugin_def parse_simple_obfs_opts_def simple_obfs_opt_def pairs last_value_Cons)
  from sample_tls_run obtain t where run:
    "tls_session script_ops ?es (tls_new sample_tls_peer ''h'') [1, 2, 3] False
      = Some (t, [104, 105, 33], [], False)" by auto
  have peer: "True" "taken sample_tls_peer = []" "wire sample_tls_peer = []"
    and named: "''obfs'' \<in> {''obfs-local'', ''simple-obfs'', ''obfs''}"
    and short: "length ''obfs=tls'' \<le> 48939" "length ''h'' \<le> 48939"
    by (simp_all add: sample_tls_peer_def script_of_def)
  from plugin_tls_connection[OF script_stream.async_stream_axioms peer, of "''obfs''" "''obfs=tls''" "''h''" ?conn 443,
      OF named short parsed(2) refl, where mt = undefined and iter = "\<lambda>_. []" and 'e = unit]
  obtain kind t0 where "parse_plugin ''obfs'' ''obfs=tls'' = (Ok kind :: unit plugin_error + plugin_kind)"
    and wrapped: "wrap_stream undefined ?conn (\<lambda>_. []) kind ''h'' 443
      = (Ok (Tls_Stream t0) :: unit plugin_error + script wrapped_stream)"
    and result: "\<forall>es data t out rest held. tls_session script_ops es t0 data False
        = Some (t, out, rest, held) \<longrightarrow> data \<noteq> [] \<longrightarrow> out = tls_payload (taken (t_inner t)) \<and>
          (rest = [] \<longrightarrow> tls_peer_decode (wire (t_inner t)) = data)"
    by (elim exE conjE) (rule that)
  with parsed(1) have "kind = SimpleObfsTls []" by simp
  with wrapped have "t0 = tls_new sample_tls_peer ''h''" by simp
  note result[rule_format, OF run[folded this]]
  then show ?thesis by (intro exI[of _ t]) simp
qed

section \<open>From the config to the wire\<close>

definition entry_opts :: "'j json_ops \<Rightarrow> 'j \<Rightarrow> string" where
  "entry_opts J entry = (case json_str J entry ''plugin_opts'' of Some opts \<Rightarrow> opts | None \<Rightarrow> [])"

text \<open>What a successful start has done for an entry of \<open>servers\<close> that has a plugin.\<close>

lemma started_entry:
  fixes lib :: "('j, 'c, 'l, 'a, 'e) ffi_lib"
  assumes "json_value (lib_json lib)" and "sslocal_start lib os config_json s = Some (SSLOCAL_OK, s')"
    and "parse_config_json lib config_json = Ok v" and "i < length (server_entries (lib_json lib) v)"
    and "json_str (lib_json lib) (server_entries (lib_json lib) v ! i) ''plugin'' = Some name"
    and "json_str (lib_json lib) (server_entries (lib_json lib) v ! i) ''server'' = Some host"
  obtains kind port p v' fs config where
    "parse_plugin name (entry_opts (lib_json lib) (server_entries (lib_json lib) v ! i))
       = (Ok kind :: 'e plugin_error + plugin_kind)"
    "json_port (lib_json lib) (server_entries (lib_json lib) v ! i) = Some port"
    "INSTANCE s' = Some \<lparr>rt_forwarders = fs, rt_config = attach_stat_address lib s config\<rparr>"
    "(kind, host, port, p) \<in> set fs"
    "lib_load_config lib (lib_to_string lib v') = Ok config"
    "redirected (lib_json lib) {} p (server_entries (lib_json lib) v ! i) (server_entries (lib_json lib) v' ! i)"
  using assms(2)
proof (cases rule: sslocal_start_result)
  case 1
  then show ?thesis by (simp add: only_reports_def)
next
  case (2 w specs v' fs config)
  let ?J = "lib_json lib" and ?e = "server_entries (lib_json lib) v ! i"
  from 2(1) assms(3) have w: "w = v" by simp
  from json_value.apply_plugin_forwarders_total[OF assms(1) 2(2), of os 0] 2(4) w
  have fin: "entries_forwarded ?J (lib_show_io lib) (lib_show_transport lib) fs 0 (server_entries ?J v) (server_entries ?J v')"
    by auto
  have "has_plugin ?J ?e" using assms(5) by (auto simp: has_plugin_def json_str_def bind_eq_Some_conv)
  from entries_forwarded_nth[OF fin assms(4) this]
  have "entry_forwarded ?J (lib_show_io lib) (lib_show_transport lib) fs (Server i) {} ?e (server_entries ?J v' ! i)"
    by simp
  then obtain spec p where spec: "extract_one_spec ?J (lib_show_io lib) (lib_show_transport lib) ?e (Server i) = Ok spec"
    and listed: "(spec_kind spec, spec_host spec, spec_port spec, p) \<in> set fs"
    and new: "redirected ?J {} p ?e (server_entries ?J v' ! i)"
    unfolding entry_forwarded_def by blast
  from spec assms(5,6) have "spec_host spec = host" "json_port ?J ?e = Some (spec_port spec)"
    "parse_plugin name (entry_opts ?J ?e) = (Ok (spec_kind spec) :: 'e plugin_error + plugin_kind)"
    by (auto simp: extract_one_spec_Ok entry_opts_def)
  with listed 2(5,6) new show ?thesis
    by (intro that[of "spec_kind spec" "spec_port spec" fs config p v']) auto
qed

text \<open>A config with an entry for each mode, and the state after it was started.\<close>

definition obfs_json :: json where
  "obfs_json = JObject
     [(''servers'', JArray
        [JObject [(''plugin'', JString ''obfs-local''), (''plugin_opts'', JString ''obfs=http''),
                  (''server'', JString ''h''), (''server_port'', JNumber 81)],
         JObject [(''server'', JString ''h''), (''server_port'', JNumber 443),
                  (''plugin'', JString ''simple-obfs''), (''plugin_opts'', JString ''obfs=tls'')]])]"

definition obfs_lib where
  "obfs_lib = sample_lib\<lparr>lib_from_str := (\<lambda>_. Inr obfs_json)\<rparr>"

lemma obfs_lib_json: "json_value (lib_json obfs_lib)" "lib_json obfs_lib = json_instance"
  using sample_json_value by (simp_all add: obfs_lib_def sample_lib_def)

lemma obfs_entries:
  "server_entries (lib_json obfs_lib) obfs_json =
     [JObject [(''plugin'', JString ''obfs-local''), (''plugin_opts'', JString ''obfs=http''),
               (''server'', JString ''h''), (''server_port'', JNumber 81)],
      JObject [(''server'', JString ''h''), (''server_port'', JNumber 443),
               (''plugin'', JString ''simple-obfs''), (''plugin_opts'', JString ''obfs=tls'')]]"
  by code_simp

lemma obfs_started:
  obtains s' where "sslocal_start obfs_lib sample_os (Some ''x'') ffi_initial = Some (SSLOCAL_OK, s')"
    and "parse_config_json obfs_lib (Some ''x'') = Ok obfs_json"
proof -
  have "map_option fst (sslocal_start obfs_lib sample_os (Some ''x'') ffi_initial) = Some 0" by code_simp
  moreover have "parse_config_json obfs_lib (Some ''x'') = Ok obfs_json" by code_simp
  ultimately show ?thesis using that by (auto simp: SSLOCAL_OK_def)
qed





end
